(* ===== verification/Ring_Prelude.thy ===== *)
theory Ring_Prelude
  imports Main "HOL-Library.Word"
begin

text \<open>
  Shared vocabulary of the development: the machine integers of the C++ sources, undefined
  behaviour as a value, byte memory, the little-endian representation of integers, and the
  arithmetic of a circular byte region that both rings rest on.

  Every C++ evaluation that the language leaves undefined (a remainder by zero, an access
  outside the mapped bytes) or that ends the process (\<open>std::abort\<close>) is the left summand of a
  result; a theorem that an operation returns \<open>Inr\<close> is therefore a memory-safety theorem.
\<close>

section \<open>Machine integers\<close>

type_synonym u8 = "8 word"
type_synonym u16 = "16 word"
type_synonym u32 = "32 word"
type_synonym u64 = "64 word"

named_theorems unat_simps "reading a word expression as a natural number"

lemma unat_add_u64 [unat_simps]:
  fixes a b :: u64
  assumes "unat a + unat b < 2 ^ 64"
  shows "unat (a + b) = unat a + unat b"
  using assms by (simp add: unat_word_ariths)

lemma unat_diff_u64 [unat_simps]:
  fixes a b :: u64
  assumes "unat b \<le> unat a"
  shows "unat (a - b) = unat a - unat b"
  using assms by (simp add: unat_sub word_le_nat_alt)

lemma unat_mult_u64 [unat_simps]:
  fixes a b :: u64
  assumes "unat a * unat b < 2 ^ 64"
  shows "unat (a * b) = unat a * unat b"
  using assms by (simp add: unat_word_ariths)

lemma unat_mod_u64 [unat_simps]: "unat (a mod b :: u64) = unat a mod unat b"
  by (rule unat_mod)

lemma unat_u32_lt: "unat (x :: u32) < 2 ^ 32"
  using unsigned_less [of x] by simp

lemma unat_u64_lt: "unat (x :: u64) < 2 ^ 64"
  using unsigned_less [of x] by simp

text \<open>A \<open>uint32_t\<close> used where a \<open>uint64_t\<close> is expected: the value is unchanged.\<close>

definition u64_of_u32 :: "u32 \<Rightarrow> u64" where
  "u64_of_u32 x = ucast x"

lemma unat_u64_of_u32 [simp, unat_simps]: "unat (u64_of_u32 x) = unat x"
  using unat_u32_lt [of x] by (simp add: u64_of_u32_def unsigned_ucast_eq take_bit_nat_eq_self)

text \<open>\<open>static_cast<std::uint32_t>\<close> of a \<open>uint64_t\<close>: the low 32 bits.\<close>

definition u32_of_u64 :: "u64 \<Rightarrow> u32" where
  "u32_of_u64 x = ucast x"

lemma unat_u32_of_u64: "unat (u32_of_u64 x) = unat x mod 2 ^ 32"
  by (simp add: u32_of_u64_def unsigned_ucast_eq take_bit_eq_mod)

lemma unat_u32_of_u64_small [unat_simps]: "unat x < 2 ^ 32 \<Longrightarrow> unat (u32_of_u64 x) = unat x"
  by (simp add: unat_u32_of_u64)


section \<open>Undefined behaviour as a value\<close>

datatype ub =
    div_by_zero          \<comment> \<open>\<open>a % 0\<close> or \<open>a / 0\<close>\<close>
  | out_of_bounds        \<comment> \<open>an access outside the bytes behind the pointer\<close>
  | aborted              \<comment> \<open>\<open>std::abort()\<close>\<close>
  | bad_shift            \<comment> \<open>a shift by at least the width of the operand\<close>
  | diverged             \<comment> \<open>a call that never returns\<close>

type_synonym 'a res = "ub + 'a"

definition res_bind :: "'a res \<Rightarrow> ('a \<Rightarrow> 'b res) \<Rightarrow> 'b res" where
  "res_bind m f = (case m of Inl e \<Rightarrow> Inl e | Inr x \<Rightarrow> f x)"

lemma res_bind_simps [simp]:
  "res_bind (Inl e) f = Inl e"
  "res_bind (Inr x) f = f x"
  by (simp_all add: res_bind_def)

lemma res_bind_eq_Inr [simp]:
  "res_bind m f = Inr y \<longleftrightarrow> (\<exists>x. m = Inr x \<and> f x = Inr y)"
  by (cases m) auto

text \<open>\<open>a % b\<close> on \<open>uint64_t\<close>.\<close>

definition mod_u64 :: "u64 \<Rightarrow> u64 \<Rightarrow> u64 res" where
  "mod_u64 a b = (if b = 0 then Inl div_by_zero else Inr (a mod b))"

lemma mod_u64_nonzero [simp]: "b \<noteq> 0 \<Longrightarrow> mod_u64 a b = Inr (a mod b)"
  by (simp add: mod_u64_def)


section \<open>Byte memory\<close>

text \<open>
  A region of memory is a byte list. \<open>mem_read\<close> and \<open>mem_write\<close> are total; the checked
  variants used by the model return \<open>out_of_bounds\<close> where the access leaves the region.
\<close>

definition mem_read :: "u8 list \<Rightarrow> nat \<Rightarrow> nat \<Rightarrow> u8 list" where
  "mem_read bs i n = take n (drop i bs)"

definition mem_write :: "u8 list \<Rightarrow> nat \<Rightarrow> u8 list \<Rightarrow> u8 list" where
  "mem_write bs i xs = take i bs @ xs @ drop (i + length xs) bs"

definition checked_read :: "u8 list \<Rightarrow> nat \<Rightarrow> nat \<Rightarrow> u8 list res" where
  "checked_read bs i n =
     (if i + n \<le> length bs then Inr (mem_read bs i n) else Inl out_of_bounds)"

definition checked_write :: "u8 list \<Rightarrow> nat \<Rightarrow> u8 list \<Rightarrow> u8 list res" where
  "checked_write bs i xs =
     (if i + length xs \<le> length bs then Inr (mem_write bs i xs) else Inl out_of_bounds)"

lemma length_mem_read: "i + n \<le> length bs \<Longrightarrow> length (mem_read bs i n) = n"
  by (simp add: mem_read_def)

lemma take_mem_read [simp]: "take m (mem_read bs i n) = mem_read bs i (min m n)"
  by (simp add: mem_read_def)

lemma length_mem_write [simp]:
  "i + length xs \<le> length bs \<Longrightarrow> length (mem_write bs i xs) = length bs"
  by (simp add: mem_write_def)

lemma nth_mem_write:
  assumes "i + length xs \<le> length bs" "k < length bs"
  shows "mem_write bs i xs ! k = (if i \<le> k \<and> k < i + length xs then xs ! (k - i) else bs ! k)"
  using assms by (auto simp: mem_write_def nth_append)

lemma mem_read_eq_iff:
  assumes "length as = length bs" "i + n \<le> length bs"
  shows "mem_read as i n = mem_read bs i n \<longleftrightarrow> (\<forall>k < n. as ! (i + k) = bs ! (i + k))"
  using assms by (auto simp: mem_read_def list_eq_iff_nth_eq)

lemma mem_read_write_same:
  "i + length xs \<le> length bs \<Longrightarrow> mem_read (mem_write bs i xs) i (length xs) = xs"
  by (simp add: mem_read_def mem_write_def)

lemma mem_write_step:
  assumes "i + Suc (length xs) \<le> length bs"
  shows "mem_write (mem_write bs i [x]) (Suc i) xs = mem_write bs i (x # xs)"
  using assms by (simp add: mem_write_def add.commute)

text \<open>A write leaves every disjoint range alone.\<close>

lemma mem_read_write_disjoint:
  assumes "i + length xs \<le> length bs" "j + n \<le> length bs"
    and "j + n \<le> i \<or> i + length xs \<le> j"
  shows "mem_read (mem_write bs i xs) j n = mem_read bs j n"
proof -
  have "mem_write bs i xs ! (j + k) = bs ! (j + k)" if "k < n" for k
    using assms that by (subst nth_mem_write) auto
  then show ?thesis
    using assms by (subst mem_read_eq_iff) auto
qed

text \<open>Writing a prefix of a slot keeps the rest of what was there.\<close>

lemma mem_read_write_prefix:
  assumes "i + n \<le> length bs" "length xs \<le> n"
  shows "mem_read (mem_write bs i xs) i n = xs @ drop (length xs) (mem_read bs i n)"
proof -
  have "n = length xs + (n - length xs)" using assms by simp
  then show ?thesis
    using assms by (simp add: mem_read_def mem_write_def drop_take add.commute)
qed

lemma mem_read_split:
  "mem_read bs i (m + n) = mem_read bs i m @ mem_read bs (i + m) n"
  by (simp add: mem_read_def take_add add.commute)

lemma mem_read_sub:
  "j + m \<le> n \<Longrightarrow> take m (drop j (mem_read bs i n)) = mem_read bs (i + j) m"
  by (simp add: mem_read_def drop_take min_def add.commute)


section \<open>Integers in memory\<close>

text \<open>
  The hosts the library supports (x86-64, AArch64) are little-endian: byte \<open>k\<close> of an
  integer of \<open>n\<close> bytes holds bits \<open>8 * k .. 8 * k + 7\<close>.
\<close>

primrec le_bytes :: "nat \<Rightarrow> nat \<Rightarrow> u8 list" where
  "le_bytes 0 x = []"
| "le_bytes (Suc n) x = word_of_nat x # le_bytes n (x div 256)"

primrec le_value :: "u8 list \<Rightarrow> nat" where
  "le_value [] = 0"
| "le_value (b # bs) = unat b + 256 * le_value bs"

lemma length_le_bytes [simp]: "length (le_bytes n x) = n"
  by (induction n arbitrary: x) simp_all

lemma le_value_bytes: "x < 256 ^ n \<Longrightarrow> le_value (le_bytes n x) = x"
proof (induction n arbitrary: x)
  case 0
  then show ?case by simp
next
  case (Suc n)
  have "x div 256 < 256 ^ n"
    using Suc.prems by (simp add: less_mult_imp_div_less mult.commute)
  then have "le_value (le_bytes n (x div 256)) = x div 256" by (rule Suc.IH)
  moreover have "unat (word_of_nat x :: u8) = x mod 256"
    by (simp add: unat_of_nat)
  ultimately show ?case by simp
qed

lemma le_value_u32 [simp]: "le_value (le_bytes 4 (unat (x :: u32))) = unat x"
  by (rule le_value_bytes) (use unsigned_less [of x] in simp)

lemma le_value_u64 [simp]: "le_value (le_bytes 8 (unat (x :: u64))) = unat x"
  by (rule le_value_bytes) (use unsigned_less [of x] in simp)


section \<open>Circular regions\<close>

text \<open>
  Positions are monotone byte offsets; the index of position \<open>p\<close> in a region of capacity
  \<open>cap\<close> is \<open>p mod cap\<close>. Two ranges that are apart as positions, within one lap of each
  other, and that do not cross the end of the region are apart as indices.
\<close>

lemma mod_forward:
  fixes p d cap :: nat
  assumes "0 < cap" "d < cap"
  shows "(p + d) mod cap = (if p mod cap + d < cap then p mod cap + d else p mod cap + d - cap)"
proof -
  have "(p + d) mod cap = (p mod cap + d) mod cap" by (simp add: mod_add_left_eq)
  also have "\<dots> = (if p mod cap + d < cap then p mod cap + d else p mod cap + d - cap)"
  proof (cases "p mod cap + d < cap")
    case False
    have "p mod cap < cap" using assms(1) by simp
    then have "p mod cap + d - cap < cap" using assms(2) by linarith
    with False show ?thesis by (simp add: le_mod_geq)
  qed simp
  finally show ?thesis .
qed

text \<open>Room below the 64-bit wrap, as a comparison of words.\<close>

lemma below_minus:
  fixes a b :: u64
  assumes "a < - b"
  shows "unat a + unat b < 2 ^ 64"
proof (cases "b = 0")
  case False
  have "unat (- b + b) = (unat (- b) + unat b) mod 2 ^ 64" by (simp only: unat_word_ariths) simp
  then have "2 ^ 64 dvd unat (- b) + unat b" by (simp add: mod_eq_0_iff_dvd)
  moreover have "0 < unat b" using False by (simp add: unat_gt_0)
  moreover have "unat (- b) + unat b < 2 * 2 ^ 64"
    using unat_u64_lt [of b] unat_u64_lt [of "- b"] by linarith
  ultimately have "unat (- b) + unat b = 2 ^ 64" by (auto elim!: dvdE)
  then show ?thesis using assms by (simp add: word_less_nat_alt)
qed (use assms in simp)

lemma above_minus:
  fixes a b :: u64
  assumes "unat a + unat b < 2 ^ 64" "b \<noteq> 0"
  shows "a < - b"
proof -
  have e: "- b = word_of_nat (2 ^ 64 - unat b)"
    using unat_u64_lt [of b] by (simp add: of_nat_diff)
  have "0 < unat b" using assms(2) by (simp add: unat_gt_0)
  then have "unat (- b) = 2 ^ 64 - unat b" by (simp only: e unat_of_nat) simp
  then show ?thesis using assms(1) by (simp add: word_less_nat_alt)
qed

lemma ring_disjoint:
  fixes p q m n cap :: nat
  assumes "0 < cap" "p + n \<le> q" "q + m \<le> p + cap" "0 < m"
  shows "p mod cap + n \<le> q mod cap \<or> q mod cap + m \<le> p mod cap"
proof -
  define d where "d = q - p"
  have q: "q = p + d" and d: "d < cap" "n \<le> d" "d + m \<le> cap"
    using assms by (auto simp: d_def)
  show ?thesis
    using mod_forward [of cap d p] assms(1) d unfolding q by (auto split: if_splits)
qed

text \<open>A slot whose size divides the capacity and whose position is a multiple of it is contiguous.\<close>

lemma slot_contiguous:
  fixes p n cap :: nat
  assumes "0 < cap" "n dvd cap" "n dvd p"
  shows "p mod cap + n \<le> cap"
proof -
  have "n dvd p mod cap" using assms by (simp add: dvd_mod)
  then obtain a where a: "p mod cap = n * a" by blast
  obtain c where c: "cap = n * c" using assms(2) by blast
  have "n * a < n * c" using a c assms(1) by (metis mod_less_divisor)
  then have "Suc a \<le> c" by simp
  then have "n * Suc a \<le> n * c" by (rule mult_le_mono2)
  then show ?thesis using a c by simp
qed

text \<open>The same for the distance to the end of the region.\<close>

lemma room_to_end_dvd:
  fixes p n cap :: nat
  assumes "0 < cap" "n dvd cap" "n dvd p"
  shows "n dvd cap - p mod cap"
  using assms by (simp add: dvd_mod dvd_diff_nat)

lemma mod_eq_within_lap:
  fixes r w cap :: nat
  assumes "0 < cap" "r \<le> w" "w \<le> r + cap"
  shows "w mod cap = r mod cap \<longleftrightarrow> w = r \<or> w = r + cap"
proof (cases "w = r + cap")
  case False
  define d where "d = w - r"
  have w: "w = r + d" and d: "d < cap"
    using assms False by (auto simp: d_def)
  have "r mod cap < cap" using assms(1) by simp
  then show ?thesis
    using mod_forward [OF assms(1) d, of r] d unfolding w by (auto split: if_splits)
qed simp

end
