(* ===== verification/Control_Block.thy ===== *)
theory Control_Block
  imports Ring_Prelude
begin

text \<open>
  The shared control block (\<open>include/spscring/control_block.hpp\<close>) with its initialisation and
  structural validation, the alignment helper \<open>align_up_u32\<close> and the varlen normalisation of
  legacy segments (\<open>internal/varlen_header.hpp\<close>), the fixed-ring pre-flight check
  (\<open>fixed_writer.hpp\<close>), and the mapped segment: the control block followed by the data bytes.
\<close>

unbundle bit_operations_syntax

section \<open>Data\<close>

datatype layout_type = layout_fixed | layout_varlen

definition layout_code :: "layout_type \<Rightarrow> u32" where
  "layout_code l = (case l of layout_fixed \<Rightarrow> 0 | layout_varlen \<Rightarrow> 1)"

record meta =
  write_pos :: u64
  read_pos :: u64
  read_wake_seq :: u32
  commit_pos :: u64
  commit_seq :: u32

record control_block =
  magic :: u32
  version_major :: u16
  version_minor :: u32
  header_size :: u32
  layout_type :: u32
  reserved0 :: u32
  rb_meta :: meta
  data_capacity :: u64
  data_alignment :: u32
  fixed_item_size :: u32
  reserved :: "u64 list"

definition expected_magic :: u32 where "expected_magic = 0x53505343"
definition lib_version_major :: u16 where "lib_version_major = 0"
definition lib_version_minor :: u32 where "lib_version_minor = 2"

text \<open>\<open>control_block header{}\<close>: every member from its default initialiser.\<close>

definition default_control_block :: control_block where
  "default_control_block =
     \<lparr>magic = 0, version_major = 0, version_minor = 0, header_size = 0, layout_type = 0,
      reserved0 = 0,
      rb_meta = \<lparr>write_pos = 0, read_pos = 0, read_wake_seq = 0, commit_pos = 0, commit_seq = 0\<rparr>,
      data_capacity = 0, data_alignment = 0, fixed_item_size = 0, reserved = replicate 6 0\<rparr>"

text \<open>\<open>sizeof(control_block)\<close>, pinned by \<open>static_assert\<close> to five 64-byte cache lines.\<close>

definition sizeof_control_block :: nat where "sizeof_control_block = 5 * 64"


section \<open>Initialisation and validation\<close>

definition is_valid_data_alignment :: "u32 \<Rightarrow> bool" where
  "is_valid_data_alignment alignment \<longleftrightarrow>
     alignment \<noteq> 0 \<and> (alignment AND (alignment - 1)) = 0 \<and> alignment \<le> 64"

definition init_control_block ::
  "control_block \<Rightarrow> u64 \<Rightarrow> layout_type \<Rightarrow> u32 \<Rightarrow> u32 \<Rightarrow> bool \<times> control_block" where
  "init_control_block header capacity layout alignment item_size =
     (if \<not> is_valid_data_alignment alignment then (False, header)
      else if capacity = 0 \<or> capacity mod u64_of_u32 alignment \<noteq> 0 then (False, header)
      else (True, header\<lparr>
        magic := expected_magic,
        version_major := lib_version_major,
        version_minor := lib_version_minor,
        header_size := word_of_nat sizeof_control_block,
        layout_type := layout_code layout,
        reserved0 := 0,
        rb_meta := (rb_meta header)\<lparr>write_pos := 0, commit_pos := 0, read_pos := 0,
          commit_seq := 0, read_wake_seq := 0\<rparr>,
        data_capacity := capacity,
        data_alignment := alignment,
        fixed_item_size := item_size,
        reserved := map (\<lambda>_. 0) (reserved header)\<rparr>))"

definition validate_control_block :: "control_block \<Rightarrow> bool" where
  "validate_control_block header \<longleftrightarrow>
     magic header = expected_magic \<and> version_major header = lib_version_major \<and>
     header_size header = word_of_nat sizeof_control_block \<and>
     (data_alignment header = 0 \<or> is_valid_data_alignment (data_alignment header)) \<and>
     data_capacity header \<noteq> 0"

definition validate_varlen_control_block :: "control_block \<Rightarrow> bool \<times> control_block" where
  "validate_varlen_control_block header =
     (let header = (if data_alignment header = 0 then header\<lparr>data_alignment := 8\<rparr> else header)
      in if \<not> validate_control_block header then (False, header)
         else (layout_type header = layout_code layout_varlen, header))"

definition is_valid_fixed_ring :: "control_block \<Rightarrow> bool" where
  "is_valid_fixed_ring header \<longleftrightarrow>
     validate_control_block header \<and> layout_type header = layout_code layout_fixed \<and>
     fixed_item_size header \<noteq> 0 \<and>
     data_capacity header mod u64_of_u32 (fixed_item_size header) = 0"

definition align_up_u32 :: "u32 \<Rightarrow> u32 \<Rightarrow> u32" where
  "align_up_u32 value alignment = (value + alignment - 1) AND NOT (alignment - 1)"


section \<open>The mapped segment\<close>

text \<open>
  One contiguous block: the control block at offset 0 and the bytes mapped behind it. Pointers
  into the block are byte offsets from its base. \<open>wakes\<close> records the wake system calls the
  operations issue (\<open>atomic_notify_all\<close>), newest last, by the notify word they name.
\<close>

datatype notify_addr = addr_commit_seq | addr_read_wake_seq

record segment =
  hdr :: control_block
  data_bytes :: "u8 list"
  wakes :: "notify_addr list"

text \<open>A zero-filled mapping with \<open>n\<close> bytes behind the control block.\<close>

definition fresh_segment :: "nat \<Rightarrow> segment" where
  "fresh_segment n = \<lparr>hdr = default_control_block, data_bytes = replicate n 0, wakes = []\<rparr>"

abbreviation wpos :: "segment \<Rightarrow> u64" where "wpos s \<equiv> write_pos (rb_meta (hdr s))"
abbreviation rpos :: "segment \<Rightarrow> u64" where "rpos s \<equiv> read_pos (rb_meta (hdr s))"
abbreviation cpos :: "segment \<Rightarrow> u64" where "cpos s \<equiv> commit_pos (rb_meta (hdr s))"
abbreviation cseq :: "segment \<Rightarrow> u32" where "cseq s \<equiv> commit_seq (rb_meta (hdr s))"
abbreviation rwseq :: "segment \<Rightarrow> u32" where "rwseq s \<equiv> read_wake_seq (rb_meta (hdr s))"
abbreviation capacity_of :: "segment \<Rightarrow> nat" where "capacity_of s \<equiv> unat (data_capacity (hdr s))"
abbreviation item_of :: "segment \<Rightarrow> nat" where "item_of s \<equiv> unat (fixed_item_size (hdr s))"
abbreviation align_of :: "segment \<Rightarrow> nat" where "align_of s \<equiv> unat (data_alignment (hdr s))"

definition update_meta :: "(meta \<Rightarrow> meta) \<Rightarrow> segment \<Rightarrow> segment" where
  "update_meta f s = s\<lparr>hdr := (hdr s)\<lparr>rb_meta := f (rb_meta (hdr s))\<rparr>\<rparr>"

lemma update_meta_simps [simp]:
  "rb_meta (hdr (update_meta f s)) = f (rb_meta (hdr s))"
  "data_capacity (hdr (update_meta f s)) = data_capacity (hdr s)"
  "data_alignment (hdr (update_meta f s)) = data_alignment (hdr s)"
  "fixed_item_size (hdr (update_meta f s)) = fixed_item_size (hdr s)"
  "layout_type (hdr (update_meta f s)) = layout_type (hdr s)"
  "header_size (hdr (update_meta f s)) = header_size (hdr s)"
  "data_bytes (update_meta f s) = data_bytes s"
  "wakes (update_meta f s) = wakes s"
  by (simp_all add: update_meta_def)

lemma validate_update_meta [simp]:
  "validate_control_block (hdr (update_meta f s)) = validate_control_block (hdr s)"
  "is_valid_fixed_ring (hdr (update_meta f s)) = is_valid_fixed_ring (hdr s)"
  by (simp_all add: validate_control_block_def is_valid_fixed_ring_def update_meta_def)

text \<open>
  Loads and stores through a pointer into the data bytes. An access below the end of the
  control block or past the mapped bytes is \<open>out_of_bounds\<close>.
\<close>

definition load_bytes :: "segment \<Rightarrow> nat \<Rightarrow> nat \<Rightarrow> u8 list res" where
  "load_bytes s p n =
     (if p < sizeof_control_block then Inl out_of_bounds
      else checked_read (data_bytes s) (p - sizeof_control_block) n)"

definition store_bytes :: "segment \<Rightarrow> nat \<Rightarrow> u8 list \<Rightarrow> segment res" where
  "store_bytes s p xs =
     (if p < sizeof_control_block then Inl out_of_bounds
      else res_bind (checked_write (data_bytes s) (p - sizeof_control_block) xs)
             (\<lambda>bs. Inr (s\<lparr>data_bytes := bs\<rparr>)))"

lemma load_bytes_data [simp]:
  "load_bytes s (sizeof_control_block + i) n = checked_read (data_bytes s) i n"
  by (simp add: load_bytes_def)

lemma store_bytes_data [simp]:
  "store_bytes s (sizeof_control_block + i) xs =
     (if i + length xs \<le> length (data_bytes s)
      then Inr (s\<lparr>data_bytes := mem_write (data_bytes s) i xs\<rparr>) else Inl out_of_bounds)"
  by (simp add: store_bytes_def checked_write_def)


section \<open>Alignments\<close>

lemma valid_alignment_cases:
  assumes "is_valid_data_alignment a"
  obtains k where "k \<le> 6" "a = 2 ^ k"
proof -
  have "unat a < 65"
    using assms by (simp add: is_valid_data_alignment_def word_le_nat_alt)
  then have "unat a \<in> set [0..<65]" by simp
  moreover have "a = word_of_nat (unat a)" by simp
  ultimately have "a \<in> set (map word_of_nat [0..<65])" by (metis image_eqI list.set_map)
  moreover have "\<forall>x \<in> set (map word_of_nat [0..<65]). is_valid_data_alignment x \<longrightarrow>
      x \<in> {1, 2, 4, 8, 16, 32, 64}"
    by (simp add: is_valid_data_alignment_def upt_rec)
  ultimately have "a \<in> {1, 2, 4, 8, 16, 32, 64}" using assms by blast
  then have "a \<in> {2 ^ 0, 2 ^ 1, 2 ^ 2, 2 ^ 3, 2 ^ 4, 2 ^ 5, 2 ^ 6}" by simp
  then show thesis
    using that [of 0] that [of 1] that [of 2] that [of 3] that [of 4] that [of 5] that [of 6]
    by auto
qed

lemma is_valid_data_alignment_iff:
  "is_valid_data_alignment a \<longleftrightarrow> (\<exists>k \<le> 6. a = 2 ^ k)"
proof
  assume "\<exists>k \<le> 6. a = 2 ^ k"
  then obtain k :: nat where "k \<le> 6" "a = 2 ^ k" by blast
  then have "k = 0 \<or> k = 1 \<or> k = 2 \<or> k = 3 \<or> k = 4 \<or> k = 5 \<or> k = 6" by linarith
  with \<open>a = 2 ^ k\<close> show "is_valid_data_alignment a"
    by (auto simp: is_valid_data_alignment_def)
qed (blast elim: valid_alignment_cases)

lemma clear_low_bits:
  fixes x :: "'a::len word"
  shows "unat (x AND NOT (mask k)) = unat x - unat x mod 2 ^ k"
proof -
  have "x AND NOT (mask k) = push_bit k (drop_bit k x)"
    by (rule bit_word_eqI) (auto simp: bit_simps)
  also have "\<dots> = x - take_bit k x"
    using bits_ident [of k x] by (simp add: algebra_simps)
  finally have eq: "x AND NOT (mask k) = x - take_bit k x" .
  have "unat (take_bit k x) = unat x mod 2 ^ k"
    unfolding unsigned_take_bit_eq by (simp add: take_bit_eq_mod)
  moreover have "unat x mod 2 ^ k \<le> unat x" by simp
  ultimately show ?thesis
    by (simp add: eq unat_sub word_le_nat_alt)
qed

text \<open>
  \<open>align_up_u32\<close> is the least multiple of the alignment at or above the value, as long as the
  sum does not pass 32 bits.
\<close>

lemma align_up_u32_unat:
  assumes "is_valid_data_alignment a" "unat v + unat a \<le> 2 ^ 32"
  shows "unat (align_up_u32 v a) = (unat v + unat a - 1) div unat a * unat a"
proof -
  obtain k where k: "k \<le> 6" "a = 2 ^ k"
    using valid_alignment_cases [OF assms(1)] by metis
  have ua: "unat a = 2 ^ k"
  proof -
    have "(2::nat) ^ k \<le> 2 ^ 6" using k(1) by (intro power_increasing) auto
    moreover have "a = word_of_nat (2 ^ k)" using k by simp
    ultimately show ?thesis by (simp only: unat_of_nat) simp
  qed
  have m: "a - 1 = mask k"
    using k by (simp add: mask_eq_exp_minus_1)
  have "unat (v + (a - 1)) = unat v + (unat a - 1)"
  proof -
    have "unat (a - 1) = unat a - 1"
      using ua by (simp add: unat_sub word_le_nat_alt)
    then show ?thesis
      using assms(2) ua by (simp add: unat_word_ariths)
  qed
  then have s: "unat (v + a - 1) = unat v + unat a - 1"
    using ua by (simp add: algebra_simps)
  show ?thesis
    unfolding align_up_u32_def m clear_low_bits s ua
    by (simp add: minus_mod_eq_div_mult)
qed

lemma align_up_least:
  fixes v a :: nat
  assumes "0 < a"
  defines "r \<equiv> (v + a - 1) div a * a"
  shows "v \<le> r" "r < v + a" "a dvd r"
proof -
  have "(v + a - 1) div a * a + (v + a - 1) mod a = v + a - 1" by simp
  moreover have "(v + a - 1) mod a < a" using assms(1) by simp
  ultimately show "v \<le> r" "r < v + a"
    using assms(1) unfolding r_def by linarith+
  show "a dvd r" by (simp add: r_def)
qed

lemma align_up_u32_bounds:
  assumes "is_valid_data_alignment a" "unat v + unat a \<le> 2 ^ 32"
  shows "unat v \<le> unat (align_up_u32 v a)" "unat (align_up_u32 v a) < unat v + unat a"
    and "unat a dvd unat (align_up_u32 v a)"
proof -
  have "a \<noteq> 0" using assms(1) by (simp add: is_valid_data_alignment_def)
  then have "0 < unat a" by (simp add: unat_gt_0)
  from align_up_least [OF this, of "unat v"]
  show "unat v \<le> unat (align_up_u32 v a)" "unat (align_up_u32 v a) < unat v + unat a"
    "unat a dvd unat (align_up_u32 v a)"
    by (simp_all add: align_up_u32_unat [OF assms])
qed



section \<open>Properties\<close>

text \<open>
  C28: \<open>init_control_block\<close> succeeds exactly for an alignment that is a power of two up to 64 and
  a positive capacity that is a multiple of it; the item size takes no part. It then leaves a block that
  \<open>validate_control_block\<close> accepts and that \<open>validate_varlen_control_block\<close> accepts exactly when the layout is
  the variable-length one (changing it in neither case), with all positions and notify words zero and the
  requested geometry; otherwise it returns false and touches nothing.
\<close>

theorem init_control_block_outcome:
  "if (\<exists>k \<le> 6. alignment = 2 ^ k) \<and> 0 < unat cap \<and> unat alignment dvd unat cap
   then \<exists>h. init_control_block header cap layout alignment item = (True, h) \<and>
     validate_control_block h \<and>
     validate_varlen_control_block h = (layout = layout_varlen, h) \<and>
     rb_meta h = \<lparr>write_pos = 0, read_pos = 0, read_wake_seq = 0, commit_pos = 0, commit_seq = 0\<rparr> \<and>
     data_capacity h = cap \<and> data_alignment h = alignment \<and> fixed_item_size h = item \<and>
     layout_type h = layout_code layout \<and> list_all (\<lambda>x. x = 0) (reserved h)
   else init_control_block header cap layout alignment item = (False, header)"
proof -
  have d: "cap mod u64_of_u32 alignment = 0 \<longleftrightarrow> unat alignment dvd unat cap"
    by (simp add: word_unat_eq_iff unat_mod dvd_eq_mod_eq_0)
  have z: "0 < unat cap \<longleftrightarrow> cap \<noteq> 0" by (simp add: unat_gt_0)
  have m: "m\<lparr>write_pos := 0, commit_pos := 0, read_pos := 0, commit_seq := 0, read_wake_seq := 0\<rparr> =
    \<lparr>write_pos = 0, read_pos = 0, read_wake_seq = 0, commit_pos = 0, commit_seq = 0\<rparr>" for m :: meta
    by (cases m) simp
  show ?thesis
  proof (cases "is_valid_data_alignment alignment \<and> cap \<noteq> 0 \<and> cap mod u64_of_u32 alignment = 0")
    case True
    then have "alignment \<noteq> 0" by (simp add: is_valid_data_alignment_def)
    then show ?thesis
      using True d z
      by (cases layout)
        (auto simp: init_control_block_def validate_control_block_def layout_code_def m
          validate_varlen_control_block_def is_valid_data_alignment_iff [symmetric] list_all_iff)
  next
    case False
    then show ?thesis
      using d z by (auto simp: init_control_block_def is_valid_data_alignment_iff [symmetric])
  qed
qed

text \<open>
  \<open>align_up_u32\<close> with a valid alignment returns the least multiple of the alignment that is
  not below the value, as long as that fits 32 bits.
\<close>

theorem align_up_u32_least:
  assumes "is_valid_data_alignment a" "unat v + unat a \<le> 2 ^ 32"
  shows "unat v \<le> unat (align_up_u32 v a) \<and> unat a dvd unat (align_up_u32 v a) \<and>
    (\<forall>m. unat v \<le> m \<and> unat a dvd m \<longrightarrow> unat (align_up_u32 v a) \<le> m)"
proof -
  note B = align_up_u32_bounds [OF assms]
  have "unat (align_up_u32 v a) \<le> m" if m: "unat v \<le> m" "unat a dvd m" for m
  proof (rule ccontr)
    assume "\<not> unat (align_up_u32 v a) \<le> m"
    then have "0 < unat (align_up_u32 v a) - m" "unat (align_up_u32 v a) - m < unat a"
      using B(2) m(1) by linarith+
    moreover have "unat a dvd unat (align_up_u32 v a) - m" using B(3) m(2) by (rule dvd_diff_nat)
    ultimately show False by (simp add: nat_dvd_not_less)
  qed
  with B show ?thesis by blast
qed

theorem align_up_u32_least_witness:
  "unat (align_up_u32 35 8) \<le> 40 \<and> 35 \<le> unat (align_up_u32 35 8)"
proof -
  have v: "is_valid_data_alignment 8" by (simp add: is_valid_data_alignment_def)
  have "unat (35 :: u32) \<le> 40 \<and> unat (8 :: u32) dvd 40" by simp
  then show ?thesis using align_up_u32_least [OF v, of 35] by simp
qed

end
