(* ===== verification/Notify_Word.thy ===== *)
theory Notify_Word
  imports Control_Block
begin

text \<open>
  The notify words (\<open>include/spscring/notify_word.hpp\<close>): a 32-bit word holds a waiter flag in
  bit 31 and a free-running wake sequence in bits 0 to 30. This theory has the word-level
  operations; the blocking protocol between a waiter and a bumper is in \<open>Notify_Protocol\<close>.
\<close>

definition notify_waiter_bit :: u32 where "notify_waiter_bit = 0x80000000"
definition notify_seq_mask :: u32 where "notify_seq_mask = 0x7FFFFFFF"

definition notify_seq_value :: "u32 \<Rightarrow> u32" where
  "notify_seq_value raw = raw AND notify_seq_mask"

text \<open>\<open>fetch_add(1)\<close>: whether the previous word had the waiter flag, and the new word.\<close>

definition bump_notify_word :: "u32 \<Rightarrow> bool \<times> u32" where
  "bump_notify_word word = ((word AND notify_waiter_bit) \<noteq> 0, word + 1)"

abbreviation has_waiter :: "u32 \<Rightarrow> bool" where
  "has_waiter w \<equiv> (w AND notify_waiter_bit) \<noteq> 0"

text \<open>Setting and clearing the flag (\<open>fetch_or\<close>, \<open>fetch_and\<close> of the waiter).\<close>

definition set_waiter :: "u32 \<Rightarrow> u32" where "set_waiter w = w OR notify_waiter_bit"
definition clear_waiter :: "u32 \<Rightarrow> u32" where "clear_waiter w = w AND NOT notify_waiter_bit"


section \<open>The two fields of a notify word\<close>

lemma bit_waiter_iff: "bit notify_waiter_bit n \<longleftrightarrow> n = 31"
proof -
  have e: "notify_waiter_bit = 2 ^ 31" by (simp add: notify_waiter_bit_def)
  show ?thesis unfolding e bit_exp_iff by auto
qed

lemma bit_seq_mask_iff: "bit notify_seq_mask n \<longleftrightarrow> n < 31"
proof -
  have e: "notify_seq_mask = mask 31" by (simp add: notify_seq_mask_def mask_eq_exp_minus_1)
  show ?thesis unfolding e bit_mask_iff by auto
qed

lemma has_waiter_bit: "has_waiter w \<longleftrightarrow> bit w 31"
proof -
  have "notify_waiter_bit = 2 ^ 31" by (simp add: notify_waiter_bit_def)
  then show ?thesis by (metis and_exp_eq_0_iff_not_bit)
qed

lemma has_waiter_unat: "has_waiter w \<longleftrightarrow> 2 ^ 31 \<le> unat w"
proof -
  have "bit w 31 \<longleftrightarrow> bit (unat w) 31" by (simp add: bit_unsigned_iff)
  also have "\<dots> \<longleftrightarrow> odd (unat w div 2 ^ 31)" by (simp add: bit_iff_odd)
  also have "\<dots> \<longleftrightarrow> 2 ^ 31 \<le> unat w"
  proof -
    have "unat w div 2 ^ 31 < 2" using unat_u32_lt [of w] by (simp add: div_less_iff_less_mult)
    then consider "unat w div 2 ^ 31 = 0" | "unat w div 2 ^ 31 = 1" by linarith
    then show ?thesis
    proof cases
      case 1
      then show ?thesis by (simp add: div_eq_0_iff)
    next
      case 2
      then have "2 ^ 31 \<le> unat w" by (metis div_less not_less zero_neq_one)
      with 2 show ?thesis by simp
    qed
  qed
  finally show ?thesis by (simp add: has_waiter_bit)
qed

lemma notify_seq_value_unat: "unat (notify_seq_value w) = unat w mod 2 ^ 31"
proof -
  have "notify_seq_mask = mask 31" by (simp add: notify_seq_mask_def mask_eq_exp_minus_1)
  then have "notify_seq_value w = take_bit 31 w"
    by (simp add: notify_seq_value_def take_bit_eq_mask)
  then show ?thesis
    by (simp only: unsigned_take_bit_eq) (simp add: take_bit_eq_mod)
qed

lemma has_waiter_set [simp]: "has_waiter (set_waiter w)"
  unfolding has_waiter_bit by (simp add: set_waiter_def bit_or_iff bit_waiter_iff)

lemma has_waiter_clear [simp]: "\<not> has_waiter (clear_waiter w)"
  unfolding has_waiter_bit by (simp add: clear_waiter_def bit_and_iff bit_not_iff bit_waiter_iff)

lemma set_waiter_id: "has_waiter w \<Longrightarrow> set_waiter w = w"
  unfolding has_waiter_bit set_waiter_def
  by (rule bit_word_eqI) (auto simp: bit_or_iff bit_waiter_iff)

lemma set_waiter_fresh_neq: "\<not> has_waiter w \<Longrightarrow> set_waiter w \<noteq> w"
  using has_waiter_set by metis

lemma word_fields: "unat w = (if has_waiter w then 2 ^ 31 else 0) + unat (notify_seq_value w)"
proof (cases "has_waiter w")
  case True
  then have "2 ^ 31 \<le> unat w" by (simp add: has_waiter_unat)
  then have "unat w mod 2 ^ 31 = unat w - 2 ^ 31"
    using unat_u32_lt [of w] by (simp add: le_mod_geq)
  with True \<open>2 ^ 31 \<le> unat w\<close> show ?thesis by (simp add: notify_seq_value_unat)
next
  case False
  then show ?thesis by (simp add: has_waiter_unat notify_seq_value_unat)
qed

lemma notify_seq_set_waiter [simp]: "notify_seq_value (set_waiter w) = notify_seq_value w"
  by (rule bit_word_eqI)
    (auto simp: notify_seq_value_def set_waiter_def bit_and_iff bit_or_iff
      bit_waiter_iff bit_seq_mask_iff)

lemma notify_seq_clear_waiter [simp]: "notify_seq_value (clear_waiter w) = notify_seq_value w"
  by (rule bit_word_eqI)
    (auto simp: notify_seq_value_def clear_waiter_def bit_and_iff bit_not_iff
      bit_waiter_iff bit_seq_mask_iff)


section \<open>Bumping\<close>

lemma bump_seq:
  "unat (notify_seq_value (snd (bump_notify_word w))) = (unat (notify_seq_value w) + 1) mod 2 ^ 31"
proof -
  have "unat (w + 1) mod 2 ^ 31 = (unat w + 1) mod 2 ^ 32 mod 2 ^ 31"
    by (simp add: unat_word_ariths)
  also have "\<dots> = (unat w + 1) mod 2 ^ 31"
    by (rule mod_mod_cancel) (simp add: le_imp_power_dvd)
  finally show ?thesis
    by (simp only: bump_notify_word_def snd_conv notify_seq_value_unat mod_add_left_eq)
qed

text \<open>The carry out of the sequence flips the waiter flag, and nothing else does.\<close>

lemma bump_waiter:
  "has_waiter (snd (bump_notify_word w)) \<longleftrightarrow>
     (has_waiter w \<noteq> (unat (notify_seq_value w) = 2 ^ 31 - 1))"
proof -
  let ?s = "unat (notify_seq_value w)"
  have s: "?s < 2 ^ 31" by (simp add: notify_seq_value_unat)
  have w: "unat w = (if has_waiter w then 2 ^ 31 else 0) + ?s" by (rule word_fields)
  have "unat (w + 1) = (if unat w = 2 ^ 32 - 1 then 0 else unat w + 1)"
    using unat_u32_lt [of w] by (simp add: unat_word_ariths)
  then show ?thesis
    using s w unfolding bump_notify_word_def snd_conv has_waiter_unat [of "w + 1"]
    by (cases "has_waiter w") (auto split: if_splits)
qed

lemma bump_changes [simp]: "snd (bump_notify_word w) \<noteq> w"
  by (simp add: bump_notify_word_def)


section \<open>Bump, then wake if a waiter was registered\<close>

text \<open>
  The three-line idiom that ends every commit and every advance of the consumer: bump the word,
  and issue \<open>atomic_notify_all\<close> on it when the bump saw the waiter flag.
\<close>

definition signal_commit :: "segment \<Rightarrow> segment" where
  "signal_commit s =
     (let (w, v) = bump_notify_word (cseq s);
          s = update_meta (\<lambda>m. m\<lparr>commit_seq := v\<rparr>) s
      in if w then s\<lparr>wakes := wakes s @ [addr_commit_seq]\<rparr> else s)"

definition signal_read :: "segment \<Rightarrow> segment" where
  "signal_read s =
     (let (w, v) = bump_notify_word (rwseq s);
          s = update_meta (\<lambda>m. m\<lparr>read_wake_seq := v\<rparr>) s
      in if w then s\<lparr>wakes := wakes s @ [addr_read_wake_seq]\<rparr> else s)"

lemma signal_commit_frame [simp]:
  "wpos (signal_commit s) = wpos s" "rpos (signal_commit s) = rpos s"
  "cpos (signal_commit s) = cpos s" "rwseq (signal_commit s) = rwseq s"
  "data_bytes (signal_commit s) = data_bytes s"
  "data_capacity (hdr (signal_commit s)) = data_capacity (hdr s)"
  "data_alignment (hdr (signal_commit s)) = data_alignment (hdr s)"
  "fixed_item_size (hdr (signal_commit s)) = fixed_item_size (hdr s)"
  "is_valid_fixed_ring (hdr (signal_commit s)) = is_valid_fixed_ring (hdr s)"
  "validate_control_block (hdr (signal_commit s)) = validate_control_block (hdr s)"
  "layout_type (hdr (signal_commit s)) = layout_type (hdr s)"
  by (simp_all add: signal_commit_def bump_notify_word_def Let_def)

lemma signal_read_frame [simp]:
  "wpos (signal_read s) = wpos s" "rpos (signal_read s) = rpos s"
  "cpos (signal_read s) = cpos s" "cseq (signal_read s) = cseq s"
  "data_bytes (signal_read s) = data_bytes s"
  "data_capacity (hdr (signal_read s)) = data_capacity (hdr s)"
  "data_alignment (hdr (signal_read s)) = data_alignment (hdr s)"
  "fixed_item_size (hdr (signal_read s)) = fixed_item_size (hdr s)"
  "is_valid_fixed_ring (hdr (signal_read s)) = is_valid_fixed_ring (hdr s)"
  "validate_control_block (hdr (signal_read s)) = validate_control_block (hdr s)"
  "layout_type (hdr (signal_read s)) = layout_type (hdr s)"
  by (simp_all add: signal_read_def bump_notify_word_def Let_def)

lemma signal_commit_effect:
  "cseq (signal_commit s) = cseq s + 1"
  "wakes (signal_commit s) = wakes s @ (if has_waiter (cseq s) then [addr_commit_seq] else [])"
  by (simp_all add: signal_commit_def bump_notify_word_def Let_def)

lemma signal_read_effect:
  "rwseq (signal_read s) = rwseq s + 1"
  "wakes (signal_read s) = wakes s @ (if has_waiter (rwseq s) then [addr_read_wake_seq] else [])"
  by (simp_all add: signal_read_def bump_notify_word_def Let_def)



section \<open>Properties\<close>

text \<open>
  One bump of a notify word advances the sequence by one modulo \<open>2 ^ 31\<close>, reports exactly
  whether the waiter flag was set, and leaves the flag alone except when the sequence wraps,
  where the carry inverts it (setting a clear flag, but also clearing a set one).
\<close>

theorem bump_notify_word_fields:
  "unat (notify_seq_value (snd (bump_notify_word w))) = (unat (notify_seq_value w) + 1) mod 2 ^ 31 \<and>
   fst (bump_notify_word w) = has_waiter w \<and>
   has_waiter (snd (bump_notify_word w)) =
     (if unat (notify_seq_value w) = 2 ^ 31 - 1 then \<not> has_waiter w else has_waiter w)"
  using bump_seq [of w] bump_waiter [of w] by (auto simp: bump_notify_word_def)

end
