(* ===== verification/Ring_View.thy ===== *)
theory Ring_View
  imports Notify_Word
begin

text \<open>
  The base class \<open>ring_view\<close> (\<open>include/spscring/ring_view.hpp\<close>): the data pointer fixed at
  construction, the occupancy queries and the position arithmetic, and \<open>memcpy\<close> between a
  caller's buffer and the segment. A writer or reader holds the segment by reference, so the
  operations take and return it.
\<close>

record ring_view =
  data_ptr :: nat     \<comment> \<open>\<open>data_\<close>, as an offset from the segment's base\<close>

definition new_ring_view :: "segment \<Rightarrow> ring_view" where
  "new_ring_view s = \<lparr>data_ptr = unat (header_size (hdr s))\<rparr>"

definition capacity :: "segment \<Rightarrow> u64" where
  "capacity s = data_capacity (hdr s)"

definition used_bytes :: "segment \<Rightarrow> u64" where
  "used_bytes s =
     (let write = wpos s;
          read = rpos s;
          used = (if write \<ge> read then write - read else 0);
          cap = data_capacity (hdr s)
      in if used > cap then cap else used)"

definition available_bytes :: "segment \<Rightarrow> u64" where
  "available_bytes s = capacity s - used_bytes s"

definition map_pos :: "segment \<Rightarrow> u64 \<Rightarrow> u64 res" where
  "map_pos s pos = mod_u64 pos (data_capacity (hdr s))"

definition get_ptr :: "'a ring_view_scheme \<Rightarrow> segment \<Rightarrow> u64 \<Rightarrow> nat res" where
  "get_ptr v s pos = res_bind (map_pos s pos) (\<lambda>i. Inr (data_ptr v + unat i))"

definition bytes_to_end :: "segment \<Rightarrow> u64 \<Rightarrow> u64 res" where
  "bytes_to_end s pos = res_bind (map_pos s pos) (\<lambda>i. Inr (data_capacity (hdr s) - i))"

definition align_size :: "segment \<Rightarrow> u32 \<Rightarrow> u32" where
  "align_size s sz =
     (let align = data_alignment (hdr s) in (sz + align - 1) AND NOT (align - 1))"

text \<open>\<open>std::memcpy\<close> into the segment, and out of it into a caller's buffer.\<close>

definition memcpy_in :: "segment \<Rightarrow> nat \<Rightarrow> u8 list \<Rightarrow> nat \<Rightarrow> segment res" where
  "memcpy_in s dst src n =
     res_bind (checked_read src 0 n) (\<lambda>xs. store_bytes s dst xs)"

definition memcpy_out :: "u8 list \<Rightarrow> segment \<Rightarrow> nat \<Rightarrow> nat \<Rightarrow> u8 list res" where
  "memcpy_out dst s src n =
     res_bind (load_bytes s src n) (\<lambda>xs. checked_write dst 0 xs)"

text \<open>The store of one byte through a pointer into the data region, and the offset of a position in it.\<close>

definition poke :: "segment \<Rightarrow> nat \<Rightarrow> u8 \<Rightarrow> segment" where
  "poke s i b = s\<lparr>data_bytes := mem_write (data_bytes s) i [b]\<rparr>"

definition slot_index :: "segment \<Rightarrow> u64 \<Rightarrow> nat" where
  "slot_index s pos = unat (pos mod data_capacity (hdr s))"

lemma slot_index_eq: "slot_index s p = unat p mod capacity_of s"
  by (simp add: slot_index_def unat_mod)


section \<open>Occupancy\<close>

text \<open>
  Whatever values the two fronts hold (a racing reader of the two atomics may see a \<open>read\<close>
  ahead of the \<open>write\<close> it loaded), the used and available byte counts are each within the
  capacity and add up to it.
\<close>

lemma used_bytes_le: "used_bytes s \<le> data_capacity (hdr s)"
  by (auto simp: used_bytes_def Let_def not_less)

lemma used_bytes_exact:
  assumes "unat (rpos s) \<le> unat (wpos s)" "unat (wpos s) \<le> unat (rpos s) + capacity_of s"
  shows "unat (used_bytes s) = unat (wpos s) - unat (rpos s)"
proof -
  have "rpos s \<le> wpos s" using assms(1) by (simp add: word_le_nat_alt)
  moreover have d: "unat (wpos s - rpos s) = unat (wpos s) - unat (rpos s)"
    using assms(1) by (simp add: unat_simps)
  moreover have "\<not> wpos s - rpos s > data_capacity (hdr s)"
    using assms(2) d by (simp add: word_less_nat_alt)
  ultimately show ?thesis by (simp add: used_bytes_def Let_def)
qed

lemma available_bytes_sum:
  "unat (used_bytes s) + unat (available_bytes s) = capacity_of s"
proof -
  have "unat (used_bytes s) \<le> capacity_of s"
    using used_bytes_le [of s] by (simp add: word_le_nat_alt)
  then show ?thesis
    by (simp add: available_bytes_def capacity_def unat_simps)
qed

lemma align_size_align_up: "align_size s sz = align_up_u32 sz (data_alignment (hdr s))"
  by (simp add: align_size_def align_up_u32_def Let_def)


section \<open>Copies within the data bytes\<close>

lemma memcpy_in_data:
  "n \<le> length src \<Longrightarrow> i + n \<le> length (data_bytes s) \<Longrightarrow>
   memcpy_in s (sizeof_control_block + i) src n =
     Inr (s\<lparr>data_bytes := mem_write (data_bytes s) i (take n src)\<rparr>)"
  by (simp add: memcpy_in_def checked_read_def mem_read_def)

lemma memcpy_in_short_source: "length src < n \<Longrightarrow> memcpy_in s p src n = Inl out_of_bounds"
  by (simp add: memcpy_in_def checked_read_def)

lemma memcpy_out_data:
  "n \<le> length dst \<Longrightarrow> i + n \<le> length (data_bytes s) \<Longrightarrow>
   memcpy_out dst s (sizeof_control_block + i) n =
     Inr (mem_read (data_bytes s) i n @ drop n dst)"
  by (simp add: memcpy_out_def checked_read_def checked_write_def mem_write_def length_mem_read)



section \<open>Properties\<close>

text \<open>
  Whatever values the two fronts hold, also those an unlucky pair of racing loads can
  produce, \<open>used_bytes\<close> and \<open>available_bytes\<close> are within the capacity and add up to it; and when
  the fronts are in order within one lap, \<open>used_bytes\<close> is exactly their distance.
\<close>

theorem ring_view_occupancy:
  "unat (used_bytes s) + unat (available_bytes s) = capacity_of s \<and>
   (unat (rpos s) \<le> unat (wpos s) \<and> unat (wpos s) \<le> unat (rpos s) + capacity_of s \<longrightarrow>
      unat (used_bytes s) = unat (wpos s) - unat (rpos s))"
  using available_bytes_sum used_bytes_exact by blast

definition occupied_segment :: segment where
  "occupied_segment =
     (fresh_segment 64)\<lparr>hdr := (default_control_block\<lparr>data_capacity := 64,
        rb_meta := (rb_meta default_control_block)\<lparr>write_pos := 72, read_pos := 32\<rparr>\<rparr>)\<rparr>"

theorem ring_view_occupancy_witness:
  "unat (used_bytes occupied_segment) = 40 \<and>
   unat (used_bytes occupied_segment) + unat (available_bytes occupied_segment) = 64"
  using ring_view_occupancy [of occupied_segment]
  by (simp add: occupied_segment_def fresh_segment_def default_control_block_def)

end
