(* ===== verification/Atomic_Backoff.thy ===== *)
theory Atomic_Backoff
  imports Ring_Prelude
begin

text \<open>
  Exponential backoff (\<open>include/spscring/atomic_backoff.hpp\<close>): what one \<open>pause()\<close> does to the
  counter and whether it spins or yields. A spin of \<open>n\<close> is \<open>n\<close> executions of the CPU pause
  hint.
\<close>

record atomic_backoff =
  pause_count :: u32
  max_pauses :: u32

datatype backoff_action = cpu_pauses nat | thread_yield

definition yield_threshold :: u32 where "yield_threshold = 16"

definition new_atomic_backoff :: "u32 \<Rightarrow> atomic_backoff" where
  "new_atomic_backoff m = \<lparr>pause_count = 0, max_pauses = m\<rparr>"

definition backoff_pause :: "atomic_backoff \<Rightarrow> backoff_action \<times> atomic_backoff" where
  "backoff_pause b =
     ((if pause_count b < yield_threshold
       then (let exp = (if pause_count b < 8 then pause_count b else 8) in cpu_pauses (2 ^ unat exp))
       else thread_yield),
      b\<lparr>pause_count := pause_count b + 1\<rparr>)"

definition backoff_reset :: "atomic_backoff \<Rightarrow> atomic_backoff" where
  "backoff_reset b = b\<lparr>pause_count := 0\<rparr>"

text \<open>The actions of \<open>n\<close> successive pauses.\<close>

primrec backoff_run :: "nat \<Rightarrow> atomic_backoff \<Rightarrow> backoff_action list" where
  "backoff_run 0 b = []"
| "backoff_run (Suc n) b = fst (backoff_pause b) # backoff_run n (snd (backoff_pause b))"

lemma backoff_run_nth:
  assumes "i < n" "unat (pause_count b) + n \<le> 2 ^ 32"
  shows "backoff_run n b ! i =
    (let c = unat (pause_count b) + i in if c < 16 then cpu_pauses (2 ^ min c 8) else thread_yield)"
  using assms
proof (induction n arbitrary: b i)
  case 0
  then show ?case by simp
next
  case (Suc n)
  show ?case
  proof (cases i)
    case 0
    then show ?thesis
      by (auto simp: backoff_pause_def yield_threshold_def word_less_nat_alt Let_def min_def)
  next
    case (Suc j)
    let ?b = "snd (backoff_pause b)"
    have c: "unat (pause_count ?b) = unat (pause_count b) + 1"
      using Suc.prems \<open>i = Suc j\<close> by (simp add: backoff_pause_def unat_word_ariths)
    have "backoff_run n ?b ! j =
      (let c = unat (pause_count ?b) + j in if c < 16 then cpu_pauses (2 ^ min c 8) else thread_yield)"
      using Suc.prems c \<open>i = Suc j\<close> by (intro Suc.IH) auto
    then show ?thesis by (simp add: c \<open>i = Suc j\<close>)
  qed
qed

text \<open>
  The escalation of a fresh backoff: the \<open>i\<close>-th pause spins 1, 2, 4, up to 256 times for the
  first 16 calls and yields the processor from then on; \<open>reset\<close> starts over.
\<close>

theorem backoff_schedule:
  assumes "i < n" "n \<le> 2 ^ 32"
  shows "backoff_run n (backoff_reset b) ! i = (if i < 16 then cpu_pauses (2 ^ min i 8) else thread_yield) \<and>
    backoff_run n (new_atomic_backoff m) = backoff_run n (backoff_reset (new_atomic_backoff m))"
  using backoff_run_nth [of i n "backoff_reset b"] assms
  by (simp add: backoff_reset_def new_atomic_backoff_def Let_def)

theorem backoff_schedule_witness:
  "backoff_run 20 (backoff_reset (new_atomic_backoff 256)) ! 17 = thread_yield"
  using backoff_schedule [of 17 20 "new_atomic_backoff 256"] by simp

end
