(* ===== verification/Channel.thy ===== *)
theory Channel
  imports Ring_Prelude "HOL-Library.Sublist"
begin

text \<open>
  What a ring promises its two users, as an interface: a message channel with a send that may be
  refused and a receive that may find nothing. Everything here is proved once from the laws; the
  fixed and the variable-length ring each interpret the interface with their own operations.
\<close>

datatype 'm chan_op = Send 'm | Recv

text \<open>
  Any interleaving of whole operations of the producer and the consumer: the messages accepted,
  the messages delivered, and the final state.
\<close>

fun chan_run ::
  "('m \<Rightarrow> 's \<Rightarrow> (bool \<times> 's) res) \<Rightarrow> ('s \<Rightarrow> ('m option \<times> 's) res) \<Rightarrow>
   'm chan_op list \<Rightarrow> 's \<Rightarrow> ('m list \<times> 'm list \<times> 's) res" where
  "chan_run send recv [] s = Inr ([], [], s)"
| "chan_run send recv (Send m # ops) s =
     res_bind (send m s) (\<lambda>(ok, s').
     res_bind (chan_run send recv ops s') (\<lambda>(snt, rcv, t).
       Inr (if ok then m # snt else snt, rcv, t)))"
| "chan_run send recv (Recv # ops) s =
     res_bind (recv s) (\<lambda>(msg, s').
     res_bind (chan_run send recv ops s') (\<lambda>(snt, rcv, t).
       Inr (snt, (case msg of None \<Rightarrow> rcv | Some m \<Rightarrow> m # rcv), t)))"

definition valid_ops :: "('m \<Rightarrow> bool) \<Rightarrow> 'm chan_op list \<Rightarrow> bool" where
  "valid_ops valid ops \<longleftrightarrow> list_all (\<lambda>x. case x of Send m \<Rightarrow> valid m | Recv \<Rightarrow> True) ops"

lemma valid_ops_simps [simp]:
  "valid_ops valid []"
  "valid_ops valid (Send m # ops) \<longleftrightarrow> valid m \<and> valid_ops valid ops"
  "valid_ops valid (Recv # ops) \<longleftrightarrow> valid_ops valid ops"
  by (simp_all add: valid_ops_def)

text \<open>
  \<open>inv k\<close> is the representation invariant of a channel that is good for \<open>k\<close> more sends before
  its 64-bit positions could wrap. A send either appends its message or changes nothing visible;
  a receive takes the oldest message, or finds none.
\<close>

locale spsc_channel =
  fixes inv :: "nat \<Rightarrow> 's \<Rightarrow> bool"
    and valid :: "'m \<Rightarrow> bool"
    and contents :: "'s \<Rightarrow> 'm list"
    and send :: "'m \<Rightarrow> 's \<Rightarrow> (bool \<times> 's) res"
    and recv :: "'s \<Rightarrow> ('m option \<times> 's) res"
  assumes inv_less: "inv (Suc k) s \<Longrightarrow> inv k s"
    and send_law: "inv (Suc k) s \<Longrightarrow> valid m \<Longrightarrow>
      \<exists>ok s'. send m s = Inr (ok, s') \<and> inv k s' \<and>
        contents s' = contents s @ (if ok then [m] else [])"
    and recv_law: "inv k s \<Longrightarrow>
      \<exists>s'. recv s = Inr (case contents s of [] \<Rightarrow> None | m # _ \<Rightarrow> Some m, s') \<and> inv k s' \<and>
        contents s' = tl (contents s)"
begin

text \<open>
  First in, first out, nothing lost and nothing invented: what was in the channel followed by
  what was accepted is what was delivered followed by what is still in it. The run never meets
  undefined behaviour.
\<close>

lemma run_fifo:
  assumes "inv (length ops) s" "valid_ops valid ops"
  shows "\<exists>snt rcv t. chan_run send recv ops s = Inr (snt, rcv, t) \<and> inv 0 t \<and>
    contents s @ snt = rcv @ contents t"
  using assms
proof (induction ops arbitrary: s)
  case Nil
  then show ?case by simp
next
  case (Cons x ops)
  show ?case
  proof (cases x)
    case (Send m)
    then obtain ok s' where s': "send m s = Inr (ok, s')" "inv (length ops) s'"
      "contents s' = contents s @ (if ok then [m] else [])"
      using send_law [of "length ops" s m] Cons.prems by auto
    from Cons.IH [OF s'(2)] Cons.prems Send
    obtain snt rcv t where t: "chan_run send recv ops s' = Inr (snt, rcv, t)" "inv 0 t"
      "contents s' @ snt = rcv @ contents t" by auto
    show ?thesis using Send s' t by auto
  next
    case Recv
    then obtain s' where s':
      "recv s = Inr (case contents s of [] \<Rightarrow> None | m # _ \<Rightarrow> Some m, s')"
      "inv (length ops) s'" "contents s' = tl (contents s)"
      using recv_law [of "length ops" s] inv_less [of "length ops" s] Cons.prems by auto
    from Cons.IH [OF s'(2)] Cons.prems Recv
    obtain snt rcv t where t: "chan_run send recv ops s' = Inr (snt, rcv, t)" "inv 0 t"
      "contents s' @ snt = rcv @ contents t" by auto
    show ?thesis using Recv s' t by (cases "contents s") auto
  qed
qed

text \<open>Starting empty, the messages delivered are the first of the messages accepted.\<close>

lemma run_prefix:
  assumes "inv (length ops) s" "valid_ops valid ops" "contents s = []"
    and "chan_run send recv ops s = Inr (snt, rcv, t)"
  shows "prefix rcv snt"
  using run_fifo [OF assms(1,2)] assms(3,4) by (auto simp: prefix_def)

text \<open>After the producer has stopped, receiving as often as there are messages drains the channel.\<close>

lemma run_drain:
  assumes "inv (length (contents s)) s"
  shows "\<exists>t. chan_run send recv (replicate (length (contents s)) Recv) s = Inr ([], contents s, t)
    \<and> inv 0 t \<and> contents t = []"
  using assms
proof (induction "length (contents s)" arbitrary: s)
  case 0
  then show ?case by simp
next
  case (Suc n)
  then obtain m ms where c: "contents s = m # ms" by (cases "contents s") auto
  with Suc.hyps(2) have n: "n = length ms" by simp
  have "inv n s" using Suc.prems Suc.hyps(2) inv_less by metis
  from recv_law [OF this] c
  obtain s' where s': "recv s = Inr (Some m, s')" "inv n s'" "contents s' = ms" by auto
  from Suc.hyps(1) [of s'] s' n
  obtain t where "chan_run send recv (replicate n Recv) s' = Inr ([], ms, t)"
    "inv 0 t" "contents t = []" by auto
  then show ?case using s' c n by simp
qed

end

text \<open>
  A channel with a fixed number of slots also promises when it accepts: exactly while a slot is
  free. It therefore never holds more than its slots.
\<close>

locale bounded_channel = spsc_channel +
  fixes slots :: nat
  assumes accepts: "inv (Suc k) s \<Longrightarrow> valid m \<Longrightarrow> send m s = Inr (ok, s') \<Longrightarrow>
      ok \<longleftrightarrow> length (contents s) < slots"
begin

lemma run_bounded:
  assumes "inv (length ops) s" "valid_ops valid ops" "length (contents s) \<le> slots"
    and "chan_run send recv ops s = Inr (snt, rcv, t)"
  shows "length (contents t) \<le> slots"
  using assms
proof (induction ops arbitrary: s snt rcv)
  case Nil
  then show ?case by simp
next
  case (Cons x ops)
  show ?case
  proof (cases x)
    case (Send m)
    with Cons.prems obtain ok s' where s': "send m s = Inr (ok, s')" "inv (length ops) s'"
      "contents s' = contents s @ (if ok then [m] else [])"
      using send_law [of "length ops" s m] by auto
    then have "length (contents s') \<le> slots"
      using accepts [of "length ops" s m ok s'] Cons.prems Send by auto
    with Cons.IH [OF s'(2)] Cons.prems Send s'(1) show ?thesis by auto
  next
    case Recv
    with Cons.prems obtain s' where s':
      "recv s = Inr (case contents s of [] \<Rightarrow> None | m # _ \<Rightarrow> Some m, s')"
      "inv (length ops) s'" "contents s' = tl (contents s)"
      using recv_law [of "length ops" s] inv_less [of "length ops" s] by auto
    then have "length (contents s') \<le> slots" using Cons.prems(3) by simp
    with Cons.IH [OF s'(2)] Cons.prems Recv s'(1) show ?thesis by auto
  qed
qed

text \<open>Into an empty channel, a burst of messages is accepted up to the number of slots.\<close>

lemma run_fill:
  assumes "inv (length ms + j) s" "list_all valid ms"
    and "length (contents s) + length ms \<le> slots"
  shows "\<exists>t. chan_run send recv (map Send ms) s = Inr (ms, [], t) \<and> inv j t \<and>
    contents t = contents s @ ms"
  using assms
proof (induction ms arbitrary: s)
  case Nil
  then show ?case by simp
next
  case (Cons m ms)
  then obtain ok s' where s': "send m s = Inr (ok, s')" "inv (length ms + j) s'"
    "contents s' = contents s @ (if ok then [m] else [])"
    using send_law [of "length ms + j" s m] by auto
  have ok: ok using accepts [of "length ms + j" s m ok s'] s'(1) Cons.prems by auto
  with Cons.IH [OF s'(2)] Cons.prems s' show ?case by auto
qed

end

end
