(* ===== verification/Fixed_Ring.thy ===== *)
theory Fixed_Ring
  imports Ring_View Atomic_Backoff Channel
begin

text \<open>
  The fixed-size ring: \<open>fixed_writer\<close> (\<open>include/spscring/fixed_writer.hpp\<close>) and
  \<open>fixed_reader\<close> (\<open>include/spscring/fixed_reader.hpp\<close>), operation by operation, with the
  invariant every operation keeps, the queue of frames the ring represents, and the
  functional behaviour of each operation on that queue.
\<close>

section \<open>The writer\<close>

record fixed_writer = ring_view +
  reserved_end :: u64
  pending :: bool

definition new_fixed_writer :: "segment \<Rightarrow> fixed_writer res" where
  "new_fixed_writer s =
     (if fixed_item_size (hdr s) \<noteq> 0 \<and>
         data_capacity (hdr s) mod u64_of_u32 (fixed_item_size (hdr s)) \<noteq> 0
      then Inl aborted
      else Inr \<lparr>data_ptr = data_ptr (new_ring_view s), reserved_end = 0, pending = False\<rparr>)"

definition fixed_try_reserve ::
  "fixed_writer \<Rightarrow> segment \<Rightarrow> (nat option \<times> fixed_writer \<times> segment) res" where
  "fixed_try_reserve w s =
     (if pending w then Inr (None, w, s)
      else
        let item_size = u64_of_u32 (fixed_item_size (hdr s));
            capacity = data_capacity (hdr s);
            write = wpos s;
            read = rpos s
        in res_bind (mod_u64 write capacity) (\<lambda>write_index.
           res_bind (mod_u64 read capacity) (\<lambda>read_index.
             if write_index = read_index \<and> write > read then Inr (None, w, s)
             else
               let end_pos = write + item_size
               in Inr (Some (data_ptr w + unat write_index),
                       w\<lparr>reserved_end := end_pos, pending := True\<rparr>,
                       update_meta (\<lambda>m. m\<lparr>write_pos := end_pos\<rparr>) s))))"

definition fixed_commit :: "fixed_writer \<Rightarrow> segment \<Rightarrow> fixed_writer \<times> segment" where
  "fixed_commit w s =
     (if \<not> pending w then (w, s)
      else (w\<lparr>pending := False\<rparr>,
            signal_commit (update_meta (\<lambda>m. m\<lparr>commit_pos := reserved_end w\<rparr>) s)))"

definition fixed_write ::
  "fixed_writer \<Rightarrow> segment \<Rightarrow> u8 list \<Rightarrow> u32 \<Rightarrow> (bool \<times> fixed_writer \<times> segment) res" where
  "fixed_write w s data sz =
     res_bind (fixed_try_reserve w s) (\<lambda>(slot, w, s).
       case slot of
         None \<Rightarrow> Inr (False, w, s)
       | Some p \<Rightarrow>
           res_bind (if sz > 0 then memcpy_in s p data (unat sz) else Inr s) (\<lambda>s.
             let (w, s) = fixed_commit w s in Inr (True, w, s)))"

definition item_count :: "segment \<Rightarrow> u64 res" where
  "item_count s =
     (if fixed_item_size (hdr s) = 0 then Inl div_by_zero
      else Inr (data_capacity (hdr s) div u64_of_u32 (fixed_item_size (hdr s))))"

text \<open>
  \<open>spin_until_reserve\<close>: what the rest of the system does to the segment while the \<open>i\<close>-th
  pause lasts is \<open>env i\<close>; fuel bounds the number of attempts and \<open>None\<close> is "still spinning".
\<close>

fun fixed_spin_until_reserve ::
  "nat \<Rightarrow> (nat \<Rightarrow> segment \<Rightarrow> segment) \<Rightarrow> nat \<Rightarrow> atomic_backoff \<Rightarrow> fixed_writer \<Rightarrow> segment \<Rightarrow>
   (nat \<times> atomic_backoff \<times> fixed_writer \<times> segment) res option" where
  "fixed_spin_until_reserve 0 env i b w s = None"
| "fixed_spin_until_reserve (Suc fuel) env i b w s =
     (case fixed_try_reserve w s of
        Inl e \<Rightarrow> Some (Inl e)
      | Inr (Some slot, w', s') \<Rightarrow> Some (Inr (slot, b, w', s'))
      | Inr (None, w', s') \<Rightarrow>
          fixed_spin_until_reserve fuel env (Suc i) (snd (backoff_pause b)) w' (env i s'))"


section \<open>The reader\<close>

type_synonym fixed_reader = ring_view

definition fixed_try_read :: "fixed_reader \<Rightarrow> segment \<Rightarrow> (nat \<times> u32) option res" where
  "fixed_try_read r s =
     (let item_size = u64_of_u32 (fixed_item_size (hdr s));
          capacity = data_capacity (hdr s);
          read = rpos s;
          committed = cpos s
      in if committed \<le> read then Inr None
         else res_bind (mod_u64 read capacity) (\<lambda>i.
                Inr (Some (data_ptr r + unat i, u32_of_u64 item_size))))"

definition fixed_read_advance :: "segment \<Rightarrow> u64 \<Rightarrow> segment" where
  "fixed_read_advance s n =
     signal_read (update_meta
       (\<lambda>m. m\<lparr>read_pos := read_pos m + n * u64_of_u32 (fixed_item_size (hdr s))\<rparr>) s)"

definition fixed_read ::
  "fixed_reader \<Rightarrow> segment \<Rightarrow> u8 list \<Rightarrow> u32 \<Rightarrow> (bool \<times> u8 list \<times> segment) res" where
  "fixed_read r s out sz =
     res_bind (fixed_try_read r s) (\<lambda>slot.
       case slot of
         None \<Rightarrow> Inr (False, out, s)
       | Some (p, _) \<Rightarrow>
           res_bind (memcpy_out out s p (unat sz)) (\<lambda>out.
             Inr (True, out, fixed_read_advance s 1)))"

fun fixed_spin_until_read ::
  "nat \<Rightarrow> (nat \<Rightarrow> segment \<Rightarrow> segment) \<Rightarrow> nat \<Rightarrow> atomic_backoff \<Rightarrow> fixed_reader \<Rightarrow> segment \<Rightarrow>
   (nat \<times> u32 \<times> atomic_backoff \<times> segment) res option" where
  "fixed_spin_until_read 0 env i b r s = None"
| "fixed_spin_until_read (Suc fuel) env i b r s =
     (case fixed_try_read r s of
        Inl e \<Rightarrow> Some (Inl e)
      | Inr (Some (slot, sz)) \<Rightarrow> Some (Inr (slot, sz, b, s))
      | Inr None \<Rightarrow> fixed_spin_until_read fuel env (Suc i) (snd (backoff_pause b)) r (env i s))"


text \<open>
  How a program sets a ring up (\<open>examples/basic_usage.cpp\<close>): initialise the control block in
  place, give up on invalid geometry, construct the writer and the reader on it.
\<close>

definition fixed_ring_open ::
  "segment \<Rightarrow> u64 \<Rightarrow> u32 \<Rightarrow> u32 \<Rightarrow> (fixed_writer \<times> fixed_reader \<times> segment) option res" where
  "fixed_ring_open seg cap alignment item =
     (let (ok, h) = init_control_block (hdr seg) cap layout_fixed alignment item;
          s = seg\<lparr>hdr := h\<rparr>
      in if \<not> ok then Inr None
         else res_bind (new_fixed_writer s) (\<lambda>w. Inr (Some (w, new_ring_view s, s))))"


section \<open>The queue a ring represents\<close>

text \<open>
  \<open>n\<close> frames of \<open>item\<close> bytes starting at position \<open>r\<close>. The contents of a ring are the frames
  from the consumer front to the published front: reserved frames are not in it.
\<close>

definition frames :: "u8 list \<Rightarrow> nat \<Rightarrow> nat \<Rightarrow> nat \<Rightarrow> nat \<Rightarrow> u8 list list" where
  "frames bs cap item r n = map (\<lambda>i. mem_read bs ((r + i * item) mod cap) item) [0..<n]"

definition fixed_contents :: "segment \<Rightarrow> u8 list list" where
  "fixed_contents s =
     frames (data_bytes s) (capacity_of s) (item_of s) (unat (rpos s))
       ((unat (cpos s) - unat (rpos s)) div item_of s)"

text \<open>
  The geometry a correctly attached ring has: a control block that passes
  \<open>is_valid_fixed_ring\<close> and a mapping that holds the whole data region.
\<close>

definition fixed_geometry :: "segment \<Rightarrow> bool" where
  "fixed_geometry s \<longleftrightarrow> is_valid_fixed_ring (hdr s) \<and> capacity_of s \<le> length (data_bytes s)"

text \<open>
  The invariant. The three fronts are multiples of the item size in the order
  \<open>read \<le> commit \<le> write \<le> read + capacity\<close>; the reservation front runs ahead of the
  published one by the one pending frame, if any. \<open>k\<close> is the number of further
  reservations for which the 64-bit positions cannot wrap.
\<close>

definition fixed_inv :: "nat \<Rightarrow> fixed_writer \<Rightarrow> segment \<Rightarrow> bool" where
  "fixed_inv k w s \<longleftrightarrow>
     fixed_geometry s \<and> data_ptr w = sizeof_control_block \<and>
     item_of s dvd unat (rpos s) \<and> item_of s dvd unat (cpos s) \<and>
     unat (rpos s) \<le> unat (cpos s) \<and>
     unat (wpos s) = unat (cpos s) + (if pending w then item_of s else 0) \<and>
     unat (wpos s) \<le> unat (rpos s) + capacity_of s \<and>
     (pending w \<longrightarrow> reserved_end w = wpos s) \<and>
     unat (wpos s) + k * item_of s < 2 ^ 64"

lemma fixed_geometryD:
  assumes "fixed_geometry s"
  shows "0 < item_of s" "0 < capacity_of s" "item_of s dvd capacity_of s"
    and "item_of s \<le> capacity_of s" "data_capacity (hdr s) \<noteq> 0"
    and "capacity_of s \<le> length (data_bytes s)"
proof -
  show "0 < item_of s"
    using assms by (simp add: fixed_geometry_def is_valid_fixed_ring_def unat_gt_0)
  show c0: "data_capacity (hdr s) \<noteq> 0"
    using assms by (simp add: fixed_geometry_def is_valid_fixed_ring_def validate_control_block_def)
  then show c: "0 < capacity_of s" by (simp add: unat_gt_0)
  have "unat (data_capacity (hdr s) mod u64_of_u32 (fixed_item_size (hdr s))) = 0"
    using assms by (simp add: fixed_geometry_def is_valid_fixed_ring_def)
  then show d: "item_of s dvd capacity_of s"
    by (simp add: unat_simps mod_eq_0_iff_dvd)
  show "item_of s \<le> capacity_of s" using c d by (simp add: dvd_imp_le)
  show "capacity_of s \<le> length (data_bytes s)" using assms by (simp add: fixed_geometry_def)
qed

lemma fixed_invD:
  assumes "fixed_inv k w s"
  shows "fixed_geometry s" "data_ptr w = sizeof_control_block"
    and "item_of s dvd unat (rpos s)" "item_of s dvd unat (cpos s)"
    and "item_of s dvd unat (wpos s)"
    and "unat (rpos s) \<le> unat (cpos s)"
    and "unat (wpos s) = unat (cpos s) + (if pending w then item_of s else 0)"
    and "unat (wpos s) \<le> unat (rpos s) + capacity_of s"
    and "pending w \<Longrightarrow> reserved_end w = wpos s"
    and "unat (wpos s) + k * item_of s < 2 ^ 64"
  using assms by (auto simp: fixed_inv_def)


section \<open>Frames\<close>

lemma length_frames [simp]: "length (frames bs cap item r n) = n"
  by (simp add: frames_def)

lemma frames_0 [simp]: "frames bs cap item r 0 = []"
  by (simp add: frames_def)

lemma frames_snoc:
  "frames bs cap item r (Suc n) =
     frames bs cap item r n @ [mem_read bs ((r + n * item) mod cap) item]"
  by (simp add: frames_def)

lemma frames_Cons:
  "frames bs cap item r (Suc n) =
     mem_read bs (r mod cap) item # frames bs cap item (r + item) n"
  unfolding frames_def by (subst map_upt_Suc) (simp add: algebra_simps)

lemma drop_frames: "drop m (frames bs cap item r n) = frames bs cap item (r + m * item) (n - m)"
  by (rule nth_equalityI) (auto simp: frames_def algebra_simps)

lemma frames_cong:
  assumes "\<And>i. i < n \<Longrightarrow> mem_read as ((r + i * item) mod cap) item =
      mem_read bs ((r + i * item) mod cap) item"
  shows "frames as cap item r n = frames bs cap item r n"
  using assms by (simp add: frames_def)

text \<open>Filling the frame after the last one leaves the frames before it alone.\<close>

lemma frames_write_next:
  assumes geo: "0 < item" "0 < cap" "item dvd cap" "cap \<le> length bs"
    and r: "item dvd r" and room: "Suc n * item \<le> cap" and xs: "length xs \<le> item"
  shows "frames (mem_write bs ((r + n * item) mod cap) xs) cap item r n = frames bs cap item r n"
proof (rule frames_cong)
  fix i assume i: "i < n"
  let ?p = "r + i * item" and ?q = "r + n * item"
  have in_p: "?p mod cap + item \<le> cap" and in_q: "?q mod cap + item \<le> cap"
    using geo r by (auto intro!: slot_contiguous)
  have "Suc i * item \<le> n * item" using i by (intro mult_le_mono1) simp
  then have "?p mod cap + item \<le> ?q mod cap \<or> ?q mod cap + item \<le> ?p mod cap"
    using geo room by (intro ring_disjoint) auto
  then show "mem_read (mem_write bs (?q mod cap) xs) (?p mod cap) item =
      mem_read bs (?p mod cap) item"
    using in_p in_q geo xs by (intro mem_read_write_disjoint) auto
qed


section \<open>Reserving\<close>

text \<open>With the invariant, the index comparison of \<open>try_reserve\<close> recognises exactly a full ring.\<close>

lemma full_test:
  assumes "fixed_inv k w s"
  shows "(wpos s mod data_capacity (hdr s) = rpos s mod data_capacity (hdr s) \<and> wpos s > rpos s)
     \<longleftrightarrow> unat (wpos s) = unat (rpos s) + capacity_of s"
proof -
  note D = fixed_invD [OF assms] fixed_geometryD [OF fixed_invD(1) [OF assms]]
  have "wpos s mod data_capacity (hdr s) = rpos s mod data_capacity (hdr s) \<longleftrightarrow>
      unat (wpos s) mod capacity_of s = unat (rpos s) mod capacity_of s"
    by (simp add: word_unat_eq_iff unat_mod)
  also have "\<dots> \<longleftrightarrow> unat (wpos s) = unat (rpos s) \<or> unat (wpos s) = unat (rpos s) + capacity_of s"
    using D by (intro mod_eq_within_lap) auto
  finally show ?thesis
    using D by (auto simp: word_less_nat_alt)
qed

lemma reserve_room:
  assumes "fixed_inv k w s" "unat (wpos s) \<noteq> unat (rpos s) + capacity_of s"
  shows "unat (wpos s) + item_of s \<le> unat (rpos s) + capacity_of s"
proof -
  note D = fixed_invD [OF assms(1)] fixed_geometryD [OF fixed_invD(1) [OF assms(1)]]
  have "item_of s dvd unat (rpos s) + capacity_of s - unat (wpos s)"
    using D by (intro dvd_diff_nat) auto
  moreover have "0 < unat (rpos s) + capacity_of s - unat (wpos s)"
    using D assms(2) by linarith
  ultimately have "item_of s \<le> unat (rpos s) + capacity_of s - unat (wpos s)"
    by (rule dvd_imp_le)
  then show ?thesis using D by linarith
qed

lemma fixed_try_reserve_pending: "pending w \<Longrightarrow> fixed_try_reserve w s = Inr (None, w, s)"
  by (simp add: fixed_try_reserve_def)

lemma fixed_try_reserve_full:
  assumes "fixed_inv k w s" "unat (wpos s) = unat (rpos s) + capacity_of s"
  shows "fixed_try_reserve w s = Inr (None, w, s)"
  using full_test [OF assms(1)] assms(2) fixed_geometryD(5) [OF fixed_invD(1) [OF assms(1)]]
  by (simp add: fixed_try_reserve_def Let_def)

text \<open>What a successful reservation leaves: the slot is the free frame after the last one.\<close>

definition reserved_writer :: "fixed_writer \<Rightarrow> segment \<Rightarrow> fixed_writer" where
  "reserved_writer w s =
     w\<lparr>reserved_end := wpos s + u64_of_u32 (fixed_item_size (hdr s)), pending := True\<rparr>"

definition reserved_segment :: "segment \<Rightarrow> segment" where
  "reserved_segment s =
     update_meta (\<lambda>m. m\<lparr>write_pos := wpos s + u64_of_u32 (fixed_item_size (hdr s))\<rparr>) s"

lemma fixed_try_reserve_free:
  assumes "fixed_inv k w s" "\<not> pending w" "unat (wpos s) \<noteq> unat (rpos s) + capacity_of s"
  shows "fixed_try_reserve w s =
    Inr (Some (sizeof_control_block + unat (wpos s) mod capacity_of s),
         reserved_writer w s, reserved_segment s)"
  using full_test [OF assms(1)] assms(2,3) fixed_invD(2) [OF assms(1)]
    fixed_geometryD(5) [OF fixed_invD(1) [OF assms(1)]]
  by (simp add: fixed_try_reserve_def Let_def reserved_writer_def reserved_segment_def unat_simps)

lemma reserved_wpos:
  assumes "fixed_inv (Suc k) w s"
  shows "unat (wpos (reserved_segment s)) = unat (wpos s) + item_of s"
proof -
  have "unat (wpos s) + item_of s \<le> unat (wpos s) + Suc k * item_of s" by simp
  with fixed_invD(10) [OF assms] have "unat (wpos s) + item_of s < 2 ^ 64" by linarith
  then show ?thesis by (simp add: reserved_segment_def unat_simps)
qed

lemma reserve_keeps_inv:
  assumes "fixed_inv (Suc k) w s" "\<not> pending w"
    and "unat (wpos s) \<noteq> unat (rpos s) + capacity_of s"
  shows "fixed_inv k (reserved_writer w s) (reserved_segment s)"
proof -
  note D = fixed_invD [OF assms(1)]
  show ?thesis
    using D assms(2) reserved_wpos [OF assms(1)] reserve_room [OF assms(1,3)]
    unfolding fixed_inv_def
    by (simp add: reserved_segment_def reserved_writer_def fixed_geometry_def)
qed

lemma reserve_keeps_contents [simp]: "fixed_contents (reserved_segment s) = fixed_contents s"
  by (simp add: fixed_contents_def reserved_segment_def)



section \<open>Filling and publishing\<close>

text \<open>
  Between a reservation and its commit the producer may store any prefix of the reserved
  frame, any number of times; the frames the consumer can see do not change.
\<close>

definition fill_slot :: "segment \<Rightarrow> u8 list \<Rightarrow> segment" where
  "fill_slot s xs =
     s\<lparr>data_bytes := mem_write (data_bytes s) (unat (cpos s) mod capacity_of s) xs\<rparr>"

lemma fill_slot_simps [simp]:
  "hdr (fill_slot s xs) = hdr s" "wakes (fill_slot s xs) = wakes s"
  by (simp_all add: fill_slot_def)

lemma slot_in_region:
  assumes "fixed_geometry s" "item_of s dvd p"
  shows "p mod capacity_of s + item_of s \<le> length (data_bytes s)"
  using slot_contiguous [of "capacity_of s" "item_of s" p] fixed_geometryD [OF assms(1)] assms(2)
  by simp

lemma pending_count:
  assumes "fixed_inv k w s" "pending w"
  shows "Suc ((unat (cpos s) - unat (rpos s)) div item_of s) * item_of s \<le> capacity_of s"
    and "unat (rpos s) + (unat (cpos s) - unat (rpos s)) div item_of s * item_of s = unat (cpos s)"
proof -
  note D = fixed_invD [OF assms(1)]
  have "item_of s dvd unat (cpos s) - unat (rpos s)" using D by (intro dvd_diff_nat) auto
  then have e: "(unat (cpos s) - unat (rpos s)) div item_of s * item_of s =
      unat (cpos s) - unat (rpos s)" by simp
  show "unat (rpos s) + (unat (cpos s) - unat (rpos s)) div item_of s * item_of s = unat (cpos s)"
    using D(6) e by linarith
  show "Suc ((unat (cpos s) - unat (rpos s)) div item_of s) * item_of s \<le> capacity_of s"
    using D(6,7,8) e assms(2) by simp
qed

lemma fill_slot_keeps:
  assumes "fixed_inv k w s" "pending w" "length xs \<le> item_of s"
  shows "fixed_inv k w (fill_slot s xs)" "fixed_contents (fill_slot s xs) = fixed_contents s"
proof -
  note D = fixed_invD [OF assms(1)] and G = fixed_geometryD [OF fixed_invD(1) [OF assms(1)]]
  have "unat (cpos s) mod capacity_of s + item_of s \<le> length (data_bytes s)"
    using D by (intro slot_in_region)
  then have len: "length (data_bytes (fill_slot s xs)) = length (data_bytes s)"
    using assms(3) by (simp add: fill_slot_def)
  then show "fixed_inv k w (fill_slot s xs)"
    using assms(1) by (simp add: fixed_inv_def fixed_geometry_def)
  show "fixed_contents (fill_slot s xs) = fixed_contents s"
    using frames_write_next [OF G(1,2,3,6) D(3) pending_count(1) [OF assms(1,2)] assms(3)]
    by (simp add: fixed_contents_def fill_slot_def pending_count(2) [OF assms(1,2)])
qed

lemma fixed_commit_idle: "\<not> pending w \<Longrightarrow> fixed_commit w s = (w, s)"
  by (simp add: fixed_commit_def)

text \<open>Publishing appends exactly the reserved frame, as it is at that moment.\<close>

definition published_segment :: "fixed_writer \<Rightarrow> segment \<Rightarrow> segment" where
  "published_segment w s =
     signal_commit (update_meta (\<lambda>m. m\<lparr>commit_pos := reserved_end w\<rparr>) s)"

lemma fixed_commit_eq:
  "pending w \<Longrightarrow> fixed_commit w s = (w\<lparr>pending := False\<rparr>, published_segment w s)"
  by (simp add: fixed_commit_def published_segment_def)

lemma published_segment_frame [simp]:
  "wpos (published_segment w s) = wpos s" "rpos (published_segment w s) = rpos s"
  "cpos (published_segment w s) = reserved_end w"
  "data_bytes (published_segment w s) = data_bytes s"
  "data_capacity (hdr (published_segment w s)) = data_capacity (hdr s)"
  "fixed_item_size (hdr (published_segment w s)) = fixed_item_size (hdr s)"
  "is_valid_fixed_ring (hdr (published_segment w s)) = is_valid_fixed_ring (hdr s)"
  by (simp_all add: published_segment_def)

lemma publish_keeps_inv:
  assumes "fixed_inv k w s" "pending w"
  shows "fixed_inv k (w\<lparr>pending := False\<rparr>) (published_segment w s)"
  using fixed_invD [OF assms(1)] assms(2) unfolding fixed_inv_def
  by (simp add: fixed_geometry_def)

lemma publish_contents:
  assumes "fixed_inv k w s" "pending w"
  shows "fixed_contents (published_segment w s) =
      fixed_contents s @ [mem_read (data_bytes s) (unat (cpos s) mod capacity_of s) (item_of s)]"
proof -
  note D = fixed_invD [OF assms(1)] and G = fixed_geometryD [OF fixed_invD(1) [OF assms(1)]]
  have "unat (wpos s) - unat (rpos s) = unat (cpos s) - unat (rpos s) + item_of s"
    using D(6,7) assms(2) by simp
  then have "(unat (wpos s) - unat (rpos s)) div item_of s =
      Suc ((unat (cpos s) - unat (rpos s)) div item_of s)"
    using G(1) div_add_self2 [of "item_of s" "unat (cpos s) - unat (rpos s)"] by simp
  then show ?thesis
    using D(9) assms(2) pending_count(2) [OF assms]
    by (simp add: fixed_contents_def frames_snoc)
qed

text \<open>
  The whole \<open>write\<close>: refused exactly when the ring is full, otherwise the frame appended is
  the caller's bytes followed by whatever the slot held before.
\<close>

lemma fixed_write_full:
  assumes "fixed_inv k w s" "unat (wpos s) = unat (rpos s) + capacity_of s"
  shows "fixed_write w s data sz = Inr (False, w, s)"
  using fixed_try_reserve_full [OF assms] by (simp add: fixed_write_def)

definition written_segment :: "fixed_writer \<Rightarrow> segment \<Rightarrow> u8 list \<Rightarrow> segment" where
  "written_segment w s xs =
     published_segment (reserved_writer w s) (fill_slot (reserved_segment s) xs)"

lemma written_segment_frame [simp]:
  "wpos (written_segment w s xs) = wpos (reserved_segment s)"
  "rpos (written_segment w s xs) = rpos s"
  "data_capacity (hdr (written_segment w s xs)) = data_capacity (hdr s)"
  "fixed_item_size (hdr (written_segment w s xs)) = fixed_item_size (hdr s)"
  by (simp_all add: written_segment_def reserved_segment_def)

lemma fixed_write_eq:
  assumes inv: "fixed_inv (Suc k) w s" and idle: "\<not> pending w"
    and free: "unat (wpos s) \<noteq> unat (rpos s) + capacity_of s"
    and sz: "unat sz \<le> item_of s" "unat sz \<le> length data"
  shows "fixed_write w s data sz =
    Inr (True, (reserved_writer w s)\<lparr>pending := False\<rparr>,
         written_segment w s (take (unat sz) data))"
proof -
  let ?w = "reserved_writer w s" and ?s = "reserved_segment s"
  let ?xs = "take (unat sz) data"
  note D = fixed_invD [OF inv]
  have cw: "unat (cpos s) = unat (wpos s)" using D(7) idle by simp
  have reg: "unat (wpos s) mod capacity_of s + item_of s \<le> length (data_bytes s)"
    using D by (intro slot_in_region)
  have "(if sz > 0 then memcpy_in ?s (sizeof_control_block + unat (wpos s) mod capacity_of s)
      data (unat sz) else Inr ?s) = Inr (fill_slot ?s ?xs)"
  proof (cases "sz = 0")
    case True
    then show ?thesis by (simp add: fill_slot_def mem_write_def)
  next
    case False
    then have "sz > 0" by (simp add: word_gt_0)
    then show ?thesis
      using reg sz by (simp add: memcpy_in_data fill_slot_def reserved_segment_def cw)
  qed
  moreover have "pending ?w" by (simp add: reserved_writer_def)
  ultimately show ?thesis
    by (simp only: fixed_write_def fixed_try_reserve_free [OF inv idle free] res_bind_simps
        prod.case option.case fixed_commit_eq Let_def written_segment_def)
qed

lemma written_keeps:
  assumes inv: "fixed_inv (Suc k) w s" and idle: "\<not> pending w"
    and free: "unat (wpos s) \<noteq> unat (rpos s) + capacity_of s"
    and xs: "length xs \<le> item_of s"
  shows "fixed_inv k ((reserved_writer w s)\<lparr>pending := False\<rparr>) (written_segment w s xs)"
    and "fixed_contents (written_segment w s xs) = fixed_contents s @
      [xs @ drop (length xs)
        (mem_read (data_bytes s) (unat (wpos s) mod capacity_of s) (item_of s))]"
proof -
  let ?w = "reserved_writer w s" and ?s = "reserved_segment s"
  note D = fixed_invD [OF inv]
  have cw: "unat (cpos s) = unat (wpos s)" using D(7) idle by simp
  have reg: "unat (wpos s) mod capacity_of s + item_of s \<le> length (data_bytes s)"
    using D by (intro slot_in_region)
  have pw: "pending ?w" by (simp add: reserved_writer_def)
  have "length xs \<le> item_of ?s" using xs by (simp add: reserved_segment_def)
  note F = fill_slot_keeps [OF reserve_keeps_inv [OF inv idle free] pw this]
  show "fixed_inv k (?w\<lparr>pending := False\<rparr>) (written_segment w s xs)"
    using publish_keeps_inv [OF F(1) pw] by (simp add: written_segment_def)
  show "fixed_contents (written_segment w s xs) = fixed_contents s @
      [xs @ drop (length xs)
        (mem_read (data_bytes s) (unat (wpos s) mod capacity_of s) (item_of s))]"
    using publish_contents [OF F(1) pw] F(2) mem_read_write_prefix [OF reg xs] cw
    by (simp add: written_segment_def fill_slot_def) (simp add: reserved_segment_def cw)
qed


section \<open>Reading\<close>

lemma fixed_contents_empty_iff:
  assumes "fixed_inv k w s"
  shows "fixed_contents s = [] \<longleftrightarrow> unat (cpos s) = unat (rpos s)"
proof -
  note D = fixed_invD [OF assms] and G = fixed_geometryD [OF fixed_invD(1) [OF assms]]
  have "item_of s dvd unat (cpos s) - unat (rpos s)" using D by (intro dvd_diff_nat) auto
  then have "(unat (cpos s) - unat (rpos s)) div item_of s = 0 \<longleftrightarrow> unat (cpos s) - unat (rpos s) = 0"
    using G(1) by (auto simp: dvd_div_eq_0_iff)
  moreover have "fixed_contents s = [] \<longleftrightarrow> (unat (cpos s) - unat (rpos s)) div item_of s = 0"
    by (metis fixed_contents_def length_0_conv length_frames)
  ultimately show ?thesis using D(6) by auto
qed

lemma fixed_contents_hd:
  assumes "fixed_inv k w s" "fixed_contents s \<noteq> []"
  shows "hd (fixed_contents s) = mem_read (data_bytes s) (unat (rpos s) mod capacity_of s) (item_of s)"
proof -
  obtain n where "(unat (cpos s) - unat (rpos s)) div item_of s = Suc n"
    using assms(2) by (cases "(unat (cpos s) - unat (rpos s)) div item_of s")
      (auto simp: fixed_contents_def)
  then show ?thesis by (simp add: fixed_contents_def frames_Cons)
qed

text \<open>\<open>read_advance(n)\<close> for at most as many frames as are published drops exactly those.\<close>

lemma fixed_read_advance_keeps:
  assumes inv: "fixed_inv k w s" and n: "unat n * item_of s \<le> unat (cpos s) - unat (rpos s)"
  shows "fixed_inv k w (fixed_read_advance s n)"
    and "fixed_contents (fixed_read_advance s n) = drop (unat n) (fixed_contents s)"
proof -
  note D = fixed_invD [OF inv] and G = fixed_geometryD [OF fixed_invD(1) [OF inv]]
  let ?s = "fixed_read_advance s n"
  have nc: "unat (rpos s) + unat n * item_of s \<le> unat (cpos s)" using n D(6) by linarith
  then have lt: "unat (rpos s) + unat n * item_of s < 2 ^ 64"
    using unat_u64_lt [of "cpos s"] by linarith
  then have "unat (n * u64_of_u32 (fixed_item_size (hdr s))) = unat n * item_of s"
    by (subst unat_mult_u64) simp_all
  then have rp: "unat (rpos ?s) = unat (rpos s) + unat n * item_of s"
    using lt by (simp add: fixed_read_advance_def unat_simps)
  have dv: "item_of s dvd unat (rpos s) + unat n * item_of s" using D(3) by simp
  show "fixed_inv k w ?s"
    unfolding fixed_inv_def rp
    using D dv nc by (auto simp: fixed_read_advance_def fixed_geometry_def)
  obtain b where b: "unat (cpos s) - unat (rpos s) = unat n * item_of s + b"
    using n le_Suc_ex by blast
  then have "unat (cpos s) - (unat (rpos s) + unat n * item_of s) = b" using nc by linarith
  then have "(unat (cpos s) - (unat (rpos s) + unat n * item_of s)) div item_of s =
      (unat (cpos s) - unat (rpos s)) div item_of s - unat n"
    using G(1) b by simp
  then show "fixed_contents ?s = drop (unat n) (fixed_contents s)"
    by (simp add: fixed_contents_def drop_frames rp) (simp add: fixed_read_advance_def)
qed


lemma fixed_try_read_empty:
  assumes "fixed_inv k w s" "fixed_contents s = []"
  shows "fixed_try_read r s = Inr None"
  using fixed_contents_empty_iff [OF assms(1)] assms(2)
  by (simp add: fixed_try_read_def word_le_nat_alt)

lemma u32_u64_u32 [simp]: "u32_of_u64 (u64_of_u32 x) = x"
  using unat_u32_lt [of x] by (simp add: word_unat_eq_iff unat_u32_of_u64)

lemma fixed_try_read_ready:
  assumes "fixed_inv k w s" "fixed_contents s \<noteq> []" "data_ptr r = sizeof_control_block"
  shows "fixed_try_read r s = Inr (Some
    (sizeof_control_block + unat (rpos s) mod capacity_of s, fixed_item_size (hdr s)))"
proof -
  have "\<not> cpos s \<le> rpos s"
    using fixed_contents_empty_iff [OF assms(1)] assms(2) fixed_invD(6) [OF assms(1)]
    by (auto simp: word_le_nat_alt)
  then show ?thesis
    using assms(3) fixed_geometryD(5) [OF fixed_invD(1) [OF assms(1)]]
    by (simp add: fixed_try_read_def unat_simps)
qed

text \<open>The view \<open>try_read\<close> returns is in bounds and shows the oldest frame.\<close>

lemma fixed_view_load:
  assumes "fixed_inv k w s" "fixed_contents s \<noteq> []"
  shows "load_bytes s (sizeof_control_block + unat (rpos s) mod capacity_of s) (item_of s) =
    Inr (hd (fixed_contents s))"
  using slot_in_region [OF fixed_invD(1,3) [OF assms(1)]] fixed_contents_hd [OF assms]
  by (simp add: checked_read_def)

lemma fixed_read_eq:
  assumes inv: "fixed_inv k w s" and ne: "fixed_contents s \<noteq> []"
    and r: "data_ptr r = sizeof_control_block"
    and sz: "unat sz \<le> item_of s" "unat sz \<le> length out"
  shows "fixed_read r s out sz =
    Inr (True, take (unat sz) (hd (fixed_contents s)) @ drop (unat sz) out, fixed_read_advance s 1)"
proof -
  have reg: "unat (rpos s) mod capacity_of s + item_of s \<le> length (data_bytes s)"
    using fixed_invD [OF inv] by (intro slot_in_region)
  have "mem_read (data_bytes s) (unat (rpos s) mod capacity_of s) (unat sz) =
      take (unat sz) (hd (fixed_contents s))"
    using sz by (simp add: fixed_contents_hd [OF inv ne] mem_read_def)
  then show ?thesis
    using reg sz by (simp add: fixed_read_def fixed_try_read_ready [OF inv ne r] memcpy_out_data)
qed

lemma fixed_read_empty:
  assumes "fixed_inv k w s" "fixed_contents s = []"
  shows "fixed_read r s out sz = Inr (False, out, s)"
  by (simp add: fixed_read_def fixed_try_read_empty [OF assms])

lemma advance_one_keeps:
  assumes "fixed_inv k w s" "fixed_contents s \<noteq> []"
  shows "fixed_inv k w (fixed_read_advance s 1)"
    and "fixed_contents (fixed_read_advance s 1) = tl (fixed_contents s)"
proof -
  note D = fixed_invD [OF assms(1)]
  have "item_of s dvd unat (cpos s) - unat (rpos s)" using D by (intro dvd_diff_nat) auto
  moreover have "0 < unat (cpos s) - unat (rpos s)"
    using fixed_contents_empty_iff [OF assms(1)] assms(2) D(6) by auto
  ultimately have "unat (1 :: u64) * item_of s \<le> unat (cpos s) - unat (rpos s)"
    by (simp add: dvd_imp_le)
  from fixed_read_advance_keeps [OF assms(1) this]
  show "fixed_inv k w (fixed_read_advance s 1)"
    "fixed_contents (fixed_read_advance s 1) = tl (fixed_contents s)"
    by (simp_all add: drop_Suc)
qed


section \<open>The ring as a channel\<close>

text \<open>
  The producer calls \<open>write(msg, item_size)\<close> and the consumer \<open>read(out, item_size)\<close>, the way
  the examples, the benchmarks and the stress tests use the ring.
\<close>

type_synonym fixed_channel = "fixed_writer \<times> fixed_reader \<times> segment"

definition fixed_chan_send :: "u8 list \<Rightarrow> fixed_channel \<Rightarrow> (bool \<times> fixed_channel) res" where
  "fixed_chan_send m c =
     (case c of (w, r, s) \<Rightarrow>
        res_bind (fixed_write w s m (fixed_item_size (hdr s))) (\<lambda>(ok, w, s). Inr (ok, w, r, s)))"

definition fixed_chan_recv :: "fixed_channel \<Rightarrow> (u8 list option \<times> fixed_channel) res" where
  "fixed_chan_recv c =
     (case c of (w, r, s) \<Rightarrow>
        res_bind (fixed_read r s (replicate (item_of s) 0) (fixed_item_size (hdr s)))
          (\<lambda>(ok, out, s). Inr (if ok then Some out else None, w, r, s)))"

definition fixed_chan_inv :: "nat \<Rightarrow> nat \<Rightarrow> nat \<Rightarrow> fixed_channel \<Rightarrow> bool" where
  "fixed_chan_inv item n k c =
     (case c of (w, r, s) \<Rightarrow> fixed_inv k w s \<and> \<not> pending w \<and>
        data_ptr r = sizeof_control_block \<and> item_of s = item \<and> capacity_of s = n * item)"

definition fixed_chan_contents :: "fixed_channel \<Rightarrow> u8 list list" where
  "fixed_chan_contents c = (case c of (w, r, s) \<Rightarrow> fixed_contents s)"

lemma fixed_inv_less: "fixed_inv (Suc k) w s \<Longrightarrow> fixed_inv k w s"
  by (auto simp: fixed_inv_def)

text \<open>A full ring is one that holds as many frames as it has slots.\<close>

lemma fixed_full_iff:
  assumes "fixed_inv k w s" "\<not> pending w" "capacity_of s = n * item_of s"
  shows "unat (wpos s) = unat (rpos s) + capacity_of s \<longleftrightarrow> length (fixed_contents s) = n"
    and "length (fixed_contents s) \<le> n"
proof -
  note D = fixed_invD [OF assms(1)] and G = fixed_geometryD [OF fixed_invD(1) [OF assms(1)]]
  have "item_of s dvd unat (cpos s) - unat (rpos s)" using D by (intro dvd_diff_nat) auto
  then obtain q where q: "unat (cpos s) - unat (rpos s) = item_of s * q" by blast
  have l: "length (fixed_contents s) = q" using q G(1) by (simp add: fixed_contents_def)
  have w: "unat (wpos s) = unat (rpos s) + item_of s * q" using D(6,7) assms(2) q by simp
  show "unat (wpos s) = unat (rpos s) + capacity_of s \<longleftrightarrow> length (fixed_contents s) = n"
    using w l assms(3) G(1) by auto
  show "length (fixed_contents s) \<le> n"
    using w l assms(3) G(1) D(8) by (simp add: mult.commute)
qed

lemma fixed_chan_send_full:
  assumes "fixed_chan_inv item n (Suc k) (w, r, s)" "length (fixed_contents s) = n"
  shows "fixed_chan_send m (w, r, s) = Inr (False, w, r, s)"
  using assms fixed_full_iff [of "Suc k" w s n] fixed_write_full [of "Suc k" w s]
  by (simp add: fixed_chan_inv_def fixed_chan_send_def)

lemma fixed_chan_send_free:
  assumes inv: "fixed_chan_inv item n (Suc k) (w, r, s)" and free: "length (fixed_contents s) \<noteq> n"
    and m: "length m = item"
  shows "\<exists>w' s'. fixed_chan_send m (w, r, s) = Inr (True, w', r, s') \<and>
    fixed_chan_inv item n k (w', r, s') \<and> fixed_contents s' = fixed_contents s @ [m]"
proof -
  have I: "fixed_inv (Suc k) w s" "\<not> pending w" "capacity_of s = n * item_of s" "item_of s = item"
    "data_ptr r = sizeof_control_block"
    using inv by (auto simp: fixed_chan_inv_def)
  have f: "unat (wpos s) \<noteq> unat (rpos s) + capacity_of s"
    using fixed_full_iff(1) [OF I(1-3)] free by simp
  note E = fixed_write_eq [OF I(1,2) f, of "fixed_item_size (hdr s)" m]
  note K = written_keeps [OF I(1,2) f, of m]
  have "length (mem_read (data_bytes s) (unat (wpos s) mod capacity_of s) item) \<le> length m"
    using m by (simp add: mem_read_def)
  then show ?thesis
    using E K I m by (simp add: fixed_chan_send_def fixed_chan_inv_def)
qed

lemma fixed_chan_recv_law:
  assumes "fixed_chan_inv item n k c"
  shows "\<exists>c'. fixed_chan_recv c =
      Inr (case fixed_chan_contents c of [] \<Rightarrow> None | m # _ \<Rightarrow> Some m, c') \<and>
    fixed_chan_inv item n k c' \<and> fixed_chan_contents c' = tl (fixed_chan_contents c)"
proof -
  obtain w r s where c: "c = (w, r, s)" by (cases c)
  have I: "fixed_inv k w s" "\<not> pending w" "capacity_of s = n * item" "item_of s = item"
    "data_ptr r = sizeof_control_block"
    using assms c by (auto simp: fixed_chan_inv_def)
  show ?thesis
  proof (cases "fixed_contents s")
    case Nil
    then show ?thesis
      using assms c fixed_read_empty [OF I(1) Nil]
      by (simp add: fixed_chan_recv_def fixed_chan_contents_def)
  next
    case (Cons m ms)
    then have ne: "fixed_contents s \<noteq> []" by simp
    have "length m = item"
      using fixed_contents_hd [OF I(1) ne] Cons slot_in_region [OF fixed_invD(1,3) [OF I(1)]] I(4)
      by (simp add: length_mem_read)
    then have "fixed_chan_recv c = Inr (Some m, w, r, fixed_read_advance s 1)"
      using fixed_read_eq [OF I(1) ne I(5)] I(4) c Cons by (simp add: fixed_chan_recv_def)
    moreover have "item_of (fixed_read_advance s 1) = item"
      "capacity_of (fixed_read_advance s 1) = n * item"
      using I by (simp_all add: fixed_read_advance_def)
    ultimately show ?thesis
      using advance_one_keeps [OF I(1) ne] I c Cons
      by (simp add: fixed_chan_contents_def fixed_chan_inv_def)
  qed
qed

interpretation fixed_chan: bounded_channel
  "fixed_chan_inv item n" "\<lambda>m. length m = item" fixed_chan_contents fixed_chan_send
  fixed_chan_recv n for item n :: nat
proof unfold_locales
  fix k c
  assume "fixed_chan_inv item n (Suc k) c"
  then show "fixed_chan_inv item n k c"
    by (auto simp: fixed_chan_inv_def fixed_inv_less split: prod.splits)
next
  fix k c and m :: "u8 list"
  assume a: "fixed_chan_inv item n (Suc k) c" "length m = item"
  obtain w r s where c: "c = (w, r, s)" by (cases c)
  show "\<exists>ok c'. fixed_chan_send m c = Inr (ok, c') \<and> fixed_chan_inv item n k c' \<and>
      fixed_chan_contents c' = fixed_chan_contents c @ (if ok then [m] else [])"
  proof (cases "length (fixed_contents s) = n")
    case True
    with fixed_chan_send_full [of item n k w r s m] a c show ?thesis
      by (auto simp: fixed_chan_contents_def fixed_chan_inv_def fixed_inv_less)
  next
    case False
    with fixed_chan_send_free [of item n k w r s m] a c show ?thesis
      by (auto simp: fixed_chan_contents_def)
  qed
next
  fix k c
  assume "fixed_chan_inv item n k c"
  then show "\<exists>c'. fixed_chan_recv c =
      Inr (case fixed_chan_contents c of [] \<Rightarrow> None | m # _ \<Rightarrow> Some m, c') \<and>
    fixed_chan_inv item n k c' \<and> fixed_chan_contents c' = tl (fixed_chan_contents c)"
    by (rule fixed_chan_recv_law)
next
  fix k c ok c' and m :: "u8 list"
  assume a: "fixed_chan_inv item n (Suc k) c" "length m = item" "fixed_chan_send m c = Inr (ok, c')"
  obtain w r s where c: "c = (w, r, s)" by (cases c)
  have "length (fixed_contents s) \<le> n"
    using a(1) c fixed_full_iff(2) [of "Suc k" w s n] by (auto simp: fixed_chan_inv_def)
  then show "ok = (length (fixed_chan_contents c) < n)"
    using a c fixed_chan_send_full [of item n k w r s m] fixed_chan_send_free [of item n k w r s m]
    by (cases "length (fixed_contents s) = n") (auto simp: fixed_chan_contents_def)
qed


section \<open>From an initialised control block\<close>

lemma fixed_ring_openD:
  assumes "fixed_ring_open seg cap alignment item = Inr (Some c)" "item \<noteq> 0"
  obtains w r s where "c = (w, r, s)" "is_valid_fixed_ring (hdr s)" "\<not> pending w"
    and "data_ptr w = sizeof_control_block" "data_ptr r = sizeof_control_block"
    and "rpos s = 0" "cpos s = 0" "wpos s = 0" "data_bytes s = data_bytes seg"
    and "capacity_of s = unat cap" "item_of s = unat item"
    and "unat item dvd unat cap"
proof -
  define h where "h = snd (init_control_block (hdr seg) cap layout_fixed alignment item)"
  let ?s = "seg\<lparr>hdr := h\<rparr>"
  from assms(1) have ok: "fst (init_control_block (hdr seg) cap layout_fixed alignment item)"
    by (auto simp: fixed_ring_open_def Let_def split: prod.splits if_splits)
  then have g: "is_valid_data_alignment alignment" "cap \<noteq> 0"
    by (auto simp: init_control_block_def split: if_splits)
  have h: "h = (hdr seg)\<lparr>
        magic := expected_magic, version_major := lib_version_major,
        version_minor := lib_version_minor, header_size := word_of_nat sizeof_control_block,
        layout_type := layout_code layout_fixed, reserved0 := 0,
        rb_meta := (rb_meta (hdr seg))\<lparr>write_pos := 0, commit_pos := 0, read_pos := 0,
          commit_seq := 0, read_wake_seq := 0\<rparr>,
        data_capacity := cap, data_alignment := alignment, fixed_item_size := item,
        reserved := map (\<lambda>_. 0) (reserved (hdr seg))\<rparr>"
    using ok by (auto simp: h_def init_control_block_def split: if_splits)
  obtain w where w: "new_fixed_writer ?s = Inr w" and c: "c = (w, new_ring_view ?s, ?s)"
    using assms(1) ok by (auto simp: fixed_ring_open_def Let_def h_def split: prod.splits if_splits)
  have sz: "unat (word_of_nat sizeof_control_block :: u32) = sizeof_control_block"
    by (simp add: sizeof_control_block_def)
  have wd: "w = \<lparr>data_ptr = sizeof_control_block, reserved_end = 0, pending = False\<rparr>"
    and m: "cap mod u64_of_u32 item = 0"
    using w assms(2) sz by (auto simp: new_fixed_writer_def new_ring_view_def h split: if_splits)
  from m have "unat cap mod unat item = 0" by (metis unat_0 unat_mod unat_u64_of_u32)
  then have d: "unat item dvd unat cap" by (simp add: mod_eq_0_iff_dvd)
  show thesis
    by (rule that [OF c])
      (use g m d assms(2) sz in
        \<open>simp_all add: wd h new_ring_view_def is_valid_fixed_ring_def validate_control_block_def\<close>)
qed

lemma fixed_ring_open_inv:
  assumes "fixed_ring_open seg cap alignment item = Inr (Some c)" "item \<noteq> 0"
    and "unat cap \<le> length (data_bytes seg)" "k * unat item < 2 ^ 64"
  shows "fixed_chan_inv (unat item) (unat cap div unat item) k c" "fixed_chan_contents c = []"
proof -
  obtain w r s where c: "c = (w, r, s)" "is_valid_fixed_ring (hdr s)" "\<not> pending w"
    "data_ptr w = sizeof_control_block" "data_ptr r = sizeof_control_block"
    "rpos s = 0" "cpos s = 0" "wpos s = 0" "data_bytes s = data_bytes seg"
    "capacity_of s = unat cap" "item_of s = unat item" "unat item dvd unat cap"
    using fixed_ring_openD [OF assms(1,2)] by metis
  show "fixed_chan_inv (unat item) (unat cap div unat item) k c"
    using c assms(3,4) by (simp add: fixed_chan_inv_def fixed_inv_def fixed_geometry_def)
  show "fixed_chan_contents c = []"
    using c by (simp add: fixed_chan_contents_def fixed_contents_def)
qed


section \<open>Properties of the fixed ring\<close>

lemma fixed_ring_open_cases:
  "fixed_ring_open seg cap alignment item =
     (if \<not> is_valid_data_alignment alignment \<or> cap = 0 \<or> cap mod u64_of_u32 alignment \<noteq> 0
      then Inr None
      else if item \<noteq> 0 \<and> cap mod u64_of_u32 item \<noteq> 0 then Inl aborted
      else Inr (Some
        (let h = snd (init_control_block (hdr seg) cap layout_fixed alignment item);
             s = seg\<lparr>hdr := h\<rparr>
         in (\<lparr>data_ptr = sizeof_control_block, reserved_end = 0, pending = False\<rparr>,
             \<lparr>data_ptr = sizeof_control_block\<rparr>, s))))"
  by (simp add: fixed_ring_open_def init_control_block_def new_fixed_writer_def new_ring_view_def
      Let_def sizeof_control_block_def)

lemma fixed_example_opens:
  obtains c where "fixed_ring_open (fresh_segment 16) 16 8 8 = Inr (Some c)"
proof -
  have "is_valid_data_alignment 8" by (simp add: is_valid_data_alignment_def)
  moreover have "(16 :: u64) mod u64_of_u32 8 = 0" by (simp add: u64_of_u32_def)
  ultimately show thesis using that by (simp add: fixed_ring_open_cases)
qed

text \<open>
  C10: The fixed ring is a first-in-first-out channel. From a freshly initialised ring, any
  interleaving of producer writes and consumer reads runs without undefined behaviour; the
  frames accepted are exactly the frames delivered, in order, followed by the frames still in
  the ring, and the ring never holds more than \<open>capacity / item_size\<close> frames.
\<close>

theorem fixed_ring_fifo:
  assumes "fixed_ring_open seg cap alignment item = Inr (Some c)" "item \<noteq> 0"
    and "unat cap \<le> length (data_bytes seg)"
    and "length ops * unat item < 2 ^ 64"
    and "valid_ops (\<lambda>m. length m = unat item) ops"
  shows "\<exists>snt rcv t. chan_run fixed_chan_send fixed_chan_recv ops c = Inr (snt, rcv, t) \<and>
    snt = rcv @ fixed_chan_contents t \<and>
    length (fixed_chan_contents t) \<le> unat cap div unat item"
proof -
  note I = fixed_ring_open_inv [OF assms(1-4)]
  obtain snt rcv t where t: "chan_run fixed_chan_send fixed_chan_recv ops c = Inr (snt, rcv, t)"
    "fixed_chan_contents c @ snt = rcv @ fixed_chan_contents t"
    using fixed_chan.run_fifo [OF I(1) assms(5)] by blast
  moreover have "length (fixed_chan_contents t) \<le> unat cap div unat item"
    using fixed_chan.run_bounded [OF I(1) assms(5) _ t(1)] I(2) by simp
  ultimately show ?thesis using I(2) by auto
qed

theorem fixed_ring_fifo_witness:
  "\<exists>c. fixed_ring_open (fresh_segment 16) 16 8 8 = Inr (Some c) \<and>
    (\<exists>snt rcv t. chan_run fixed_chan_send fixed_chan_recv
        [Send (replicate 8 1), Send (replicate 8 2), Send (replicate 8 3), Recv] c
        = Inr (snt, rcv, t) \<and>
      snt = rcv @ fixed_chan_contents t \<and> length (fixed_chan_contents t) \<le> 2)"
proof -
  obtain c where c: "fixed_ring_open (fresh_segment 16) 16 8 8 = Inr (Some c)"
    by (rule fixed_example_opens)
  from fixed_ring_fifo [OF c, of "[Send (replicate 8 1), Send (replicate 8 2),
      Send (replicate 8 3), Recv]"] c
  show ?thesis by (auto simp: fresh_segment_def)
qed

end
