(* ===== verification/Fixed_Properties.thy ===== *)
theory Fixed_Properties
  imports Fixed_Ring
begin

text \<open>
  Properties of the fixed ring's operations, one by one: reservation, two-phase publication,
  reading, capacity, spinning, and where the operations leave the safe envelope.
\<close>

section \<open>Examples\<close>

text \<open>A ring of two 8-byte frames: empty, and with one frame in it.\<close>

lemma fixed_example_empty:
  obtains w and r :: fixed_reader and s
  where "fixed_ring_open (fresh_segment 16) 16 8 8 = Inr (Some (w, r, s))"
    and "fixed_inv 2 w s" "\<not> pending w" "data_ptr r = sizeof_control_block" "fixed_contents s = []"
    and "item_of s = 8" "capacity_of s = 16" "wpos s = 0" "rpos s = 0"
    and "fixed_chan_inv 8 2 2 (w, r, s)"
proof -
  obtain c where c: "fixed_ring_open (fresh_segment 16) 16 8 8 = Inr (Some c)"
    by (rule fixed_example_opens)
  obtain w r s where "c = (w, r, s)" "wpos s = 0" "rpos s = 0" "capacity_of s = unat (16 :: u64)"
    by (rule fixed_ring_openD [OF c]) simp_all
  then have wrs: "c = (w, r, s)" "wpos s = 0" "rpos s = 0" "capacity_of s = 16" by simp_all
  have "fixed_chan_inv 8 2 2 c" "fixed_chan_contents c = []"
    using fixed_ring_open_inv(1) [OF c, where k = 2] fixed_ring_open_inv(2) [OF c, where k = 2]
    by (simp_all add: fresh_segment_def)
  with c wrs show thesis
    using that [of w r s] by (simp add: fixed_chan_inv_def fixed_chan_contents_def)
qed

lemma fixed_example_frame:
  obtains w and r :: fixed_reader and s
  where "fixed_inv 1 w s" "\<not> pending w" "data_ptr r = sizeof_control_block"
    and "fixed_contents s = [replicate 8 7]" "item_of s = 8" "capacity_of s = 16"
    and "fixed_chan_inv 8 2 1 (w, r, s)"
proof -
  obtain w and r :: fixed_reader and s where s: "fixed_chan_inv 8 2 (Suc 1) (w, r, s)"
    "fixed_contents s = []" "data_ptr r = sizeof_control_block"
    by (rule fixed_example_empty) (simp add: numeral_2_eq_2)
  obtain w' s' where "fixed_chan_inv 8 2 1 (w', r, s')" "fixed_contents s' = [replicate 8 7]"
    using fixed_chan_send_free [OF s(1), of "replicate 8 7"] s(2) by auto
  then show thesis using that [of w' s' r] s(3) by (simp add: fixed_chan_inv_def)
qed


section \<open>Reserving and publishing\<close>

lemma reserved_segment_geometry [simp]:
  "fixed_item_size (hdr (reserved_segment s)) = fixed_item_size (hdr s)"
  "data_capacity (hdr (reserved_segment s)) = data_capacity (hdr s)"
  by (simp_all add: reserved_segment_def)

text \<open>
  \<open>try_reserve\<close> refuses exactly when a reservation is pending or all slots are taken, and
  then changes nothing. Otherwise it returns a pointer to a whole free frame inside the data
  region, advances only the reservation front by one frame, and the frames the consumer can see
  stay the same.
\<close>

theorem fixed_try_reserve_outcome:
  assumes inv: "fixed_inv (Suc k) w s"
  shows "if pending w \<or> unat (wpos s) = unat (rpos s) + capacity_of s
    then fixed_try_reserve w s = Inr (None, w, s)
    else \<exists>p w' s'. fixed_try_reserve w s = Inr (Some p, w', s') \<and> pending w' \<and> fixed_inv k w' s' \<and>
      p = sizeof_control_block + unat (wpos s) mod capacity_of s \<and>
      p + item_of s \<le> sizeof_control_block + capacity_of s \<and>
      unat (wpos s') = unat (wpos s) + item_of s \<and> cpos s' = cpos s \<and> rpos s' = rpos s \<and>
      fixed_contents s' = fixed_contents s"
proof (cases "pending w \<or> unat (wpos s) = unat (rpos s) + capacity_of s")
  case True
  then show ?thesis
    using fixed_try_reserve_pending [of w s] fixed_try_reserve_full [OF inv] by auto
next
  case False
  note D = fixed_invD [OF inv] and G = fixed_geometryD [OF fixed_invD(1) [OF inv]]
  have "unat (wpos s) mod capacity_of s + item_of s \<le> capacity_of s"
    using slot_contiguous [OF G(2,3) D(5)] .
  moreover have "pending (reserved_writer w s)" by (simp add: reserved_writer_def)
  moreover have "cpos (reserved_segment s) = cpos s" "rpos (reserved_segment s) = rpos s"
    by (simp_all add: reserved_segment_def)
  ultimately show ?thesis
    using False fixed_try_reserve_free [OF inv] reserve_keeps_inv [OF inv] reserved_wpos [OF inv]
    by auto
qed

theorem fixed_try_reserve_outcome_witness:
  "\<exists>w s w' s'. capacity_of s = 16 \<and>
    fixed_try_reserve w s = Inr (Some sizeof_control_block, w', s') \<and> unat (wpos s') = 8"
proof -
  obtain w and r :: fixed_reader and s where s: "fixed_inv (Suc 1) w s" "\<not> pending w"
    "item_of s = 8" "capacity_of s = 16" "wpos s = 0" "rpos s = 0"
    by (rule fixed_example_empty) (simp add: numeral_2_eq_2)
  then obtain w' s' where "fixed_try_reserve w s = Inr (Some sizeof_control_block, w', s')"
    "unat (wpos s') = 8"
    using fixed_try_reserve_outcome [OF s(1)] by auto
  with s(4) show ?thesis by blast
qed

text \<open>
  C23: Two-phase publication. Between a reservation and its commit the producer may store any
  part of the frame through the returned pointer, without the consumer seeing anything of it;
  the commit then appends exactly one frame, the bytes as they stand, and wakes the consumer if
  and only if it had registered on the commit word.
\<close>

theorem fixed_two_phase:
  assumes inv: "fixed_inv (Suc k) w s" and idle: "\<not> pending w"
    and ok: "fixed_try_reserve w s = Inr (Some p, w1, s1)" and xs: "length xs \<le> item_of s"
  shows "\<exists>s2 s3 rest. store_bytes s1 p xs = Inr s2 \<and> fixed_contents s2 = fixed_contents s \<and>
    fixed_commit w1 s2 = (w1\<lparr>pending := False\<rparr>, s3) \<and> fixed_inv k (w1\<lparr>pending := False\<rparr>) s3 \<and>
    length rest = item_of s - length xs \<and> fixed_contents s3 = fixed_contents s @ [xs @ rest] \<and>
    cseq s3 = cseq s + 1 \<and>
    wakes s3 = wakes s @ (if has_waiter (cseq s) then [addr_commit_seq] else [])"
proof -
  note D = fixed_invD [OF inv]
  have free: "unat (wpos s) \<noteq> unat (rpos s) + capacity_of s"
    using fixed_try_reserve_full [OF inv] ok by auto
  have e: "p = sizeof_control_block + unat (wpos s) mod capacity_of s"
    "w1 = reserved_writer w s" "s1 = reserved_segment s"
    using fixed_try_reserve_free [OF inv idle free] ok by auto
  have cw: "unat (cpos s) = unat (wpos s)" using D(7) idle by simp
  have reg: "unat (wpos s) mod capacity_of s + item_of s \<le> length (data_bytes s)"
    using D by (intro slot_in_region)
  have i1: "fixed_inv k w1 s1" and pw: "pending w1"
    using reserve_keeps_inv [OF inv idle free] e by (auto simp: reserved_writer_def)
  have st: "store_bytes s1 p xs = Inr (fill_slot s1 xs)"
    using reg xs e cw by (simp add: fill_slot_def reserved_segment_def)
  note F = fill_slot_keeps [OF i1 pw]
  note K = written_keeps [OF inv idle free xs]
  have "cseq (written_segment w s xs) = cseq s + 1"
    "wakes (written_segment w s xs) = wakes s @ (if has_waiter (cseq s) then [addr_commit_seq] else [])"
    by (simp_all add: written_segment_def published_segment_def signal_commit_effect reserved_segment_def)
  moreover have "fixed_commit w1 (fill_slot s1 xs) = (w1\<lparr>pending := False\<rparr>, written_segment w s xs)"
    using fixed_commit_eq [OF pw] e by (simp add: written_segment_def)
  moreover have "fixed_contents (fill_slot s1 xs) = fixed_contents s"
    using F(2) [of xs] xs e by simp
  moreover have "length (drop (length xs)
      (mem_read (data_bytes s) (unat (wpos s) mod capacity_of s) (item_of s))) = item_of s - length xs"
    using reg by (simp add: length_mem_read)
  ultimately show ?thesis using st K e(2) by blast
qed

theorem fixed_two_phase_witness:
  "\<exists>w s p w1 s1 s2 s3 rest. fixed_try_reserve w s = Inr (Some p, w1, s1) \<and>
    store_bytes s1 p [1, 2, 3] = Inr s2 \<and> fixed_contents s2 = [] \<and>
    fixed_commit w1 s2 = (w1\<lparr>pending := False\<rparr>, s3) \<and> length rest = 5 \<and>
    fixed_contents s3 = [[1, 2, 3] @ rest]"
proof -
  obtain w and r :: fixed_reader and s where s: "fixed_inv (Suc 1) w s" "\<not> pending w"
    "item_of s = 8" "capacity_of s = 16" "wpos s = 0" "rpos s = 0" "fixed_contents s = []"
    by (rule fixed_example_empty) (simp add: numeral_2_eq_2)
  then obtain p w1 s1 where r: "fixed_try_reserve w s = Inr (Some p, w1, s1)"
    using fixed_try_reserve_free [OF s(1,2)] by simp
  from fixed_two_phase [OF s(1,2) r, of "[1, 2, 3]"] s
  obtain s2 s3 rest where "store_bytes s1 p [1, 2, 3] = Inr s2" "fixed_contents s2 = []"
    "fixed_commit w1 s2 = (w1\<lparr>pending := False\<rparr>, s3)" "length rest = 5"
    "fixed_contents s3 = [[1, 2, 3] @ rest]"
    by auto
  with r show ?thesis by blast
qed

text \<open>
  A ring holds exactly \<open>capacity / item_size\<close> frames: into an empty ring a burst of that many
  writes is accepted in full, and the next write is then refused and changes nothing.
\<close>

theorem fixed_ring_capacity:
  assumes inv: "fixed_chan_inv item n (Suc (length ms)) c" and empty: "fixed_chan_contents c = []"
    and ms: "length ms = n" "\<And>x. x \<in> set ms \<Longrightarrow> length x = item"
  shows "\<exists>t. chan_run fixed_chan_send fixed_chan_recv (map Send ms) c = Inr (ms, [], t) \<and>
    fixed_chan_contents t = ms \<and> (\<forall>m. length m = item \<longrightarrow> fixed_chan_send m t = Inr (False, t))"
proof -
  obtain w r s where c: "c = (w, r, s)" by (cases c)
  obtain t where t: "chan_run fixed_chan_send fixed_chan_recv (map Send ms) c = Inr (ms, [], t)"
    "fixed_chan_contents t = ms" and i1: "fixed_chan_inv item n (Suc 0) t"
    using fixed_chan.run_fill [of item n ms "Suc 0" c] inv empty ms by (auto simp: list_all_iff)
  obtain w' r' s' where t': "t = (w', r', s')" by (cases t)
  have "fixed_chan_send m t = Inr (False, t)" if "length m = item" for m
    using fixed_chan_send_full [of item n 0 w' r' s' m] i1 t(2) ms(1) t'
    by (simp add: fixed_chan_contents_def)
  with t show ?thesis by blast
qed

theorem fixed_ring_capacity_witness:
  "\<exists>c t. fixed_ring_open (fresh_segment 16) 16 8 8 = Inr (Some c) \<and>
    chan_run fixed_chan_send fixed_chan_recv [Send (replicate 8 1), Send (replicate 8 2)] c =
      Inr ([replicate 8 1, replicate 8 2], [], t) \<and>
    (\<forall>m. length m = 8 \<longrightarrow> fixed_chan_send m t = Inr (False, t))"
proof -
  obtain c where c: "fixed_ring_open (fresh_segment 16) 16 8 8 = Inr (Some c)"
    by (rule fixed_example_opens)
  let ?ms = "[replicate 8 1, replicate 8 2] :: u8 list list"
  have "fixed_chan_inv 8 2 (Suc (length ?ms)) c" "fixed_chan_contents c = []"
    using fixed_ring_open_inv(1) [OF c, where k = "Suc (length ?ms)"]
      fixed_ring_open_inv(2) [OF c, where k = 0]
    by (simp_all add: fresh_segment_def)
  then have "\<exists>t. chan_run fixed_chan_send fixed_chan_recv (map Send ?ms) c = Inr (?ms, [], t) \<and>
    fixed_chan_contents t = ?ms \<and> (\<forall>m. length m = 8 \<longrightarrow> fixed_chan_send m t = Inr (False, t))"
    by (rule fixed_ring_capacity) auto
  then obtain t where "chan_run fixed_chan_send fixed_chan_recv (map Send ?ms) c = Inr (?ms, [], t)"
    "\<forall>m. length m = 8 \<longrightarrow> fixed_chan_send m t = Inr (False, t)"
    by blast
  with c show ?thesis unfolding list.map by blast
qed


section \<open>Reading\<close>

text \<open>
  \<open>try_read\<close> finds nothing exactly when no frame is published, and otherwise shows the oldest
  frame in place, changing nothing; \<open>read_advance(n)\<close> then removes exactly the \<open>n\<close> oldest
  frames, for any \<open>n\<close> up to the number published, and wakes a registered producer.
\<close>

theorem fixed_read_in_place:
  assumes inv: "fixed_inv k w s" and r: "data_ptr r = sizeof_control_block"
    and n: "unat n \<le> length (fixed_contents s)"
  shows "(if fixed_contents s = [] then fixed_try_read r s = Inr None
      else \<exists>p. fixed_try_read r s = Inr (Some (p, fixed_item_size (hdr s))) \<and>
        load_bytes s p (item_of s) = Inr (hd (fixed_contents s))) \<and>
    fixed_inv k w (fixed_read_advance s n) \<and>
    fixed_contents (fixed_read_advance s n) = drop (unat n) (fixed_contents s) \<and>
    wakes (fixed_read_advance s n) =
      wakes s @ (if has_waiter (rwseq s) then [addr_read_wake_seq] else [])"
proof -
  have "unat n * item_of s \<le> unat (cpos s) - unat (rpos s)"
  proof -
    have "unat n \<le> (unat (cpos s) - unat (rpos s)) div item_of s"
      using n by (simp add: fixed_contents_def)
    then have "unat n * item_of s \<le> (unat (cpos s) - unat (rpos s)) div item_of s * item_of s"
      by (rule mult_le_mono1)
    also have "\<dots> \<le> unat (cpos s) - unat (rpos s)" by simp
    finally show ?thesis .
  qed
  note A = fixed_read_advance_keeps [OF inv this]
  have "wakes (fixed_read_advance s n) =
      wakes s @ (if has_waiter (rwseq s) then [addr_read_wake_seq] else [])"
    by (simp add: fixed_read_advance_def signal_read_effect)
  with A show ?thesis
    using fixed_try_read_empty [OF inv] fixed_try_read_ready [OF inv _ r] fixed_view_load [OF inv]
    by (simp del: load_bytes_data)
qed

theorem fixed_read_in_place_witness:
  "\<exists>s p. fixed_contents s = [replicate 8 7] \<and>
    fixed_try_read \<lparr>data_ptr = sizeof_control_block\<rparr> s = Inr (Some (p, fixed_item_size (hdr s))) \<and>
    load_bytes s p 8 = Inr (replicate 8 7) \<and> fixed_contents (fixed_read_advance s 1) = []"
proof -
  obtain w and r :: fixed_reader and s where s: "fixed_inv 1 w s" "item_of s = 8"
    "fixed_contents s = [replicate 8 7]"
    by (rule fixed_example_frame)
  then have "\<exists>p. fixed_try_read \<lparr>data_ptr = sizeof_control_block\<rparr> s =
      Inr (Some (p, fixed_item_size (hdr s))) \<and> load_bytes s p 8 = Inr (replicate 8 7)"
    "fixed_contents (fixed_read_advance s 1) = []"
    using fixed_read_in_place [OF s(1), of "\<lparr>data_ptr = sizeof_control_block\<rparr>" 1] by simp_all
  with s(3) show ?thesis by blast
qed

text \<open>
  The copying \<open>read\<close> with a size up to the item size copies that many bytes of the oldest
  frame into the caller's buffer and removes the frame; on an empty ring it returns false and
  leaves the buffer and the ring alone.
\<close>

theorem fixed_read_outcome:
  assumes inv: "fixed_inv k w s" and r: "data_ptr r = sizeof_control_block"
    and sz: "unat sz \<le> item_of s" "unat sz \<le> length out"
  shows "case fixed_contents s of
      [] \<Rightarrow> fixed_read r s out sz = Inr (False, out, s)
    | x # xs \<Rightarrow> \<exists>s'. fixed_read r s out sz = Inr (True, take (unat sz) x @ drop (unat sz) out, s') \<and>
        fixed_inv k w s' \<and> fixed_contents s' = xs"
proof (cases "fixed_contents s")
  case Nil
  then show ?thesis using fixed_read_empty [OF inv] by simp
next
  case (Cons x xs)
  then have "fixed_contents s \<noteq> []" by simp
  then show ?thesis
    using fixed_read_eq [OF inv _ r sz] advance_one_keeps [OF inv] Cons by simp
qed

theorem fixed_read_outcome_witness:
  "\<exists>s s'. fixed_contents s = [replicate 8 7] \<and>
    fixed_read \<lparr>data_ptr = sizeof_control_block\<rparr> s [0, 0, 0] 2 = Inr (True, [7, 7, 0], s') \<and>
    fixed_contents s' = []"
proof -
  obtain w and r :: fixed_reader and s where s: "fixed_inv 1 w s" "item_of s = 8"
    "fixed_contents s = [replicate 8 7]"
    by (rule fixed_example_frame)
  have "take 2 (replicate 8 (7 :: u8)) = [7, 7]" by (simp add: eval_nat_numeral)
  then have "\<exists>s'. fixed_read \<lparr>data_ptr = sizeof_control_block\<rparr> s [0, 0, 0] 2 = Inr (True, [7, 7, 0], s') \<and>
    fixed_contents s' = []"
    using fixed_read_outcome [OF s(1), of "\<lparr>data_ptr = sizeof_control_block\<rparr>" 2 "[0, 0, 0]"] s
    by auto
  with s(3) show ?thesis by blast
qed


section \<open>Spinning\<close>

text \<open>The segment as the \<open>n\<close>-th attempt sees it, when attempts do not change it themselves.\<close>

primrec spun :: "(nat \<Rightarrow> segment \<Rightarrow> segment) \<Rightarrow> nat \<Rightarrow> segment \<Rightarrow> nat \<Rightarrow> segment" where
  "spun env j s 0 = s"
| "spun env j s (Suc n) = spun env (Suc j) (env j s) n"

primrec paused :: "nat \<Rightarrow> atomic_backoff \<Rightarrow> atomic_backoff" where
  "paused 0 b = b"
| "paused (Suc n) b = paused n (snd (backoff_pause b))"

text \<open>
  \<open>spin_until_reserve\<close> reserves at the first attempt that finds a free slot: if the ring is
  full for \<open>n\<close> attempts and the consumer has freed a slot by the next, \<open>n + 1\<close> attempts suffice
  and the result is that of \<open>try_reserve\<close> there, after exactly \<open>n\<close> pauses.
\<close>

theorem fixed_spin_until_reserve_returns:
  assumes "\<And>i. i < n \<Longrightarrow> fixed_inv k w (spun env j s i) \<and>
      unat (wpos (spun env j s i)) = unat (rpos (spun env j s i)) + capacity_of (spun env j s i)"
    and "fixed_inv k w (spun env j s n)" "\<not> pending w"
    and "unat (wpos (spun env j s n)) < unat (rpos (spun env j s n)) + capacity_of (spun env j s n)"
    and "n < fuel"
  shows "\<exists>p w' s'. fixed_spin_until_reserve fuel env j b w s = Some (Inr (p, paused n b, w', s')) \<and>
    fixed_try_reserve w (spun env j s n) = Inr (Some p, w', s')"
  using assms
proof (induction n arbitrary: s j b fuel)
  case 0
  then obtain f where "fuel = Suc f" by (cases fuel) auto
  with 0 fixed_try_reserve_free [of k w s] show ?case by simp
next
  case (Suc n)
  obtain f where f: "fuel = Suc f" "n < f" using Suc.prems(5) by (cases fuel) auto
  have "fixed_inv k w s" "unat (wpos s) = unat (rpos s) + capacity_of s"
    using Suc.prems(1) [of 0] by auto
  then have "fixed_try_reserve w s = Inr (None, w, s)" by (rule fixed_try_reserve_full)
  moreover have "\<exists>p w' s'. fixed_spin_until_reserve f env (Suc j) (snd (backoff_pause b)) w (env j s) =
      Some (Inr (p, paused n (snd (backoff_pause b)), w', s')) \<and>
      fixed_try_reserve w (spun env (Suc j) (env j s) n) = Inr (Some p, w', s')"
    using Suc.prems(1) [of "Suc _"] Suc.prems(2-4) f(2) by (intro Suc.IH) auto
  ultimately show ?case using f(1) by auto
qed

theorem fixed_spin_until_reserve_returns_witness:
  "\<exists>w s p b w' s'. capacity_of s = 16 \<and>
    fixed_spin_until_reserve 1 (\<lambda>_ s. s) 0 (new_atomic_backoff 256) w s = Some (Inr (p, b, w', s'))"
proof -
  obtain w and r :: fixed_reader and s where s: "fixed_inv 2 w s" "\<not> pending w"
    "capacity_of s = 16" "wpos s = 0" "rpos s = 0"
    by (rule fixed_example_empty)
  then show ?thesis
    using fixed_spin_until_reserve_returns [of 0 2 w "\<lambda>_ s. s" 0 s 1 "new_atomic_backoff 256"]
    by fastforce
qed

text \<open>
  Called while a reservation is still uncommitted, \<open>spin_until_reserve\<close> never returns,
  whatever the consumer does: no number of attempts is enough.
\<close>

theorem fixed_spin_until_reserve_stuck:
  "pending w \<Longrightarrow> fixed_spin_until_reserve fuel env j b w s = None"
  by (induction fuel arbitrary: j b s) (simp_all add: fixed_try_reserve_pending)

theorem fixed_spin_until_reserve_stuck_witness:
  "fixed_spin_until_reserve 1000 (\<lambda>_ s. fixed_read_advance s 1) 0 (new_atomic_backoff 256)
     \<lparr>data_ptr = sizeof_control_block, reserved_end = 8, pending = True\<rparr> (fresh_segment 16) = None"
  by (rule fixed_spin_until_reserve_stuck) simp

text \<open>
  \<open>spin_until_read\<close> returns the oldest frame at the first attempt that finds one published.
\<close>

theorem fixed_spin_until_read_returns:
  assumes "\<And>i. i < n \<Longrightarrow> fixed_inv k w (spun env j s i) \<and> fixed_contents (spun env j s i) = []"
    and "fixed_inv k w (spun env j s n)" "data_ptr r = sizeof_control_block"
    and "fixed_contents (spun env j s n) = x # xs" and "n < fuel"
  shows "\<exists>p sz. fixed_spin_until_read fuel env j b r s = Some (Inr (p, sz, paused n b, spun env j s n)) \<and>
    load_bytes (spun env j s n) p (unat sz) = Inr x"
  using assms
proof (induction n arbitrary: s j b fuel)
  case 0
  then obtain f where "fuel = Suc f" by (cases fuel) auto
  with 0 fixed_try_read_ready [of k w s r] fixed_view_load [of k w s]
  show ?case by (auto simp del: load_bytes_data)
next
  case (Suc n)
  obtain f where f: "fuel = Suc f" "n < f" using Suc.prems(5) by (cases fuel) auto
  have "fixed_try_read r s = Inr None"
    using Suc.prems(1) [of 0] fixed_try_read_empty [of k w s r] by simp
  moreover have "\<exists>p sz. fixed_spin_until_read f env (Suc j) (snd (backoff_pause b)) r (env j s) =
      Some (Inr (p, sz, paused n (snd (backoff_pause b)), spun env (Suc j) (env j s) n)) \<and>
      load_bytes (spun env (Suc j) (env j s) n) p (unat sz) = Inr x"
    using Suc.prems(1) [of "Suc _"] Suc.prems(2-4) f(2) by (intro Suc.IH) auto
  ultimately show ?case using f(1) by auto
qed

theorem fixed_spin_until_read_returns_witness:
  "\<exists>s b p sz t. fixed_contents s = [replicate 8 7] \<and>
    fixed_spin_until_read 1 (\<lambda>_ s. s) 0 b \<lparr>data_ptr = sizeof_control_block\<rparr> s =
      Some (Inr (p, sz, b, t)) \<and> load_bytes t p (unat sz) = Inr (replicate 8 7)"
proof -
  obtain w and r :: fixed_reader and s where s: "fixed_inv 1 w s" "fixed_contents s = [replicate 8 7]"
    by (rule fixed_example_frame)
  then have "\<exists>p sz. fixed_spin_until_read 1 (\<lambda>_ s. s) 0 b \<lparr>data_ptr = sizeof_control_block\<rparr> s =
      Some (Inr (p, sz, b, s)) \<and> load_bytes s p (unat sz) = Inr (replicate 8 7)" for b
    using fixed_spin_until_read_returns [of 0 1 w "\<lambda>_ s. s" 0 s "\<lparr>data_ptr = sizeof_control_block\<rparr>"
        "replicate 8 7" "[]" 1 b] by simp
  with s(2) show ?thesis by blast
qed


section \<open>Outside the safe envelope\<close>

text \<open>
  \<open>write\<close> does not compare its size with the item size. A write larger than the rest of the
  mapping behind its slot is an out-of-bounds store; every write of at most the item size is not.
\<close>

theorem fixed_write_bounds:
  assumes inv: "fixed_inv (Suc k) w s" and idle: "\<not> pending w"
    and free: "unat (wpos s) \<noteq> unat (rpos s) + capacity_of s" and data: "unat sz \<le> length data"
  shows "(unat sz \<le> item_of s \<longrightarrow> (\<exists>w' s'. fixed_write w s data sz = Inr (True, w', s'))) \<and>
    (length (data_bytes s) < unat (wpos s) mod capacity_of s + unat sz \<longrightarrow>
       fixed_write w s data sz = Inl out_of_bounds)"
proof -
  have "fixed_write w s data sz = Inl out_of_bounds"
    if big: "length (data_bytes s) < unat (wpos s) mod capacity_of s + unat sz"
  proof -
    have "unat (wpos s) mod capacity_of s + item_of s \<le> length (data_bytes s)"
      using slot_in_region fixed_invD [OF inv] by blast
    with big have "0 < unat sz" by linarith
    then have "sz > 0" by (simp add: word_less_nat_alt)
    then show ?thesis
      using big data
      by (simp add: fixed_write_def fixed_try_reserve_free [OF inv idle free] memcpy_in_def
          checked_read_def mem_read_def reserved_segment_def)
  qed
  moreover have "\<exists>w' s'. fixed_write w s data sz = Inr (True, w', s')" if "unat sz \<le> item_of s"
    using fixed_write_eq [OF inv idle free that data] by blast
  ultimately show ?thesis by blast
qed

theorem fixed_write_bounds_witness:
  "\<exists>w s. item_of s = 8 \<and> fixed_write w s (replicate 24 0) 24 = Inl out_of_bounds"
proof -
  obtain w and r :: fixed_reader and s where o: "fixed_ring_open (fresh_segment 16) 16 8 8 = Inr (Some (w, r, s))"
    and s: "fixed_inv (Suc 1) w s" "\<not> pending w" "item_of s = 8" "capacity_of s = 16" "wpos s = 0" "rpos s = 0"
    by (rule fixed_example_empty) (simp add: numeral_2_eq_2)
  have "length (data_bytes s) = 16"
    by (rule fixed_ring_openD [OF o]) (simp_all add: fresh_segment_def)
  then have "fixed_write w s (replicate 24 0) 24 = Inl out_of_bounds"
    using fixed_write_bounds [OF s(1,2), of 24 "replicate 24 0"] s by simp
  with s(3) show ?thesis by blast
qed

text \<open>
  An oversized write that stays inside the mapping corrupts a neighbour: on a ring of three
  8-byte frames holding the frames 2 and 3, a 16-byte write into the free slot returns true and
  the consumer then receives the second half of that write in place of frame 2.
\<close>

theorem fixed_oversize_write_corrupts:
  "(case fixed_ring_open (fresh_segment 24) 24 8 8 of
      Inr (Some c) \<Rightarrow>
        (case chan_run fixed_chan_send fixed_chan_recv
            [Send (replicate 8 1), Send (replicate 8 2), Send (replicate 8 3), Recv] c of
           Inr (_, _, (w, r, s)) \<Rightarrow>
             (case fixed_write w s (replicate 16 9) 16 of
                Inr (ok, w', s') \<Rightarrow> (ok, fixed_contents s, fixed_contents s'))))
   = (True, [replicate 8 2, replicate 8 3], [replicate 8 9, replicate 8 3, replicate 8 9])"
  by code_simp

text \<open>
  A fixed ring whose control block has item size 0, which initialisation and the writer's
  constructor both accept, loses data: as long as no frame is outstanding \<open>write\<close> answers true,
  and the consumer still finds nothing.
\<close>

theorem fixed_zero_item_size_loses:
  assumes "fixed_item_size (hdr s) = 0" "data_capacity (hdr s) \<noteq> 0" "\<not> pending w"
    and "data_ptr w = sizeof_control_block" "wpos s = rpos s" "cpos s = rpos s"
    and "unat (wpos s) mod capacity_of s + unat sz \<le> length (data_bytes s)" "unat sz \<le> length data"
  shows "(\<exists>w0. new_fixed_writer s = Inr w0) \<and>
    (\<exists>w' s'. fixed_write w s data sz = Inr (True, w', s') \<and> fixed_try_read r s' = Inr None \<and>
       wpos s' = rpos s' \<and> cpos s' = rpos s')"
proof -
  let ?p = "sizeof_control_block + unat (wpos s mod data_capacity (hdr s))"
  let ?s1 = "update_meta (\<lambda>m. m\<lparr>write_pos := wpos s\<rparr>) s" and ?w1 = "w\<lparr>reserved_end := wpos s, pending := True\<rparr>"
  have z: "u64_of_u32 0 = 0" by (simp add: u64_of_u32_def)
  have r: "fixed_try_reserve w s = Inr (Some ?p, ?w1, ?s1)"
    using assms(1-5) z by (simp add: fixed_try_reserve_def Let_def)
  have "\<exists>bs. (if sz > 0 then memcpy_in ?s1 ?p data (unat sz) else Inr ?s1) =
      Inr (?s1\<lparr>data_bytes := bs\<rparr>)"
  proof (cases "sz = 0")
    case True
    then show ?thesis by (auto intro: exI [of _ "data_bytes ?s1"])
  next
    case False
    then show ?thesis
      using assms(7,8) by (auto simp: word_gt_0 memcpy_in_def checked_read_def mem_read_def unat_mod)
  qed
  then obtain bs where bs: "(if sz > 0 then memcpy_in ?s1 ?p data (unat sz) else Inr ?s1) =
      Inr (?s1\<lparr>data_bytes := bs\<rparr>)" by blast
  have "fixed_write w s data sz =
      Inr (True, ?w1\<lparr>pending := False\<rparr>, published_segment ?w1 (?s1\<lparr>data_bytes := bs\<rparr>))"
    unfolding fixed_write_def r using fixed_commit_eq [of ?w1] by (simp add: bs)
  moreover have "\<exists>w0. new_fixed_writer s = Inr w0" using assms(1) by (simp add: new_fixed_writer_def)
  ultimately show ?thesis using assms(5,6) by (simp add: fixed_try_read_def)
qed

theorem fixed_zero_item_size_loses_witness:
  "\<exists>s w' s'. fixed_ring_open (fresh_segment 16) 16 8 0 =
      Inr (Some (\<lparr>data_ptr = sizeof_control_block, reserved_end = 0, pending = False\<rparr>,
        \<lparr>data_ptr = sizeof_control_block\<rparr>, s)) \<and>
    fixed_write \<lparr>data_ptr = sizeof_control_block, reserved_end = 0, pending = False\<rparr> s [1, 2, 3] 3
      = Inr (True, w', s') \<and>
    fixed_try_read \<lparr>data_ptr = sizeof_control_block\<rparr> s' = Inr None"
proof -
  let ?w = "\<lparr>data_ptr = sizeof_control_block, reserved_end = 0, pending = False\<rparr>"
  have "is_valid_data_alignment 8" "(16 :: u64) mod u64_of_u32 8 = 0"
    by (simp_all add: is_valid_data_alignment_def u64_of_u32_def)
  then obtain s where s: "fixed_ring_open (fresh_segment 16) 16 8 0 =
      Inr (Some (?w, \<lparr>data_ptr = sizeof_control_block\<rparr>, s))"
    "fixed_item_size (hdr s) = 0" "data_capacity (hdr s) = 16" "wpos s = 0" "rpos s = 0" "cpos s = 0"
    "length (data_bytes s) = 16"
    by (simp add: fixed_ring_open_cases init_control_block_def fresh_segment_def)
  then have "\<exists>w' s'. fixed_write ?w s [1, 2, 3] 3 = Inr (True, w', s') \<and>
      fixed_try_read \<lparr>data_ptr = sizeof_control_block\<rparr> s' = Inr None"
    using fixed_zero_item_size_loses [of s ?w 3 "[1, 2, 3]" "\<lparr>data_ptr = sizeof_control_block\<rparr>"] by auto
  with s(1) show ?thesis by blast
qed

end
