(* ===== verification/Slot_Header.thy ===== *)
theory Slot_Header
  imports Ring_View
begin

text \<open>
  The per-message metadata (\<open>include/spscring/message_meta.hpp\<close>), the slot header of the
  variable-length ring (\<open>internal/varlen_header.hpp\<close>) with its byte representation, and the
  result of a reservation (\<open>reserve_result.hpp\<close>).
\<close>

section \<open>Message metadata\<close>

record message_meta =
  user_data :: u64
  timestamp_ns :: u64
  schema_id :: u32
  flags :: u32

definition default_meta :: message_meta where
  "default_meta = \<lparr>user_data = 0, timestamp_ns = 0, schema_id = 0, flags = 0\<rparr>"

datatype message_flag =
  flag_none | flag_priority_high | flag_compressed | flag_response | flag_cancel

primrec flag_value :: "message_flag \<Rightarrow> u32" where
  "flag_value flag_none = 0"
| "flag_value flag_priority_high = push_bit 0 1"
| "flag_value flag_compressed = push_bit 1 1"
| "flag_value flag_response = push_bit 2 1"
| "flag_value flag_cancel = push_bit 3 1"


section \<open>The slot header\<close>

record varlen_slot_header =
  slot_size :: u32
  payload_size :: u32
  slot_meta :: message_meta

definition varlen_slot_header_size :: u32 where "varlen_slot_header_size = 32"

text \<open>The bytes of the two structs: the members in order, without padding.\<close>

definition encode_meta :: "message_meta \<Rightarrow> u8 list" where
  "encode_meta m =
     le_bytes 8 (unat (user_data m)) @ le_bytes 8 (unat (timestamp_ns m)) @
     le_bytes 4 (unat (schema_id m)) @ le_bytes 4 (unat (flags m))"

definition encode_header :: "varlen_slot_header \<Rightarrow> u8 list" where
  "encode_header h =
     le_bytes 4 (unat (slot_size h)) @ le_bytes 4 (unat (payload_size h)) @
     encode_meta (slot_meta h)"

definition decode_meta :: "u8 list \<Rightarrow> message_meta" where
  "decode_meta bs =
     \<lparr>user_data = word_of_nat (le_value (take 8 bs)),
      timestamp_ns = word_of_nat (le_value (take 8 (drop 8 bs))),
      schema_id = word_of_nat (le_value (take 4 (drop 16 bs))),
      flags = word_of_nat (le_value (take 4 (drop 20 bs)))\<rparr>"

definition decode_header :: "u8 list \<Rightarrow> varlen_slot_header" where
  "decode_header bs =
     \<lparr>slot_size = word_of_nat (le_value (take 4 bs)),
      payload_size = word_of_nat (le_value (take 4 (drop 4 bs))),
      slot_meta = decode_meta (take 24 (drop 8 bs))\<rparr>"

text \<open>Member accesses through a \<open>varlen_slot_header*\<close>: each touches its own bytes only.\<close>

definition load_slot_size :: "segment \<Rightarrow> nat \<Rightarrow> u32 res" where
  "load_slot_size s p = res_bind (load_bytes s p 4) (\<lambda>b. Inr (word_of_nat (le_value b)))"

definition load_payload_size :: "segment \<Rightarrow> nat \<Rightarrow> u32 res" where
  "load_payload_size s p = res_bind (load_bytes s (p + 4) 4) (\<lambda>b. Inr (word_of_nat (le_value b)))"

definition load_meta :: "segment \<Rightarrow> nat \<Rightarrow> message_meta res" where
  "load_meta s p = res_bind (load_bytes s (p + 8) 24) (\<lambda>b. Inr (decode_meta b))"

definition store_header :: "segment \<Rightarrow> nat \<Rightarrow> varlen_slot_header \<Rightarrow> segment res" where
  "store_header s p h = store_bytes s p (encode_header h)"

lemma length_encode_meta [simp]: "length (encode_meta m) = 24"
  by (simp add: encode_meta_def)

lemma length_encode_header [simp]: "length (encode_header h) = 32"
  by (simp add: encode_header_def)

lemma decode_encode_meta [simp]: "decode_meta (encode_meta m) = m"
  by (simp add: decode_meta_def encode_meta_def)

lemma decode_encode_header [simp]: "decode_header (encode_header h) = h"
  by (simp add: decode_header_def encode_header_def)


section \<open>The result of a reservation\<close>

datatype reserve_status =
  rs_ok | rs_full | rs_timeout | rs_message_too_large | rs_pending_commit

record reserve_result =
  status :: reserve_status
  payload :: "nat option"
  position :: u64

definition reserve_ok :: "reserve_result \<Rightarrow> bool" where
  "reserve_ok r \<longleftrightarrow> status r = rs_ok"

primrec reserve_status_cstr :: "reserve_status \<Rightarrow> string" where
  "reserve_status_cstr rs_ok = ''ok''"
| "reserve_status_cstr rs_full = ''full''"
| "reserve_status_cstr rs_timeout = ''timeout''"
| "reserve_status_cstr rs_message_too_large = ''message_too_large''"
| "reserve_status_cstr rs_pending_commit = ''pending_commit''"

text \<open>The enumeration's underlying order (\<open>ok = 0\<close> and counting).\<close>

primrec reserve_status_code :: "reserve_status \<Rightarrow> nat" where
  "reserve_status_code rs_ok = 0"
| "reserve_status_code rs_full = 1"
| "reserve_status_code rs_timeout = 2"
| "reserve_status_code rs_message_too_large = 3"
| "reserve_status_code rs_pending_commit = 4"

lemma reserve_status_code_inject: "reserve_status_code a = reserve_status_code b \<Longrightarrow> a = b"
  by (cases a; cases b) simp_all

instantiation reserve_status :: linorder
begin

definition less_eq_reserve_status_def:
  "a \<le> b \<longleftrightarrow> reserve_status_code a \<le> reserve_status_code b"

definition less_reserve_status_def:
  "a < b \<longleftrightarrow> reserve_status_code a < reserve_status_code b"

instance
  by standard
    (auto simp: less_eq_reserve_status_def less_reserve_status_def
      dest: reserve_status_code_inject)

end

lemma reserve_status_cstr_inject: "reserve_status_cstr a = reserve_status_cstr b \<longleftrightarrow> a = b"
  by (cases a; cases b) simp_all


section \<open>The members of a stored header\<close>

lemma load_header_members:
  assumes rd: "mem_read (data_bytes s) i 32 = encode_header h" and i: "i + 32 \<le> length (data_bytes s)"
  shows "load_slot_size s (sizeof_control_block + i) = Inr (slot_size h)"
    and "load_payload_size s (sizeof_control_block + i) = Inr (payload_size h)"
    and "load_meta s (sizeof_control_block + i) = Inr (slot_meta h)"
proof -
  have sub: "mem_read (data_bytes s) (i + j) n = take n (drop j (encode_header h))" if "j + n \<le> 32" for j n
    using mem_read_sub [OF that, of "data_bytes s" i] rd by simp
  have "load_bytes s (sizeof_control_block + (i + 0)) 4 = Inr (le_bytes 4 (unat (slot_size h)))"
    "load_bytes s (sizeof_control_block + (i + 4)) 4 = Inr (le_bytes 4 (unat (payload_size h)))"
    "load_bytes s (sizeof_control_block + (i + 8)) 24 = Inr (encode_meta (slot_meta h))"
    using i sub [of 0 4] sub [of 4 4] sub [of 8 24]
    by (simp_all add: checked_read_def) (simp_all add: encode_header_def)
  then show "load_slot_size s (sizeof_control_block + i) = Inr (slot_size h)"
    "load_payload_size s (sizeof_control_block + i) = Inr (payload_size h)"
    "load_meta s (sizeof_control_block + i) = Inr (slot_meta h)"
    by (simp_all add: load_slot_size_def load_payload_size_def load_meta_def add.assoc)
qed

end
