(* ===== verification/Varlen_Ring.thy ===== *)
theory Varlen_Ring
  imports Slot_Header Atomic_Backoff
begin

text \<open>
  The variable-length ring: \<open>varlen_writer\<close> (\<open>include/spscring/varlen_writer.hpp\<close>) and
  \<open>varlen_reader\<close> (\<open>include/spscring/varlen_reader.hpp\<close>), operation by operation. The slot
  list the ring represents, the invariant and the behaviour of the operations on it are in
  \<open>Varlen_Slots\<close> and \<open>Varlen_Channel\<close>.

  The reservation loop is a partial function: \<open>None\<close> would be a call that never returns.
\<close>

section \<open>The writer\<close>

record varlen_writer = ring_view +
  vbackoff :: atomic_backoff
  vpending :: bool
  last_position :: u64

definition new_varlen_writer :: "segment \<Rightarrow> varlen_writer" where
  "new_varlen_writer s =
     \<lparr>data_ptr = data_ptr (new_ring_view s), vbackoff = new_atomic_backoff 256,
      vpending = False, last_position = 0\<rparr>"

definition reserve_failed :: "reserve_status \<Rightarrow> reserve_result" where
  "reserve_failed st = \<lparr>status = st, payload = None, position = 0\<rparr>"

definition pause_writer :: "varlen_writer \<Rightarrow> varlen_writer" where
  "pause_writer w = w\<lparr>vbackoff := snd (backoff_pause (vbackoff w))\<rparr>"

text \<open>
  The loop of \<open>try_reserve\<close>. \<open>head\<close> is the local copy of \<open>write_pos\<close>;
  \<open>compare_exchange_strong\<close> succeeds when \<open>write_pos\<close> still equals it and otherwise loads the
  current value into it.
\<close>

partial_function (option) varlen_reserve_loop ::
  "u32 \<Rightarrow> u32 \<Rightarrow> message_meta \<Rightarrow> u64 \<Rightarrow> varlen_writer \<Rightarrow> segment \<Rightarrow>
   (reserve_result \<times> varlen_writer \<times> segment) res option" where
  "varlen_reserve_loop needed psize mt head w s =
     (let cap = data_capacity (hdr s);
          read = rpos s;
          used = head - read
      in if used + u64_of_u32 needed > cap then Some (Inr (reserve_failed rs_full, w, s))
         else
           (case mod_u64 head cap of
              Inl e \<Rightarrow> Some (Inl e)
            | Inr head_index \<Rightarrow>
                let wrap_padding = cap - head_index
                in if wrap_padding < u64_of_u32 needed then
                     let new_head = head + wrap_padding
                     in if wpos s = head then
                          (case store_header (update_meta (\<lambda>m. m\<lparr>write_pos := new_head\<rparr>) s)
                                  (data_ptr w + unat head_index)
                                  \<lparr>slot_size = u32_of_u64 wrap_padding, payload_size = 0,
                                   slot_meta = default_meta\<rparr> of
                             Inl e \<Rightarrow> Some (Inl e)
                           | Inr s' \<Rightarrow>
                               varlen_reserve_loop needed psize mt new_head w
                                 (signal_commit (update_meta (\<lambda>m. m\<lparr>commit_pos := new_head\<rparr>) s')))
                        else varlen_reserve_loop needed psize mt (wpos s) (pause_writer w) s
                   else
                     let new_head = head + u64_of_u32 needed
                     in if wpos s \<noteq> head
                        then varlen_reserve_loop needed psize mt (wpos s) (pause_writer w) s
                        else
                          (case store_header (update_meta (\<lambda>m. m\<lparr>write_pos := new_head\<rparr>) s)
                                  (data_ptr w + unat head_index)
                                  \<lparr>slot_size = needed, payload_size = psize, slot_meta = mt\<rparr> of
                             Inl e \<Rightarrow> Some (Inl e)
                           | Inr s' \<Rightarrow>
                               Some (Inr
                                 (\<lparr>status = rs_ok,
                                   payload = Some (data_ptr w + unat head_index +
                                     unat varlen_slot_header_size),
                                   position = head\<rparr>,
                                  w\<lparr>vpending := True, last_position := head\<rparr>, s')))))"

declare varlen_reserve_loop.simps [code]

definition needed_bytes :: "u32 \<Rightarrow> segment \<Rightarrow> u32" where
  "needed_bytes psize s =
     align_up_u32 (varlen_slot_header_size + psize) (data_alignment (hdr s))"

definition varlen_try_reserve ::
  "varlen_writer \<Rightarrow> segment \<Rightarrow> u32 \<Rightarrow> message_meta \<Rightarrow>
   (reserve_result \<times> varlen_writer \<times> segment) res option" where
  "varlen_try_reserve w s psize mt =
     (if vpending w then Some (Inr (reserve_failed rs_pending_commit, w, s))
      else
        let needed = needed_bytes psize s
        in if u64_of_u32 needed > data_capacity (hdr s)
           then Some (Inr (reserve_failed rs_message_too_large, w, s))
           else varlen_reserve_loop needed psize mt (wpos s) w s)"

text \<open>The source buffer is \<open>None\<close> for a null pointer.\<close>

definition varlen_reserve_and_copy ::
  "varlen_writer \<Rightarrow> segment \<Rightarrow> u32 \<Rightarrow> u8 list option \<Rightarrow> message_meta \<Rightarrow>
   (reserve_result \<times> varlen_writer \<times> segment) res option" where
  "varlen_reserve_and_copy w s psize data mt =
     map_option (\<lambda>x. res_bind x (\<lambda>(result, w, s).
         case (status result = rs_ok \<and> psize > 0, data, payload result) of
           (True, Some src, Some p) \<Rightarrow>
             res_bind (memcpy_in s p src (unat psize)) (\<lambda>s. Inr (result, w, s))
         | _ \<Rightarrow> Inr (result, w, s)))
       (varlen_try_reserve w s psize mt)"

definition varlen_commit ::
  "varlen_writer \<Rightarrow> segment \<Rightarrow> u64 \<Rightarrow> (varlen_writer \<times> segment) res" where
  "varlen_commit w s pos =
     (if \<not> vpending w \<or> pos \<noteq> last_position w then Inr (w, s)
      else
        res_bind (mod_u64 pos (data_capacity (hdr s))) (\<lambda>i.
        res_bind (load_slot_size s (data_ptr w + unat i)) (\<lambda>n.
          Inr (w\<lparr>vpending := False\<rparr>,
               signal_commit (update_meta (\<lambda>m. m\<lparr>commit_pos := pos + u64_of_u32 n\<rparr>) s)))))"

definition varlen_write ::
  "varlen_writer \<Rightarrow> segment \<Rightarrow> u32 \<Rightarrow> u8 list option \<Rightarrow> message_meta \<Rightarrow>
   (bool \<times> varlen_writer \<times> segment) res option" where
  "varlen_write w s psize data mt =
     map_option (\<lambda>x. res_bind x (\<lambda>(result, w, s).
         if status result \<noteq> rs_ok then Inr (False, w, s)
         else res_bind (varlen_commit w s (position result)) (\<lambda>(w, s). Inr (True, w, s))))
       (varlen_reserve_and_copy w s psize data mt)"


section \<open>The reader\<close>

type_synonym varlen_reader = ring_view

text \<open>
  A handler sees the segment through the payload pointer, the size, the metadata and the
  \<open>reserved\<close> argument, and has captured state of its own; it answers whether it consumed the
  message.
\<close>

type_synonym 'h handler =
  "segment \<Rightarrow> nat \<Rightarrow> u32 \<Rightarrow> message_meta \<Rightarrow> u64 \<Rightarrow> 'h \<Rightarrow> (bool \<times> 'h) res"

text \<open>The store to \<open>read_pos\<close>, the bump of \<open>read_wake_seq\<close> and the conditional wake.\<close>

definition advance_read :: "segment \<Rightarrow> u64 \<Rightarrow> segment" where
  "advance_read s v = signal_read (update_meta (\<lambda>m. m\<lparr>read_pos := v\<rparr>) s)"

function varlen_read ::
  "'h handler \<Rightarrow> varlen_reader \<Rightarrow> 'h \<Rightarrow> segment \<Rightarrow> (bool \<times> 'h \<times> segment) res" where
  "varlen_read handler r h s =
     (let read = rpos s;
          committed = cpos s;
          used = (if committed > read then committed - read else 0)
      in case mod_u64 read (data_capacity (hdr s)) of
           Inl e \<Rightarrow> Inl e
         | Inr read_index \<Rightarrow>
             let slot = data_ptr r + unat read_index
             in if used = 0 then Inr (False, h, s)
                else
                  (case load_slot_size s slot of
                     Inl e \<Rightarrow> Inl e
                   | Inr ssize \<Rightarrow>
                       if ssize = 0 then Inr (False, h, s)
                       else if used < u64_of_u32 ssize then Inr (False, h, s)
                       else
                         (case load_payload_size s slot of
                            Inl e \<Rightarrow> Inl e
                          | Inr psize \<Rightarrow>
                              if psize = 0
                              then varlen_read handler r h
                                     (advance_read s (read + u64_of_u32 ssize))
                              else
                                (case load_meta s slot of
                                   Inl e \<Rightarrow> Inl e
                                 | Inr mt \<Rightarrow>
                                     (case handler s (slot + unat varlen_slot_header_size)
                                             psize mt 0 h of
                                        Inl e \<Rightarrow> Inl e
                                      | Inr (consumed, h') \<Rightarrow>
                                          if consumed
                                          then Inr (True, h',
                                                 advance_read s (read + u64_of_u32 ssize))
                                          else Inr (False, h', s))))))"
  by pat_completeness auto

text \<open>Each skipped slot moves \<open>read_pos\<close> towards \<open>commit_pos\<close> without passing it.\<close>

lemma skip_decreases:
  fixes read committed :: u64 and n :: u32
  assumes "n \<noteq> 0" "committed > read" "\<not> committed - read < u64_of_u32 n"
  shows "unat (read + u64_of_u32 n) = unat read + unat n"
    and "unat committed - (unat read + unat n) < unat committed - unat read"
proof -
  have d: "unat (committed - read) = unat committed - unat read"
    using assms(2) by (simp add: unat_simps word_less_nat_alt)
  have "unat n \<le> unat committed - unat read"
    using assms(3) d by (simp add: word_less_nat_alt not_less)
  moreover have "0 < unat n" using assms(1) by (simp add: unat_gt_0)
  ultimately show "unat (read + u64_of_u32 n) = unat read + unat n"
    "unat committed - (unat read + unat n) < unat committed - unat read"
    using unat_u64_lt [of committed] by (simp_all add: unat_simps)
qed

termination varlen_read
proof (relation "measure (\<lambda>(handler, r, h, s). unat (cpos s) - unat (rpos s))", goal_cases)
  case (2 handler r h s read committed used read_index slot ssize psize)
  then show ?case
    using skip_decreases [of ssize "rpos s" "cpos s"]
    by (simp add: advance_read_def split: if_splits)
qed simp

declare varlen_read.simps [simp del]

text \<open>The copying overload: null output pointers are \<open>None\<close>.\<close>

record read_out =
  out_buf :: "u8 list option"
  out_size :: "u32 option"
  out_meta :: "message_meta option"

definition copy_handler :: "u32 \<Rightarrow> read_out handler" where
  "copy_handler max_size s p sz mt rsv out =
     (let out = (if out_meta out \<noteq> None then out\<lparr>out_meta := Some mt\<rparr> else out);
          out = (if out_size out \<noteq> None then out\<lparr>out_size := Some sz\<rparr> else out)
      in case out_buf out of
           None \<Rightarrow> Inr (True, out)
         | Some buf \<Rightarrow>
             if sz > 0 then
               if sz > max_size then Inr (False, out)
               else res_bind (memcpy_out buf s p (unat sz)) (\<lambda>buf.
                      Inr (True, out\<lparr>out_buf := Some buf\<rparr>))
             else Inr (True, out))"

definition varlen_read_copy ::
  "varlen_reader \<Rightarrow> segment \<Rightarrow> u32 \<Rightarrow> read_out \<Rightarrow> (bool \<times> read_out \<times> segment) res" where
  "varlen_read_copy r s max_size out = varlen_read (copy_handler max_size) r out s"

definition next_payload_size :: "varlen_reader \<Rightarrow> segment \<Rightarrow> u32 res" where
  "next_payload_size r s =
     (if cpos s \<le> rpos s then Inr 0
      else res_bind (mod_u64 (rpos s) (data_capacity (hdr s))) (\<lambda>i.
             load_payload_size s (data_ptr r + unat i)))"

text \<open>\<open>spin_until_read\<close>, with the environment's effect on the segment during each pause.\<close>

fun varlen_spin_until_read ::
  "nat \<Rightarrow> (nat \<Rightarrow> segment \<Rightarrow> segment) \<Rightarrow> nat \<Rightarrow> 'h handler \<Rightarrow> atomic_backoff \<Rightarrow> varlen_reader \<Rightarrow>
   'h \<Rightarrow> segment \<Rightarrow> ('h \<times> atomic_backoff \<times> segment) res option" where
  "varlen_spin_until_read 0 env i handler b r h s = None"
| "varlen_spin_until_read (Suc fuel) env i handler b r h s =
     (case varlen_read handler r h s of
        Inl e \<Rightarrow> Some (Inl e)
      | Inr (True, h', s') \<Rightarrow> Some (Inr (h', b, s'))
      | Inr (False, h', s') \<Rightarrow>
          varlen_spin_until_read fuel env (Suc i) handler (snd (backoff_pause b)) r h' (env i s'))"

end
