(* ===== verification/Varlen_Slots.thy ===== *)
theory Varlen_Slots
  imports Varlen_Ring
begin

text \<open>
  What the bytes of a variable-length ring mean: a run of slots between two positions, each a
  message or a span to skip, and how stores outside the run leave it alone.
\<close>

section \<open>Slots\<close>

text \<open>
  \<open>Pad n\<close> is a slot of \<open>n\<close> bytes the reader skips (wrap padding, or a message with an empty
  payload, which has the same representation); \<open>Msg n pl mt\<close> carries a payload.
\<close>

datatype vslot = Pad nat | Msg nat "u8 list" message_meta

primrec vsize :: "vslot \<Rightarrow> nat" where
  "vsize (Pad n) = n"
| "vsize (Msg n pl mt) = n"

primrec slot_bytes :: "vslot \<Rightarrow> u8 list" where
  "slot_bytes (Pad n) = le_bytes 4 n @ le_bytes 4 0"
| "slot_bytes (Msg n pl mt) =
     encode_header \<lparr>slot_size = word_of_nat n, payload_size = word_of_nat (length pl),
       slot_meta = mt\<rparr> @ pl"

primrec slot_wf :: "vslot \<Rightarrow> bool" where
  "slot_wf (Pad n) \<longleftrightarrow> 8 \<le> n \<and> n < 2 ^ 32"
| "slot_wf (Msg n pl mt) \<longleftrightarrow> 32 + length pl \<le> n \<and> n < 2 ^ 32 \<and> pl \<noteq> []"

definition slot_at :: "u8 list \<Rightarrow> nat \<Rightarrow> nat \<Rightarrow> vslot \<Rightarrow> bool" where
  "slot_at bs cap p v \<longleftrightarrow>
     slot_wf v \<and> p mod cap + vsize v \<le> cap \<and>
     mem_read bs (p mod cap) (length (slot_bytes v)) = slot_bytes v"

primrec slots_from :: "u8 list \<Rightarrow> nat \<Rightarrow> nat \<Rightarrow> vslot list \<Rightarrow> nat \<Rightarrow> bool" where
  "slots_from bs cap p [] q \<longleftrightarrow> p = q"
| "slots_from bs cap p (v # vs) q \<longleftrightarrow> slot_at bs cap p v \<and> slots_from bs cap (p + vsize v) vs q"

text \<open>Reading the slots back: an executable parser of the bytes between two positions.\<close>

fun parse_slots :: "nat \<Rightarrow> u8 list \<Rightarrow> nat \<Rightarrow> nat \<Rightarrow> nat \<Rightarrow> vslot list" where
  "parse_slots 0 bs cap p q = []"
| "parse_slots (Suc fuel) bs cap p q =
     (if q \<le> p then []
      else
        let i = p mod cap;
            n = le_value (mem_read bs i 4);
            m = le_value (mem_read bs (i + 4) 4)
        in if n = 0 then []
           else (if m = 0 then Pad n
                 else Msg n (mem_read bs (i + 32) m) (decode_meta (mem_read bs (i + 8) 24)))
                # parse_slots fuel bs cap (p + n) q)"

definition msgs_of :: "vslot list \<Rightarrow> (u8 list \<times> message_meta) list" where
  "msgs_of vs = concat (map (\<lambda>v. case v of Pad _ \<Rightarrow> [] | Msg _ pl mt \<Rightarrow> [(pl, mt)]) vs)"

lemma msgs_of_simps [simp]:
  "msgs_of [] = []"
  "msgs_of (Pad n # vs) = msgs_of vs"
  "msgs_of (Msg n pl mt # vs) = (pl, mt) # msgs_of vs"
  "msgs_of (us @ vs) = msgs_of us @ msgs_of vs"
  by (simp_all add: msgs_of_def)

lemma slot_bytes_le: "slot_wf v \<Longrightarrow> length (slot_bytes v) \<le> vsize v"
  by (cases v) auto

lemma slot_size_pos: "slot_wf v \<Longrightarrow> 0 < vsize v"
  by (cases v) auto

lemma slot_at_sizes:
  assumes "slot_at bs cap p v"
  shows "0 < vsize v" "8 \<le> vsize v" "vsize v < 2 ^ 32" "p mod cap + vsize v \<le> cap"
  using assms by (cases v; auto simp: slot_at_def)+

lemma slots_from_le: "slots_from bs cap p vs q \<Longrightarrow> p \<le> q"
  by (induction vs arbitrary: p) fastforce+

lemma slots_from_append:
  "slots_from bs cap p (us @ vs) q \<longleftrightarrow>
     (\<exists>m. slots_from bs cap p us m \<and> slots_from bs cap m vs q)"
  by (induction us arbitrary: p) auto

lemma slots_from_snoc:
  "slots_from bs cap p vs q \<Longrightarrow> slot_at bs cap q v \<Longrightarrow>
   slots_from bs cap p (vs @ [v]) (q + vsize v)"
  by (auto simp: slots_from_append)


section \<open>The members of a slot\<close>

text \<open>The first eight bytes of either kind of slot are the two sizes.\<close>

definition vpayload_length :: "vslot \<Rightarrow> nat" where
  "vpayload_length v = (case v of Pad _ \<Rightarrow> 0 | Msg _ pl _ \<Rightarrow> length pl)"

lemma slot_at_fields:
  assumes "slot_at bs cap p v"
  shows "mem_read bs (p mod cap) 4 = le_bytes 4 (vsize v)"
    and "mem_read bs (p mod cap + 4) 4 = le_bytes 4 (vpayload_length v)"
proof -
  let ?i = "p mod cap"
  have wf: "slot_wf v" and rd: "mem_read bs ?i (length (slot_bytes v)) = slot_bytes v"
    using assms by (auto simp: slot_at_def)
  have sz: "unat (word_of_nat (vsize v) :: u32) = vsize v"
    and pl: "unat (word_of_nat (vpayload_length v) :: u32) = vpayload_length v"
    using wf by (cases v; simp add: unat_of_nat vpayload_length_def)+
  have sb: "take 8 (slot_bytes v) = le_bytes 4 (vsize v) @ le_bytes 4 (vpayload_length v)"
    and l8: "8 \<le> length (slot_bytes v)"
    using sz pl by (cases v; simp add: encode_header_def vpayload_length_def)+
  have "mem_read bs ?i 4 = take 4 (take 8 (slot_bytes v))"
    using l8 mem_read_sub [of 0 4 "length (slot_bytes v)" bs ?i] by (simp add: rd min_def)
  then show "mem_read bs ?i 4 = le_bytes 4 (vsize v)" by (simp only: sb) simp
  have "mem_read bs (?i + 4) 4 = take 4 (drop 4 (take 8 (slot_bytes v)))"
    using l8 mem_read_sub [of 4 4 "length (slot_bytes v)" bs ?i] by (simp add: rd drop_take)
  then show "mem_read bs (?i + 4) 4 = le_bytes 4 (vpayload_length v)" by (simp only: sb) simp
qed

lemma slot_at_message:
  assumes "slot_at bs cap p (Msg n pl mt)"
  shows "mem_read bs (p mod cap + 8) 24 = encode_meta mt"
    and "mem_read bs (p mod cap + 32) (length pl) = pl"
proof -
  let ?i = "p mod cap"
  have rd: "mem_read bs ?i (32 + length pl) = slot_bytes (Msg n pl mt)"
    using assms by (simp add: slot_at_def)
  have "mem_read bs (?i + 8) 24 = take 24 (drop 8 (slot_bytes (Msg n pl mt)))"
    by (simp only: rd [symmetric]) (rule mem_read_sub [symmetric], simp)
  then show "mem_read bs (?i + 8) 24 = encode_meta mt" by (simp add: encode_header_def)
  have "mem_read bs (?i + 32) (length pl) = take (length pl) (drop 32 (slot_bytes (Msg n pl mt)))"
    by (simp only: rd [symmetric]) (rule mem_read_sub [symmetric], simp)
  then show "mem_read bs (?i + 32) (length pl) = pl" by simp
qed

lemma parse_slots_from:
  "slots_from bs cap p vs q \<Longrightarrow> q - p \<le> fuel \<Longrightarrow> parse_slots fuel bs cap p q = vs"
proof (induction vs arbitrary: p fuel)
  case Nil
  then show ?case by (cases fuel) auto
next
  case (Cons v vs)
  then have at: "slot_at bs cap p v" and rest: "slots_from bs cap (p + vsize v) vs q" by auto
  note S = slot_at_sizes [OF at] and F = slot_at_fields [OF at]
  have "p + vsize v \<le> q" using rest by (rule slots_from_le)
  with S Cons.prems obtain f where f: "fuel = Suc f" "q - (p + vsize v) \<le> f" "\<not> q \<le> p"
    by (cases fuel) auto
  have wf: "slot_wf v" using at by (simp add: slot_at_def)
  have n: "le_value (mem_read bs (p mod cap) 4) = vsize v"
    unfolding F(1) using S(3) by (intro le_value_bytes) simp
  have m: "le_value (mem_read bs (p mod cap + 4) 4) = vpayload_length v"
    unfolding F(2) using wf by (intro le_value_bytes) (cases v; simp add: vpayload_length_def)
  have "(if vpayload_length v = 0 then Pad (vsize v)
      else Msg (vsize v) (mem_read bs (p mod cap + 32) (vpayload_length v))
        (decode_meta (mem_read bs (p mod cap + 8) 24))) = v"
    using wf at slot_at_message [of bs cap p] by (cases v) (auto simp: vpayload_length_def)
  then show ?case
    using f S(1) Cons.IH [OF rest f(2)] by (simp add: n m Let_def split: if_splits)
qed


section \<open>Stores that leave slots alone\<close>

lemma slot_at_write:
  assumes "slot_at bs cap p v" "cap \<le> length bs" "i + length xs \<le> length bs"
    and "p mod cap + vsize v \<le> i \<or> i + length xs \<le> p mod cap"
  shows "slot_at (mem_write bs i xs) cap p v"
proof -
  have "length (slot_bytes v) \<le> vsize v" "p mod cap + vsize v \<le> cap"
    using assms(1) by (auto simp: slot_at_def slot_bytes_le)
  then have "mem_read (mem_write bs i xs) (p mod cap) (length (slot_bytes v)) =
      mem_read bs (p mod cap) (length (slot_bytes v))"
    using assms by (intro mem_read_write_disjoint) auto
  then show ?thesis using assms(1) by (simp add: slot_at_def)
qed

text \<open>
  A store inside the span of \<open>m\<close> free bytes from position \<open>h\<close> on keeps a run of slots that ends
  at or before \<open>h\<close>. The store may leave the span if the span ends with the region: that is the
  header of a wrap-padding slot shorter than a header.
\<close>

lemma slots_from_write:
  assumes "slots_from bs cap p vs q" "0 < cap" "cap \<le> length bs"
    and "i + length xs \<le> length bs" "0 < m" "q \<le> h" "h + m \<le> p + cap"
    and "h mod cap \<le> i" "i + length xs \<le> h mod cap + m \<or> h mod cap + m = cap"
  shows "slots_from (mem_write bs i xs) cap p vs q"
  using assms
proof (induction vs arbitrary: p)
  case Nil
  then show ?case by simp
next
  case (Cons v vs)
  then have at: "slot_at bs cap p v" and rest: "slots_from bs cap (p + vsize v) vs q" by auto
  have "p + vsize v \<le> q" using rest by (rule slots_from_le)
  then have "p mod cap + vsize v \<le> h mod cap \<or> h mod cap + m \<le> p mod cap"
    using Cons.prems by (intro ring_disjoint) auto
  moreover have "p mod cap < cap" using Cons.prems(2) by simp
  ultimately have "p mod cap + vsize v \<le> i \<or> i + length xs \<le> p mod cap"
    using Cons.prems(8,9) by linarith
  then have "slot_at (mem_write bs i xs) cap p v"
    using at Cons.prems by (intro slot_at_write) auto
  moreover have "slots_from (mem_write bs i xs) cap (p + vsize v) vs q"
    using rest Cons.prems by (intro Cons.IH) auto
  ultimately show ?case by simp
qed

text \<open>A header store makes a slot at its position.\<close>

lemma slot_at_new_pad:
  assumes "cap \<le> length bs" "p mod cap + 32 \<le> length bs" "p mod cap + n \<le> cap"
    and "8 \<le> n" "n < 2 ^ 32" "unat sz = n"
  shows "slot_at (mem_write bs (p mod cap)
    (encode_header \<lparr>slot_size = sz, payload_size = 0, slot_meta = mt\<rparr>)) cap p (Pad n)"
proof -
  let ?h = "encode_header \<lparr>slot_size = sz, payload_size = 0, slot_meta = mt\<rparr>"
  have "mem_read (mem_write bs (p mod cap) ?h) (p mod cap) (length ?h) = ?h"
    using assms by (intro mem_read_write_same) simp
  then have "take 8 (mem_read (mem_write bs (p mod cap) ?h) (p mod cap) 32) = take 8 ?h"
    by simp
  then have "mem_read (mem_write bs (p mod cap) ?h) (p mod cap) 8 = take 8 ?h"
    by (simp add: mem_read_def)
  then show ?thesis
    using assms by (simp add: slot_at_def encode_header_def)
qed

text \<open>
  The header of a message slot followed by its payload bytes, whatever they are, is a message
  slot; with an empty payload it is a slot to skip.
\<close>

definition new_slot :: "nat \<Rightarrow> u8 list \<Rightarrow> message_meta \<Rightarrow> vslot" where
  "new_slot n pl mt = (if pl = [] then Pad n else Msg n pl mt)"

lemma vsize_new_slot [simp]: "vsize (new_slot n pl mt) = n"
  by (simp add: new_slot_def)

lemma slot_at_new:
  assumes "p mod cap + n \<le> cap" "32 + length pl \<le> n" "n < 2 ^ 32"
    and "mem_read bs (p mod cap) 32 =
      encode_header \<lparr>slot_size = word_of_nat n, payload_size = word_of_nat (length pl),
        slot_meta = mt\<rparr>"
    and "mem_read bs (p mod cap + 32) (length pl) = pl"
  shows "slot_at bs cap p (new_slot n pl mt)"
proof (cases "pl = []")
  case True
  have "mem_read bs (p mod cap) 8 = take 8 (mem_read bs (p mod cap) 32)"
    by (simp add: mem_read_def)
  also have "\<dots> = le_bytes 4 n @ le_bytes 4 0"
    using assms(3) True by (simp only: assms(4)) (simp add: encode_header_def unat_of_nat)
  finally show ?thesis
    using assms True by (simp add: new_slot_def slot_at_def)
next
  case False
  then show ?thesis
    using assms by (simp add: new_slot_def slot_at_def mem_read_split)
qed

end
