(* ===== verification/Varlen_Channel.thy ===== *)
theory Varlen_Channel
  imports Varlen_Slots Channel
begin

text \<open>
  The invariant of the variable-length ring, the queue of messages it represents, and what each
  operation of \<open>varlen_writer\<close> and \<open>varlen_reader\<close> does to it.
\<close>

section \<open>Geometry, contents, invariant\<close>

text \<open>
  The geometry under which the ring is memory safe: slots at least 8-byte aligned (the header is
  an 8-byte aligned object), a capacity that is a multiple of the alignment, and a mapping that
  holds the data region and, past its end, the part of a wrap-padding header that does not fit:
  such a slot may be as short as one alignment unit while its header is always 32 bytes. With an
  alignment of 32 or 64 nothing beyond the data region is needed.
\<close>

definition varlen_geometry :: "segment \<Rightarrow> bool" where
  "varlen_geometry s \<longleftrightarrow>
     is_valid_data_alignment (data_alignment (hdr s)) \<and> 8 \<le> align_of s \<and>
     data_capacity (hdr s) \<noteq> 0 \<and> align_of s dvd capacity_of s \<and>
     capacity_of s \<le> length (data_bytes s) \<and>
     capacity_of s + 32 \<le> length (data_bytes s) + align_of s"

definition varlen_slots :: "segment \<Rightarrow> vslot list" where
  "varlen_slots s =
     parse_slots (unat (cpos s) - unat (rpos s)) (data_bytes s) (capacity_of s)
       (unat (rpos s)) (unat (cpos s))"

definition varlen_contents :: "segment \<Rightarrow> (u8 list \<times> message_meta) list" where
  "varlen_contents s = msgs_of (varlen_slots s)"

text \<open>
  The published bytes, from the consumer front to the commit front, are a run of slots; a
  pending reservation is one more slot, from the commit front to the write front. \<open>b\<close> is the
  number of bytes the positions can still advance without wrapping at 64 bits.
\<close>

definition varlen_inv :: "nat \<Rightarrow> varlen_writer \<Rightarrow> segment \<Rightarrow> bool" where
  "varlen_inv b w s \<longleftrightarrow>
     varlen_geometry s \<and> data_ptr w = sizeof_control_block \<and>
     slots_from (data_bytes s) (capacity_of s) (unat (rpos s)) (varlen_slots s) (unat (cpos s)) \<and>
     (if vpending w
      then last_position w = cpos s \<and>
        (\<exists>v. slot_at (data_bytes s) (capacity_of s) (unat (cpos s)) v \<and>
             unat (wpos s) = unat (cpos s) + vsize v)
      else unat (wpos s) = unat (cpos s)) \<and>
     align_of s dvd unat (wpos s) \<and>
     unat (wpos s) \<le> unat (rpos s) + capacity_of s \<and>
     unat (wpos s) + b < 2 ^ 64"

lemma varlen_slots_eq:
  assumes "slots_from (data_bytes s) (capacity_of s) (unat (rpos s)) vs (unat (cpos s))"
  shows "varlen_slots s = vs"
  unfolding varlen_slots_def using assms by (rule parse_slots_from) simp

lemma varlen_geometryD:
  assumes "varlen_geometry s"
  shows "is_valid_data_alignment (data_alignment (hdr s))" "8 \<le> align_of s"
    and "data_capacity (hdr s) \<noteq> 0" "0 < capacity_of s" "align_of s dvd capacity_of s"
    and "capacity_of s \<le> length (data_bytes s)"
    and "capacity_of s + 32 \<le> length (data_bytes s) + align_of s"
  using assms by (auto simp: varlen_geometry_def unat_gt_0)

lemma varlen_geometry_update_meta [simp]:
  "varlen_geometry (update_meta f s) = varlen_geometry s"
  "varlen_geometry (signal_commit s) = varlen_geometry s"
  "varlen_geometry (signal_read s) = varlen_geometry s"
  by (simp_all add: varlen_geometry_def)

lemma varlen_geometry_data [simp]:
  "length bs = length (data_bytes s) \<Longrightarrow> varlen_geometry (s\<lparr>data_bytes := bs\<rparr>) = varlen_geometry s"
  by (simp add: varlen_geometry_def)

lemma varlen_invD:
  assumes "varlen_inv b w s"
  shows "varlen_geometry s" "data_ptr w = sizeof_control_block"
    and "slots_from (data_bytes s) (capacity_of s) (unat (rpos s)) (varlen_slots s) (unat (cpos s))"
    and "align_of s dvd unat (wpos s)"
    and "unat (rpos s) \<le> unat (cpos s)" "unat (cpos s) \<le> unat (wpos s)"
    and "unat (wpos s) \<le> unat (rpos s) + capacity_of s"
    and "unat (wpos s) + b < 2 ^ 64"
    and "\<not> vpending w \<Longrightarrow> unat (wpos s) = unat (cpos s)"
    and "vpending w \<Longrightarrow> last_position w = cpos s"
  using assms slots_from_le by (fastforce simp: varlen_inv_def split: if_splits)+

lemma varlen_inv_pendingI:
  assumes "varlen_geometry s" "data_ptr w = sizeof_control_block" "vpending w"
    and "slots_from (data_bytes s) (capacity_of s) (unat (rpos s)) vs (unat (cpos s))"
    and "last_position w = cpos s"
    and "slot_at (data_bytes s) (capacity_of s) (unat (cpos s)) v"
    and "unat (wpos s) = unat (cpos s) + vsize v"
    and "align_of s dvd unat (wpos s)" "unat (wpos s) \<le> unat (rpos s) + capacity_of s"
    and "unat (wpos s) + b < 2 ^ 64"
  shows "varlen_inv b w s"
  using assms varlen_slots_eq [OF assms(4)] by (auto simp: varlen_inv_def)

lemma varlen_inv_less: "varlen_inv (b + c) w s \<Longrightarrow> varlen_inv b w s"
  by (auto simp: varlen_inv_def)

text \<open>
  The free span at the write front: it is a positive multiple of the alignment, and a header
  stored there stays inside the mapping.
\<close>

lemma head_room:
  assumes "varlen_inv b w s"
  shows "unat (wpos s) mod capacity_of s + align_of s \<le> capacity_of s"
    and "unat (wpos s) mod capacity_of s + 32 \<le> length (data_bytes s)"
    and "8 \<le> capacity_of s - unat (wpos s) mod capacity_of s"
proof -
  note D = varlen_invD [OF assms] and G = varlen_geometryD [OF varlen_invD(1) [OF assms]]
  show a: "unat (wpos s) mod capacity_of s + align_of s \<le> capacity_of s"
    using D G by (intro slot_contiguous) auto
  show "unat (wpos s) mod capacity_of s + 32 \<le> length (data_bytes s)" using a G(7) by linarith
  show "8 \<le> capacity_of s - unat (wpos s) mod capacity_of s" using a G(2) by linarith
qed


section \<open>The reservation loop\<close>

text \<open>What the padding branch leaves: the dummy header published up to the end of the region.\<close>

definition padded_segment :: "segment \<Rightarrow> segment" where
  "padded_segment s =
     (let i = wpos s mod data_capacity (hdr s);
          pad = data_capacity (hdr s) - i;
          s1 = update_meta (\<lambda>m. m\<lparr>write_pos := wpos s + pad\<rparr>) s;
          s2 = s1\<lparr>data_bytes := mem_write (data_bytes s) (unat i)
                 (encode_header \<lparr>slot_size = u32_of_u64 pad, payload_size = 0,
                    slot_meta = default_meta\<rparr>)\<rparr>
      in signal_commit (update_meta (\<lambda>m. m\<lparr>commit_pos := wpos s + pad\<rparr>) s2))"

text \<open>What the reserving branch leaves: the header in place, nothing published.\<close>

definition headed_segment :: "u32 \<Rightarrow> u32 \<Rightarrow> message_meta \<Rightarrow> segment \<Rightarrow> segment" where
  "headed_segment needed psize mt s =
     (update_meta (\<lambda>m. m\<lparr>write_pos := wpos s + u64_of_u32 needed\<rparr>) s)
       \<lparr>data_bytes := mem_write (data_bytes s) (unat (wpos s) mod capacity_of s)
          (encode_header \<lparr>slot_size = needed, payload_size = psize, slot_meta = mt\<rparr>)\<rparr>"

definition headed_writer :: "varlen_writer \<Rightarrow> segment \<Rightarrow> varlen_writer" where
  "headed_writer w s = w\<lparr>vpending := True, last_position := wpos s\<rparr>"

definition headed_result :: "segment \<Rightarrow> reserve_result" where
  "headed_result s =
     \<lparr>status = rs_ok,
      payload = Some (sizeof_control_block + (unat (wpos s) mod capacity_of s + 32)),
      position = wpos s\<rparr>"

lemma used_needed:
  assumes "varlen_inv (b + capacity_of s) w s" "unat n \<le> capacity_of s"
  shows "wpos s - rpos s + u64_of_u32 n > data_capacity (hdr s) \<longleftrightarrow>
    unat (wpos s) - unat (rpos s) + unat n > capacity_of s"
proof -
  note D = varlen_invD [OF assms(1)]
  have d: "unat (wpos s - rpos s) = unat (wpos s) - unat (rpos s)"
    using D(5,6) by (simp add: unat_simps)
  have "unat (wpos s) - unat (rpos s) + unat n < 2 ^ 64"
    using D(8) assms(2) by linarith
  then have "unat (wpos s - rpos s + u64_of_u32 n) = unat (wpos s) - unat (rpos s) + unat n"
    using d by (simp add: unat_simps)
  then show ?thesis by (simp add: word_less_nat_alt)
qed

lemma pad_value:
  assumes "varlen_inv b w s"
  shows "unat (data_capacity (hdr s) - wpos s mod data_capacity (hdr s)) =
    capacity_of s - unat (wpos s) mod capacity_of s"
proof -
  have "unat (wpos s) mod capacity_of s \<le> capacity_of s"
    using head_room(1) [OF assms] by linarith
  then show ?thesis by (simp add: unat_simps)
qed

lemma loop_full:
  assumes "varlen_inv (b + capacity_of s) w s" "unat n \<le> capacity_of s"
    and "unat (wpos s) - unat (rpos s) + unat n > capacity_of s"
  shows "varlen_reserve_loop n psize mt (wpos s) w s = Some (Inr (reserve_failed rs_full, w, s))"
  using used_needed [OF assms(1,2)] assms(3)
  by (subst varlen_reserve_loop.simps) (simp add: Let_def)

lemma loop_reserve:
  assumes inv: "varlen_inv (b + capacity_of s) w s" and n: "unat n \<le> capacity_of s"
    and room: "unat (wpos s) - unat (rpos s) + unat n \<le> capacity_of s"
    and fit: "unat n \<le> capacity_of s - unat (wpos s) mod capacity_of s"
  shows "varlen_reserve_loop n psize mt (wpos s) w s =
    Some (Inr (headed_result s, headed_writer w s, headed_segment n psize mt s))"
proof -
  note D = varlen_invD [OF inv] and G = varlen_geometryD [OF varlen_invD(1) [OF inv]]
  note R = head_room [OF inv]
  have 1: "\<not> wpos s - rpos s + u64_of_u32 n > data_capacity (hdr s)"
    using used_needed [OF inv n] room by simp
  have 2: "\<not> data_capacity (hdr s) - wpos s mod data_capacity (hdr s) < u64_of_u32 n"
    using fit pad_value [OF inv] by (simp add: word_less_nat_alt)
  show ?thesis
    using 1 2 D(2) G(3) R(2)
    by (subst varlen_reserve_loop.simps)
      (simp add: Let_def store_header_def headed_result_def headed_writer_def headed_segment_def
        unat_simps varlen_slot_header_size_def add.assoc)
qed

lemma loop_pad:
  assumes inv: "varlen_inv (b + capacity_of s) w s" and n: "unat n \<le> capacity_of s"
    and room: "unat (wpos s) - unat (rpos s) + unat n \<le> capacity_of s"
    and tight: "capacity_of s - unat (wpos s) mod capacity_of s < unat n"
  shows "varlen_reserve_loop n psize mt (wpos s) w s =
    varlen_reserve_loop n psize mt (wpos (padded_segment s)) w (padded_segment s)"
proof -
  note D = varlen_invD [OF inv] and G = varlen_geometryD [OF varlen_invD(1) [OF inv]]
  note R = head_room [OF inv]
  have 1: "\<not> wpos s - rpos s + u64_of_u32 n > data_capacity (hdr s)"
    using used_needed [OF inv n] room by simp
  have 2: "data_capacity (hdr s) - wpos s mod data_capacity (hdr s) < u64_of_u32 n"
    using tight pad_value [OF inv] by (simp add: word_less_nat_alt)
  show ?thesis
    using 1 2 D(2) G(3) R(2)
    by (subst varlen_reserve_loop.simps)
      (simp add: Let_def store_header_def padded_segment_def unat_simps)
qed


subsection \<open>Padding keeps the messages\<close>

lemma padded_frame [simp]:
  "rpos (padded_segment s) = rpos s"
  "cpos (padded_segment s) = wpos (padded_segment s)"
  "data_capacity (hdr (padded_segment s)) = data_capacity (hdr s)"
  "data_alignment (hdr (padded_segment s)) = data_alignment (hdr s)"
  by (simp_all add: padded_segment_def Let_def)

lemma padded_wpos:
  assumes "varlen_inv (b + capacity_of s) w s"
  shows "unat (wpos (padded_segment s)) =
      unat (wpos s) + (capacity_of s - unat (wpos s) mod capacity_of s)"
    and "unat (wpos (padded_segment s)) mod capacity_of s = 0"
proof -
  let ?p = "capacity_of s - unat (wpos s) mod capacity_of s"
  have "unat (wpos s) + ?p < 2 ^ 64" using varlen_invD(8) [OF assms] by linarith
  then show e: "unat (wpos (padded_segment s)) = unat (wpos s) + ?p"
    using pad_value [OF assms] by (simp add: padded_segment_def Let_def unat_simps)
  have "unat (wpos s) mod capacity_of s + ?p = capacity_of s"
    using head_room(1) [OF assms] by linarith
  then have "(unat (wpos s) mod capacity_of s + ?p) mod capacity_of s = 0" by simp
  then show "unat (wpos (padded_segment s)) mod capacity_of s = 0"
    by (simp add: e mod_add_left_eq)
qed

lemma padded_data:
  assumes "varlen_inv b w s"
  shows "data_bytes (padded_segment s) =
    mem_write (data_bytes s) (unat (wpos s) mod capacity_of s)
      (encode_header \<lparr>slot_size = u32_of_u64 (data_capacity (hdr s) - wpos s mod data_capacity (hdr s)),
         payload_size = 0, slot_meta = default_meta\<rparr>)"
  by (simp add: padded_segment_def Let_def unat_simps)

lemma padded_slots:
  assumes inv: "varlen_inv (b + capacity_of s) w s" and idle: "\<not> vpending w"
    and room: "unat (wpos s) - unat (rpos s) + unat n \<le> capacity_of s"
    and tight: "capacity_of s - unat (wpos s) mod capacity_of s < unat (n :: u32)"
  shows "slots_from (data_bytes (padded_segment s)) (capacity_of s) (unat (rpos s))
      (varlen_slots s @ [Pad (capacity_of s - unat (wpos s) mod capacity_of s)])
      (unat (wpos (padded_segment s)))"
proof -
  let ?i = "unat (wpos s) mod capacity_of s" and ?p = "capacity_of s - unat (wpos s) mod capacity_of s"
  let ?h = "encode_header \<lparr>slot_size = u32_of_u64 (data_capacity (hdr s) - wpos s mod data_capacity (hdr s)),
         payload_size = 0, slot_meta = default_meta\<rparr>"
  note D = varlen_invD [OF inv] and G = varlen_geometryD [OF varlen_invD(1) [OF inv]]
  note R = head_room [OF inv]
  have cw: "unat (cpos s) = unat (wpos s)" using D(9) idle by simp
  have p32: "?p < 2 ^ 32" using tight unat_u32_lt [of n] by linarith
  have "slots_from (mem_write (data_bytes s) ?i ?h) (capacity_of s) (unat (rpos s))
      (varlen_slots s) (unat (cpos s))"
    using D(3) by (rule slots_from_write [where h = "unat (wpos s)" and m = ?p])
      (use D G R cw room tight in auto)
  moreover have "slot_at (mem_write (data_bytes s) ?i ?h) (capacity_of s) (unat (wpos s)) (Pad ?p)"
    using G R p32 pad_value [OF inv] by (intro slot_at_new_pad) (auto simp: unat_u32_of_u64_small)
  ultimately have "slots_from (mem_write (data_bytes s) ?i ?h) (capacity_of s) (unat (rpos s))
      (varlen_slots s @ [Pad ?p]) (unat (wpos s) + vsize (Pad ?p))"
    using cw by (intro slots_from_snoc) auto
  then show ?thesis
    using padded_wpos(1) [OF inv] padded_data [OF inv] by simp
qed

lemma padded_keeps:
  assumes inv: "varlen_inv (b + capacity_of s) w s" and idle: "\<not> vpending w"
    and room: "unat (wpos s) - unat (rpos s) + unat n \<le> capacity_of s"
    and tight: "capacity_of s - unat (wpos s) mod capacity_of s < unat (n :: u32)"
  shows "varlen_inv b w (padded_segment s)" "varlen_contents (padded_segment s) = varlen_contents s"
proof -
  let ?s = "padded_segment s"
  note D = varlen_invD [OF inv] and G = varlen_geometryD [OF varlen_invD(1) [OF inv]]
  note W = padded_wpos [OF inv] and S = padded_slots [OF inv idle room tight]
  have vs: "varlen_slots ?s = varlen_slots s @ [Pad (capacity_of s - unat (wpos s) mod capacity_of s)]"
    using S by (intro varlen_slots_eq) simp
  then show "varlen_contents ?s = varlen_contents s" by (simp add: varlen_contents_def)
  have len: "length (data_bytes ?s) = length (data_bytes s)"
    using head_room(2) [OF inv] by (simp add: padded_data [OF inv])
  have "varlen_geometry ?s"
    using D(1) len by (simp add: varlen_geometry_def)
  moreover have "align_of s dvd unat (wpos ?s)"
    using W(1) D(4) room_to_end_dvd [OF G(4,5) D(4)] by simp
  moreover have "unat (wpos ?s) \<le> unat (rpos s) + capacity_of s" "unat (wpos ?s) + b < 2 ^ 64"
    using W(1) D(5,6,8) room tight by linarith+
  ultimately show "varlen_inv b w ?s"
    using S vs D(2) idle by (simp add: varlen_inv_def)
qed


subsection \<open>A reservation keeps the messages\<close>

lemma headed_frame [simp]:
  "rpos (headed_segment n psize mt s) = rpos s"
  "cpos (headed_segment n psize mt s) = cpos s"
  "data_capacity (hdr (headed_segment n psize mt s)) = data_capacity (hdr s)"
  "data_alignment (hdr (headed_segment n psize mt s)) = data_alignment (hdr s)"
  by (simp_all add: headed_segment_def)

lemma headed_wpos:
  assumes "varlen_inv (b + capacity_of s) w s" "unat n \<le> capacity_of s"
  shows "unat (wpos (headed_segment n psize mt s)) = unat (wpos s) + unat n"
  using varlen_invD(8) [OF assms(1)] assms(2) by (simp add: headed_segment_def unat_simps)

text \<open>
  The state between a successful reservation and its commit, with the payload bytes as they are:
  the published slots are untouched, and the slot at the commit front is the one described by
  the header and the current payload bytes.
\<close>

definition reserved_state ::
  "u32 \<Rightarrow> u32 \<Rightarrow> message_meta \<Rightarrow> vslot list \<Rightarrow> nat \<Rightarrow> varlen_writer \<Rightarrow> segment \<Rightarrow> bool" where
  "reserved_state n psize mt vs b w s \<longleftrightarrow>
     varlen_inv b w s \<and> vpending w \<and> varlen_slots s = vs \<and>
     32 + unat psize \<le> unat n \<and>
     unat (cpos s) mod capacity_of s + unat n \<le> capacity_of s \<and>
     unat (wpos s) = unat (cpos s) + unat n \<and>
     mem_read (data_bytes s) (unat (cpos s) mod capacity_of s) 32 =
       encode_header \<lparr>slot_size = n, payload_size = psize, slot_meta = mt\<rparr>"

definition reserved_payload :: "u32 \<Rightarrow> segment \<Rightarrow> u8 list" where
  "reserved_payload psize s =
     mem_read (data_bytes s) (unat (cpos s) mod capacity_of s + 32) (unat psize)"

lemma slot_at_reserved:
  assumes "p mod cap + unat n \<le> cap" "32 + unat psize \<le> unat (n :: u32)" "cap \<le> length bs"
    and "mem_read bs (p mod cap) 32 =
      encode_header \<lparr>slot_size = n, payload_size = psize, slot_meta = mt\<rparr>"
  shows "slot_at bs cap p
    (new_slot (unat n) (mem_read bs (p mod cap + 32) (unat (psize :: u32))) mt)"
proof -
  have "length (mem_read bs (p mod cap + 32) (unat psize)) = unat psize"
    using assms by (intro length_mem_read) linarith
  then show ?thesis
    using assms unat_u32_lt [of n] by (intro slot_at_new) auto
qed

lemma headed_keeps:
  assumes inv: "varlen_inv (b + capacity_of s) w s" and idle: "\<not> vpending w"
    and n: "unat n \<le> capacity_of s" "align_of s dvd unat n" "32 + unat psize \<le> unat n"
    and room: "unat (wpos s) - unat (rpos s) + unat n \<le> capacity_of s"
    and fit: "unat n \<le> capacity_of s - unat (wpos s) mod capacity_of s"
  shows "reserved_state n psize mt (varlen_slots s) b (headed_writer w s) (headed_segment n psize mt s)"
proof -
  let ?s = "headed_segment n psize mt s" and ?i = "unat (wpos s) mod capacity_of s"
  let ?h = "encode_header \<lparr>slot_size = n, payload_size = psize, slot_meta = mt\<rparr>"
  note D = varlen_invD [OF inv] and G = varlen_geometryD [OF varlen_invD(1) [OF inv]]
  note R = head_room [OF inv] and W = headed_wpos [OF inv n(1), of psize mt]
  have cw: "unat (cpos s) = unat (wpos s)" using D(9) idle by simp
  have bs: "data_bytes ?s = mem_write (data_bytes s) ?i ?h" by (simp add: headed_segment_def)
  have S: "slots_from (data_bytes ?s) (capacity_of s) (unat (rpos s)) (varlen_slots s) (unat (cpos s))"
    unfolding bs
    using D(3) by (rule slots_from_write [where h = "unat (wpos s)" and m = "unat n"])
      (use D G R cw room n in auto)
  have vs: "varlen_slots ?s = varlen_slots s" using S by (intro varlen_slots_eq) simp
  have len: "length (data_bytes ?s) = length (data_bytes s)" using R(2) by (simp add: bs)
  have in_i: "?i + unat n \<le> capacity_of s" using fit R(1) by linarith
  have hd: "mem_read (data_bytes ?s) ?i 32 = ?h"
    unfolding bs using R(2) mem_read_write_same [of ?i ?h "data_bytes s"] by simp
  have "slot_at (data_bytes ?s) (capacity_of s) (unat (wpos s))
      (new_slot (unat n) (mem_read (data_bytes ?s) (?i + 32) (unat psize)) mt)"
    using in_i n(3) G(6) len hd by (intro slot_at_reserved) auto
  moreover have "varlen_geometry ?s" using D(1) len by (simp add: varlen_geometry_def)
  moreover have "unat (wpos ?s) \<le> unat (rpos s) + capacity_of s" "unat (wpos ?s) + b < 2 ^ 64"
    using W D(5,6,8) room n(1) by linarith+
  moreover have "cpos s = wpos s" using cw by (simp add: word_unat_eq_iff)
  ultimately have "varlen_inv b (headed_writer w s) ?s"
    using S D(2,4) n(2) W
    by (intro varlen_inv_pendingI [where v = "new_slot (unat n)
        (mem_read (data_bytes ?s) (?i + 32) (unat psize)) mt" and vs = "varlen_slots s"])
      (simp_all add: headed_writer_def)
  then show ?thesis
    using vs n(3) W cw in_i hd by (simp add: reserved_state_def headed_writer_def)
qed


section \<open>\<open>try_reserve\<close>\<close>

text \<open>The bytes a message of \<open>psize\<close> payload bytes takes, when the 32-bit sum does not wrap.\<close>

lemma needed_bytes_bounds:
  assumes "varlen_geometry s" "32 + unat psize + align_of s \<le> 2 ^ 32"
  shows "32 + unat psize \<le> unat (needed_bytes psize s)"
    and "unat (needed_bytes psize s) < 32 + unat psize + align_of s"
    and "align_of s dvd unat (needed_bytes psize s)"
proof -
  note G = varlen_geometryD [OF assms(1)]
  have v: "unat (varlen_slot_header_size + psize) = 32 + unat psize"
    using assms(2) G(2) by (simp add: varlen_slot_header_size_def unat_word_ariths)
  show "32 + unat psize \<le> unat (needed_bytes psize s)"
    "unat (needed_bytes psize s) < 32 + unat psize + align_of s"
    "align_of s dvd unat (needed_bytes psize s)"
    using align_up_u32_bounds [OF G(1), of "varlen_slot_header_size + psize"] assms(2)
    by (simp_all add: needed_bytes_def v)
qed

text \<open>
  The segment on which the last round of the loop decides: the one after the wrap padding when
  the message does not fit before the end of the region.
\<close>

definition reserve_base :: "nat \<Rightarrow> segment \<Rightarrow> segment" where
  "reserve_base n s =
     (if capacity_of s - unat (wpos s) mod capacity_of s < n then padded_segment s else s)"

lemma reserve_base_frame [simp]:
  "rpos (reserve_base n s) = rpos s" "data_capacity (hdr (reserve_base n s)) = data_capacity (hdr s)"
  "data_alignment (hdr (reserve_base n s)) = data_alignment (hdr s)"
  by (simp_all add: reserve_base_def)

lemma reserve_base_keeps:
  assumes "varlen_inv (b + capacity_of s) w s" "\<not> vpending w"
    and "unat (wpos s) - unat (rpos s) + unat (n :: u32) \<le> capacity_of s"
  shows "varlen_inv b w (reserve_base (unat n) s)"
    and "varlen_contents (reserve_base (unat n) s) = varlen_contents s"
  using padded_keeps [OF assms(1,2,3)] varlen_inv_less [OF assms(1)]
  by (auto simp: reserve_base_def)

lemma reserve_base_fits:
  assumes "varlen_inv (b + capacity_of s) w s" "unat (n :: u32) \<le> capacity_of s"
  shows "unat n \<le> capacity_of s - unat (wpos (reserve_base (unat n) s)) mod capacity_of s"
  using padded_wpos(2) [OF assms(1)] assms(2) by (simp add: reserve_base_def)

text \<open>
  \<open>try_reserve\<close> always returns, after at most two rounds of its loop, and its result is
  determined by the fronts alone.
\<close>

lemma varlen_try_reserve_eq:
  fixes psize :: u32
  assumes inv: "varlen_inv (b + 2 * capacity_of s) w s" and idle: "\<not> vpending w"
  defines "n \<equiv> needed_bytes psize s"
  defines "s1 \<equiv> reserve_base (unat n) s"
  shows "varlen_try_reserve w s psize mt =
    Some (Inr
      (if capacity_of s < unat n then (reserve_failed rs_message_too_large, w, s)
       else if capacity_of s < unat (wpos s) - unat (rpos s) + unat n
       then (reserve_failed rs_full, w, s)
       else if capacity_of s < unat (wpos s1) - unat (rpos s) + unat n
       then (reserve_failed rs_full, w, s1)
       else (headed_result s1, headed_writer w s1, headed_segment n psize mt s1)))"
proof -
  have inv': "varlen_inv (b + capacity_of s + capacity_of s) w s" using inv by (simp add: add.assoc mult_2)
  have big: "u64_of_u32 n > data_capacity (hdr s) \<longleftrightarrow> capacity_of s < unat n"
    by (simp add: word_less_nat_alt)
  have tr: "varlen_try_reserve w s psize mt =
      (if capacity_of s < unat n then Some (Inr (reserve_failed rs_message_too_large, w, s))
       else varlen_reserve_loop n psize mt (wpos s) w s)"
    using idle big by (simp add: varlen_try_reserve_def n_def)
  show ?thesis
  proof (cases "capacity_of s < unat n \<or> capacity_of s < unat (wpos s) - unat (rpos s) + unat n")
    case True
    then show ?thesis using tr loop_full [OF inv', of n psize mt] by auto
  next
    case False
    then have n: "unat n \<le> capacity_of s"
      and room: "unat (wpos s) - unat (rpos s) + unat n \<le> capacity_of s" by auto
    have base: "varlen_reserve_loop n psize mt (wpos s) w s =
        varlen_reserve_loop n psize mt (wpos s1) w s1"
      using loop_pad [OF inv' n room] by (simp add: s1_def reserve_base_def)
    have i1: "varlen_inv (b + capacity_of s1) w s1"
      using reserve_base_keeps(1) [OF inv' idle room] by (simp add: s1_def)
    have "unat n \<le> capacity_of s1 - unat (wpos s1) mod capacity_of s1"
      using reserve_base_fits [OF inv' n] by (simp add: s1_def)
    then show ?thesis
      using tr base False n loop_full [OF i1, of n psize mt] loop_reserve [OF i1, of n psize mt]
      by (simp add: s1_def)
  qed
qed

lemma varlen_reserved_state:
  fixes psize :: u32
  assumes inv: "varlen_inv (b + 2 * capacity_of s) w s" and idle: "\<not> vpending w"
    and psize: "32 + unat psize + align_of s \<le> 2 ^ 32"
  defines "n \<equiv> needed_bytes psize s"
  defines "s1 \<equiv> reserve_base (unat n) s"
  assumes room: "unat (wpos s) - unat (rpos s) + unat n \<le> capacity_of s"
    "unat (wpos s1) - unat (rpos s) + unat n \<le> capacity_of s"
  shows "reserved_state n psize mt (varlen_slots s1) b (headed_writer w s1)
      (headed_segment n psize mt s1)"
    and "msgs_of (varlen_slots s1) = varlen_contents s"
proof -
  have inv': "varlen_inv (b + capacity_of s + capacity_of s) w s" using inv by (simp add: add.assoc mult_2)
  note N = needed_bytes_bounds [OF varlen_invD(1) [OF inv] psize, folded n_def]
  have n: "unat n \<le> capacity_of s" using room(1) by linarith
  note K = reserve_base_keeps [OF inv' idle room(1), folded s1_def]
  show "msgs_of (varlen_slots s1) = varlen_contents s"
    using K(2) by (simp add: varlen_contents_def)
  show "reserved_state n psize mt (varlen_slots s1) b (headed_writer w s1)
      (headed_segment n psize mt s1)"
    using K(1) idle N room n reserve_base_fits [OF inv' n]
    by (intro headed_keeps) (simp_all add: s1_def)
qed


section \<open>Filling the payload and committing\<close>

definition fill_payload :: "segment \<Rightarrow> u8 list \<Rightarrow> segment" where
  "fill_payload s xs =
     s\<lparr>data_bytes := mem_write (data_bytes s) (unat (cpos s) mod capacity_of s + 32) xs\<rparr>"

lemma fill_payload_hdr [simp]: "hdr (fill_payload s xs) = hdr s"
  by (simp add: fill_payload_def)

text \<open>
  While a reservation is pending, stores into its payload change neither the published slots nor
  the pending header.
\<close>

lemma fill_payload_keeps:
  assumes R: "reserved_state n psize mt vs b w s" and xs: "length xs \<le> unat psize"
  shows "reserved_state n psize mt vs b w (fill_payload s xs)"
    and "reserved_payload psize (fill_payload s xs) = xs @ drop (length xs) (reserved_payload psize s)"
proof -
  let ?i = "unat (cpos s) mod capacity_of s" and ?s = "fill_payload s xs"
  have inv: "varlen_inv b w s" and pw: "vpending w" and vs: "varlen_slots s = vs"
    and n: "32 + unat psize \<le> unat n" "?i + unat n \<le> capacity_of s"
    and wc: "unat (wpos s) = unat (cpos s) + unat n"
    and h: "mem_read (data_bytes s) ?i 32 =
      encode_header \<lparr>slot_size = n, payload_size = psize, slot_meta = mt\<rparr>"
    using R by (auto simp: reserved_state_def)
  note D = varlen_invD [OF inv] and G = varlen_geometryD [OF varlen_invD(1) [OF inv]]
  have bs: "data_bytes ?s = mem_write (data_bytes s) (?i + 32) xs" by (simp add: fill_payload_def)
  have fits: "?i + 32 + length xs \<le> length (data_bytes s)" using n xs G(6) by linarith
  have len: "length (data_bytes ?s) = length (data_bytes s)" using fits by (simp add: bs)
  have S: "slots_from (data_bytes ?s) (capacity_of s) (unat (rpos s)) vs (unat (cpos s))"
    unfolding bs using D(3)[unfolded vs]
    by (rule slots_from_write [where h = "unat (cpos s)" and m = "unat n"])
      (use D G n wc xs fits in auto)
  have h': "mem_read (data_bytes ?s) ?i 32 =
      encode_header \<lparr>slot_size = n, payload_size = psize, slot_meta = mt\<rparr>"
    unfolding bs using h fits n G(6) by (subst mem_read_write_disjoint) auto
  have "varlen_geometry ?s" using D(1) len by (simp add: varlen_geometry_def)
  moreover have "slot_at (data_bytes ?s) (capacity_of s) (unat (cpos s))
      (new_slot (unat n) (mem_read (data_bytes ?s) (?i + 32) (unat psize)) mt)"
    using n G(6) len h' by (intro slot_at_reserved) auto
  ultimately have "varlen_inv b w ?s"
    using S D pw wc
    by (intro varlen_inv_pendingI [where v = "new_slot (unat n)
        (mem_read (data_bytes ?s) (?i + 32) (unat psize)) mt" and vs = vs]) simp_all
  moreover have "varlen_slots ?s = vs" using S by (intro varlen_slots_eq) simp
  ultimately show "reserved_state n psize mt vs b w ?s"
    using pw n wc h' by (simp add: reserved_state_def)
  show "reserved_payload psize ?s = xs @ drop (length xs) (reserved_payload psize s)"
    using mem_read_write_prefix [of "?i + 32" "unat psize" "data_bytes s" xs] n xs G(6)
    by (simp add: reserved_payload_def bs)
qed

definition committed_segment :: "u32 \<Rightarrow> segment \<Rightarrow> segment" where
  "committed_segment n s =
     signal_commit (update_meta (\<lambda>m. m\<lparr>commit_pos := cpos s + u64_of_u32 n\<rparr>) s)"

lemma committed_frame [simp]:
  "rpos (committed_segment n s) = rpos s" "wpos (committed_segment n s) = wpos s"
  "data_bytes (committed_segment n s) = data_bytes s"
  "data_capacity (hdr (committed_segment n s)) = data_capacity (hdr s)"
  "data_alignment (hdr (committed_segment n s)) = data_alignment (hdr s)"
  by (simp_all add: committed_segment_def)

text \<open>Committing the pending position publishes exactly that slot.\<close>

lemma varlen_commit_eq:
  assumes R: "reserved_state n psize mt vs b w s"
  shows "varlen_commit w s (cpos s) = Inr (w\<lparr>vpending := False\<rparr>, committed_segment n s)"
    and "varlen_inv b (w\<lparr>vpending := False\<rparr>) (committed_segment n s)"
    and "varlen_contents (committed_segment n s) =
      msgs_of vs @ (if psize = 0 then [] else [(reserved_payload psize s, mt)])"
proof -
  let ?i = "unat (cpos s) mod capacity_of s" and ?s = "committed_segment n s"
  let ?v = "new_slot (unat n) (reserved_payload psize s) mt"
  have inv: "varlen_inv b w s" and pw: "vpending w" and vs: "varlen_slots s = vs"
    and n: "32 + unat psize \<le> unat n" "?i + unat n \<le> capacity_of s"
    and wc: "unat (wpos s) = unat (cpos s) + unat n"
    and h: "mem_read (data_bytes s) ?i 32 =
      encode_header \<lparr>slot_size = n, payload_size = psize, slot_meta = mt\<rparr>"
    using R by (auto simp: reserved_state_def)
  note D = varlen_invD [OF inv] and G = varlen_geometryD [OF varlen_invD(1) [OF inv]]
  have in_i: "?i + 32 \<le> length (data_bytes s)" using n G(6) by linarith
  show "varlen_commit w s (cpos s) = Inr (w\<lparr>vpending := False\<rparr>, ?s)"
    using pw D(2,10) G(3) load_header_members(1) [OF h in_i]
    by (simp add: varlen_commit_def committed_segment_def unat_simps)
  have "unat (cpos s) + unat n < 2 ^ 64" using wc D(8) by linarith
  then have cp: "unat (cpos ?s) = unat (wpos s)"
    using wc by (simp add: committed_segment_def unat_simps)
  have at: "slot_at (data_bytes s) (capacity_of s) (unat (cpos s)) ?v"
    unfolding reserved_payload_def using n G(6) h by (intro slot_at_reserved) auto
  then have S: "slots_from (data_bytes s) (capacity_of s) (unat (rpos s)) (vs @ [?v]) (unat (wpos s))"
    using slots_from_snoc [OF D(3) at] wc vs by simp
  then have vs': "varlen_slots ?s = vs @ [?v]" using cp by (intro varlen_slots_eq) simp
  have "varlen_geometry ?s" using D(1) by (simp add: committed_segment_def)
  then show "varlen_inv b (w\<lparr>vpending := False\<rparr>) ?s"
    using S vs' cp D by (simp add: varlen_inv_def)
  have "reserved_payload psize s = [] \<longleftrightarrow> psize = 0"
  proof -
    have "length (reserved_payload psize s) = unat psize"
      unfolding reserved_payload_def using n G(6) by (intro length_mem_read) linarith
    then show ?thesis by (metis length_0_conv unat_eq_zero)
  qed
  then show "varlen_contents ?s =
      msgs_of vs @ (if psize = 0 then [] else [(reserved_payload psize s, mt)])"
    using vs' by (simp add: varlen_contents_def new_slot_def)
qed

end
