(* ===== verification/Varlen_Delivery.thy ===== *)
theory Varlen_Delivery
  imports Varlen_Channel
begin

text \<open>
  The single-shot \<open>write\<close> of the variable-length ring, its readers, and the ring as a message
  channel. Builds on the reservation and commit lemmas of \<open>Varlen_Channel\<close>.
\<close>

section \<open>\<open>write\<close>\<close>

text \<open>
  The bytes a message takes from the ring: its slot, and the wrap padding in front of it when
  the slot does not fit before the end of the region.
\<close>

definition span_bytes :: "u32 \<Rightarrow> segment \<Rightarrow> nat" where
  "span_bytes psize s =
     (let n = unat (needed_bytes psize s);
          to_end = capacity_of s - unat (wpos s) mod capacity_of s
      in if to_end < n then to_end + n else n)"

definition varlen_accepts :: "u32 \<Rightarrow> segment \<Rightarrow> bool" where
  "varlen_accepts psize s \<longleftrightarrow> unat (wpos s) - unat (rpos s) + span_bytes psize s \<le> capacity_of s"

lemma reserve_base_wpos:
  assumes "varlen_inv (b + capacity_of s) w s"
  shows "unat (wpos (reserve_base (unat (needed_bytes psize s)) s)) + unat (needed_bytes psize s) =
    unat (wpos s) + span_bytes psize s"
  using padded_wpos(1) [OF assms]
  by (simp add: reserve_base_def span_bytes_def Let_def)

lemma varlen_accepts_iff:
  fixes psize :: u32
  assumes "varlen_inv (b + capacity_of s) w s"
  defines "n \<equiv> unat (needed_bytes psize s)"
  shows "varlen_accepts psize s \<longleftrightarrow>
    n \<le> capacity_of s \<and> unat (wpos s) - unat (rpos s) + n \<le> capacity_of s \<and>
    unat (wpos (reserve_base n s)) - unat (rpos s) + n \<le> capacity_of s"
proof -
  note D = varlen_invD [OF assms(1)]
  have "n \<le> span_bytes psize s" by (auto simp: span_bytes_def n_def Let_def)
  moreover have "unat (wpos (reserve_base n s)) + n = unat (wpos s) + span_bytes psize s"
    unfolding n_def by (rule reserve_base_wpos [OF assms(1)])
  moreover have "unat (wpos s) \<le> unat (wpos (reserve_base n s))"
    using padded_wpos(1) [OF assms(1)] by (simp add: reserve_base_def)
  ultimately show ?thesis using D(5,6) unfolding varlen_accepts_def by linarith
qed

lemma reserve_base_idle:
  assumes "varlen_inv (b + capacity_of s) w s" "\<not> vpending w"
  shows "cpos (reserve_base n s) = wpos (reserve_base n s)"
  using varlen_invD(9) [OF assms(1)] assms(2) by (simp add: reserve_base_def word_unat_eq_iff)

text \<open>
  What a refused reservation leaves behind: the same messages, though the wrap padding may have
  been committed.
\<close>

lemma varlen_try_reserve_refused:
  assumes inv: "varlen_inv (b + 2 * capacity_of s) w s" and idle: "\<not> vpending w"
    and no: "\<not> varlen_accepts psize s"
  shows "\<exists>st s'. varlen_try_reserve w s psize mt = Some (Inr (reserve_failed st, w, s')) \<and>
    st = (if capacity_of s < unat (needed_bytes psize s) then rs_message_too_large else rs_full) \<and>
    varlen_inv b w s' \<and> varlen_contents s' = varlen_contents s \<and>
    data_capacity (hdr s') = data_capacity (hdr s) \<and> data_alignment (hdr s') = data_alignment (hdr s)"
proof -
  let ?n = "needed_bytes psize s"
  have inv': "varlen_inv (b + capacity_of s + capacity_of s) w s"
    using inv by (simp add: add.assoc mult_2)
  note E = varlen_try_reserve_eq [OF inv idle, of psize mt]
  show ?thesis
  proof (cases "capacity_of s < unat ?n \<or> capacity_of s < unat (wpos s) - unat (rpos s) + unat ?n")
    case True
    then show ?thesis using E varlen_inv_less [OF inv] by auto
  next
    case False
    then have room: "unat (wpos s) - unat (rpos s) + unat ?n \<le> capacity_of s" by simp
    note K = reserve_base_keeps [OF inv' idle room]
    show ?thesis
      using False no E varlen_accepts_iff [OF inv', of psize] K varlen_inv_less [OF K(1)]
      by (auto simp: reserve_base_def)
  qed
qed

text \<open>An accepted reservation with its payload copied in, and then committed.\<close>

definition filled_segment :: "u32 \<Rightarrow> message_meta \<Rightarrow> u8 list \<Rightarrow> segment \<Rightarrow> segment" where
  "filled_segment psize mt xs s =
     (let n = needed_bytes psize s
      in fill_payload (headed_segment n psize mt (reserve_base (unat n) s)) xs)"

lemma filled_segment_frame [simp]:
  "rpos (filled_segment psize mt xs s) = rpos s"
  "data_capacity (hdr (filled_segment psize mt xs s)) = data_capacity (hdr s)"
  "data_alignment (hdr (filled_segment psize mt xs s)) = data_alignment (hdr s)"
  by (simp_all add: filled_segment_def Let_def)

lemma varlen_reserve_and_copy_eq:
  fixes psize :: u32 and mt :: message_meta
  assumes inv: "varlen_inv (b + 2 * capacity_of s) w s" and idle: "\<not> vpending w"
    and psize: "32 + unat psize + align_of s \<le> 2 ^ 32" "unat psize \<le> length data"
    and ok: "varlen_accepts psize s"
  defines "s1 \<equiv> reserve_base (unat (needed_bytes psize s)) s"
    and "s2 \<equiv> filled_segment psize mt (take (unat psize) data) s"
  shows "varlen_reserve_and_copy w s psize (Some data) mt =
      Some (Inr (headed_result s1, headed_writer w s1, s2))"
    and "reserved_state (needed_bytes psize s) psize mt (varlen_slots s1) b (headed_writer w s1) s2"
    and "reserved_payload psize s2 = take (unat psize) data"
    and "msgs_of (varlen_slots s1) = varlen_contents s" "cpos s2 = wpos s1"
proof -
  let ?n = "needed_bytes psize s"
  let ?h = "headed_segment ?n psize mt s1" and ?xs = "take (unat psize) data"
  have inv': "varlen_inv (b + capacity_of s + capacity_of s) w s"
    using inv by (simp add: add.assoc mult_2)
  note A = ok [unfolded varlen_accepts_iff [OF inv']]
  note R = varlen_reserved_state [OF inv idle psize(1)]
  have rs: "reserved_state ?n psize mt (varlen_slots s1) b (headed_writer w s1) ?h"
    and ms: "msgs_of (varlen_slots s1) = varlen_contents s"
    using R A by (auto simp: s1_def)
  have s2: "s2 = fill_payload ?h ?xs" by (simp add: s2_def s1_def filled_segment_def Let_def)
  have len: "length ?xs = unat psize" using psize(2) by simp
  note F = fill_payload_keeps [OF rs, of ?xs]
  show "reserved_state ?n psize mt (varlen_slots s1) b (headed_writer w s1) s2"
    using F(1) len by (simp add: s2)
  have "length (reserved_payload psize ?h) \<le> unat psize"
    by (simp add: reserved_payload_def mem_read_def)
  then show "reserved_payload psize s2 = ?xs" using F(2) len by (simp add: s2)
  show "msgs_of (varlen_slots s1) = varlen_contents s" by (rule ms)
  have cw: "cpos s1 = wpos s1" unfolding s1_def by (rule reserve_base_idle [OF inv' idle])
  then show "cpos s2 = wpos s1" by (simp add: s2)
  have "unat (wpos s1) mod capacity_of s + 32 + unat psize \<le> length (data_bytes ?h)"
  proof -
    have "unat (cpos ?h) mod capacity_of ?h + unat ?n \<le> capacity_of ?h" "32 + unat psize \<le> unat ?n"
      "varlen_inv b (headed_writer w s1) ?h"
      using rs by (auto simp: reserved_state_def)
    then show ?thesis
      using varlen_geometryD(6) [OF varlen_invD(1)] cw by (fastforce simp: s1_def)
  qed
  then have cp: "memcpy_in ?h (sizeof_control_block + (unat (wpos s1) mod capacity_of s + 32)) data
      (unat psize) = Inr s2"
    using psize(2) cw by (simp add: memcpy_in_data s2 fill_payload_def s1_def)
  have tr: "varlen_try_reserve w s psize mt = Some (Inr (headed_result s1, headed_writer w s1, ?h))"
    using varlen_try_reserve_eq [OF inv idle, of psize mt] A by (simp add: s1_def)
  show "varlen_reserve_and_copy w s psize (Some data) mt =
      Some (Inr (headed_result s1, headed_writer w s1, s2))"
  proof (cases "psize = 0")
    case True
    then have "s2 = ?h" by (simp add: s2 fill_payload_def mem_write_def)
    then show ?thesis using True tr by (simp add: varlen_reserve_and_copy_def)
  next
    case False
    then show ?thesis
      using cp by (simp add: varlen_reserve_and_copy_def tr headed_result_def s1_def word_gt_0)
  qed
qed

text \<open>
  \<open>write\<close> returns whether the message was accepted, and appends exactly that message; an empty
  payload is accepted but is no message.
\<close>

lemma varlen_write_accepted:
  assumes inv: "varlen_inv (b + 2 * capacity_of s) w s" and idle: "\<not> vpending w"
    and psize: "32 + unat psize + align_of s \<le> 2 ^ 32" "unat psize \<le> length data"
    and ok: "varlen_accepts psize s"
  shows "varlen_write w s psize (Some data) mt = Some (Inr (True,
    (headed_writer w (reserve_base (unat (needed_bytes psize s)) s))\<lparr>vpending := False\<rparr>,
    committed_segment (needed_bytes psize s) (filled_segment psize mt (take (unat psize) data) s)))"
proof -
  note E = varlen_reserve_and_copy_eq(1,2,5) [where mt = mt, OF inv idle psize ok]
  show ?thesis
    using E(1,3) varlen_commit_eq(1) [OF E(2)] by (simp add: varlen_write_def headed_result_def)
qed

lemma varlen_write_law:
  assumes inv: "varlen_inv (b + 2 * capacity_of s) w s" and idle: "\<not> vpending w"
    and psize: "32 + unat psize + align_of s \<le> 2 ^ 32" "unat psize \<le> length data"
  shows "\<exists>w' s'. varlen_write w s psize (Some data) mt =
      Some (Inr (varlen_accepts psize s, w', s')) \<and>
    varlen_inv b w' s' \<and> \<not> vpending w' \<and>
    varlen_contents s' = varlen_contents s @
      (if varlen_accepts psize s \<and> psize \<noteq> 0 then [(take (unat psize) data, mt)] else []) \<and>
    data_capacity (hdr s') = data_capacity (hdr s) \<and> data_alignment (hdr s') = data_alignment (hdr s)"
proof (cases "varlen_accepts psize s")
  case True
  let ?n = "needed_bytes psize s"
  let ?s1 = "reserve_base (unat ?n) s" and ?s2 = "filled_segment psize mt (take (unat psize) data) s"
  note E = varlen_reserve_and_copy_eq(1,2,3,5) [where mt = mt, OF inv idle psize True]
    and M = varlen_reserve_and_copy_eq(4) [OF inv idle psize True]
  note C = varlen_commit_eq [OF E(2)]
  show ?thesis
    using varlen_write_accepted [OF inv idle psize True, of mt] True C(2,3) E(3) M by simp
next
  case False
  obtain st s' where s': "varlen_try_reserve w s psize mt = Some (Inr (reserve_failed st, w, s'))"
    "st = (if capacity_of s < unat (needed_bytes psize s) then rs_message_too_large else rs_full)"
    "varlen_inv b w s'" "varlen_contents s' = varlen_contents s"
    "data_capacity (hdr s') = data_capacity (hdr s)" "data_alignment (hdr s') = data_alignment (hdr s)"
    using varlen_try_reserve_refused [OF inv idle False, of mt] by blast
  then have "varlen_write w s psize (Some data) mt = Some (Inr (False, w, s'))"
    by (simp add: varlen_write_def varlen_reserve_and_copy_def reserve_failed_def)
  with s' False idle show ?thesis by simp
qed


section \<open>Reading\<close>

text \<open>The members of the oldest slot, through the reader's pointer.\<close>

lemma load_slot_members:
  assumes "slot_at (data_bytes s) (capacity_of s) p v" "capacity_of s \<le> length (data_bytes s)"
  shows "load_slot_size s (sizeof_control_block + p mod capacity_of s) = Inr (word_of_nat (vsize v))"
    and "load_payload_size s (sizeof_control_block + p mod capacity_of s) =
      Inr (word_of_nat (vpayload_length v))"
proof -
  note S = slot_at_sizes [OF assms(1)] and F = slot_at_fields [OF assms(1)]
  have wf: "slot_wf v" using assms(1) by (simp add: slot_at_def)
  have n: "le_value (le_bytes 4 (vsize v)) = vsize v"
    using S(3) by (intro le_value_bytes) simp
  have m: "le_value (le_bytes 4 (vpayload_length v)) = vpayload_length v"
    using wf by (intro le_value_bytes) (cases v; simp add: vpayload_length_def)
  show "load_slot_size s (sizeof_control_block + p mod capacity_of s) = Inr (word_of_nat (vsize v))"
    using S assms(2) n F(1) by (simp add: load_slot_size_def checked_read_def)
  have "load_bytes s (sizeof_control_block + (p mod capacity_of s + 4)) 4 =
      Inr (le_bytes 4 (vpayload_length v))"
    using S assms(2) F(2) by (simp add: checked_read_def)
  then show "load_payload_size s (sizeof_control_block + p mod capacity_of s) =
      Inr (word_of_nat (vpayload_length v))"
    using m by (simp add: load_payload_size_def add.assoc)
qed

lemma load_message:
  assumes "slot_at (data_bytes s) (capacity_of s) p (Msg n pl mt)"
    and "capacity_of s \<le> length (data_bytes s)"
  shows "load_meta s (sizeof_control_block + p mod capacity_of s) = Inr mt"
    and "load_bytes s (sizeof_control_block + (p mod capacity_of s + 32)) (length pl) = Inr pl"
proof -
  note M = slot_at_message [OF assms(1)]
  have b: "p mod capacity_of s + (32 + length pl) \<le> length (data_bytes s)"
    using assms by (auto simp: slot_at_def)
  have "load_bytes s (sizeof_control_block + (p mod capacity_of s + 8)) 24 = Inr (encode_meta mt)"
    using b M(1) by (simp add: checked_read_def)
  then show "load_meta s (sizeof_control_block + p mod capacity_of s) = Inr mt"
    by (simp add: load_meta_def add.assoc)
  show "load_bytes s (sizeof_control_block + (p mod capacity_of s + 32)) (length pl) = Inr pl"
    using b M(2) by (simp add: checked_read_def)
qed

text \<open>The reader past its oldest slot.\<close>

definition skipped_segment :: "nat \<Rightarrow> segment \<Rightarrow> segment" where
  "skipped_segment n s = advance_read s (rpos s + u64_of_u32 (word_of_nat n))"

lemma skipped_frame [simp]:
  "wpos (skipped_segment n s) = wpos s" "cpos (skipped_segment n s) = cpos s"
  "data_bytes (skipped_segment n s) = data_bytes s"
  "data_capacity (hdr (skipped_segment n s)) = data_capacity (hdr s)"
  "data_alignment (hdr (skipped_segment n s)) = data_alignment (hdr s)"
  by (simp_all add: skipped_segment_def advance_read_def)

text \<open>All the reader relies on: the bytes between \<open>read_pos\<close> and \<open>commit_pos\<close> are whole slots.\<close>

definition varlen_published :: "segment \<Rightarrow> bool" where
  "varlen_published s \<longleftrightarrow>
     varlen_geometry s \<and>
     slots_from (data_bytes s) (capacity_of s) (unat (rpos s)) (varlen_slots s) (unat (cpos s))"

lemma varlen_inv_published: "varlen_inv b w s \<Longrightarrow> varlen_published s"
  by (simp add: varlen_published_def varlen_inv_def)

lemma varlen_publishedD:
  assumes "varlen_published s"
  shows "varlen_geometry s"
    and "slots_from (data_bytes s) (capacity_of s) (unat (rpos s)) (varlen_slots s) (unat (cpos s))"
    and "unat (rpos s) \<le> unat (cpos s)"
  using assms slots_from_le by (auto simp: varlen_published_def)

lemma skipped_published:
  assumes inv: "varlen_published s" and vs: "varlen_slots s = v # vs"
  shows "varlen_published (skipped_segment (vsize v) s)"
    and "varlen_slots (skipped_segment (vsize v) s) = vs"
    and "unat (rpos s) + vsize v \<le> unat (cpos s)"
    and "unat (rpos (skipped_segment (vsize v) s)) = unat (rpos s) + vsize v"
proof -
  let ?s = "skipped_segment (vsize v) s"
  note D = varlen_publishedD [OF inv]
  have at: "slot_at (data_bytes s) (capacity_of s) (unat (rpos s)) v"
    and rest: "slots_from (data_bytes s) (capacity_of s) (unat (rpos s) + vsize v) vs (unat (cpos s))"
    using D(2) vs by auto
  show le: "unat (rpos s) + vsize v \<le> unat (cpos s)" using rest by (rule slots_from_le)
  have "unat (word_of_nat (vsize v) :: u32) = vsize v"
    using slot_at_sizes(3) [OF at] by (simp add: unat_of_nat)
  then show rp: "unat (rpos ?s) = unat (rpos s) + vsize v"
    using le unat_u64_lt [of "cpos s"] by (simp add: skipped_segment_def advance_read_def unat_simps)
  show vs': "varlen_slots ?s = vs" using rest rp by (intro varlen_slots_eq) simp
  have "varlen_geometry ?s" using D(1) by (simp add: skipped_segment_def advance_read_def)
  then show "varlen_published ?s" using rest rp vs' by (simp add: varlen_published_def)
qed

lemma skipped_keeps:
  assumes inv: "varlen_inv b w s" and vs: "varlen_slots s = v # vs"
  shows "varlen_inv b w (skipped_segment (vsize v) s)"
    and "varlen_slots (skipped_segment (vsize v) s) = vs"
    and "unat (rpos s) + vsize v \<le> unat (cpos s)"
proof -
  note K = skipped_published [OF varlen_inv_published [OF inv] vs]
  show "varlen_slots (skipped_segment (vsize v) s) = vs" "unat (rpos s) + vsize v \<le> unat (cpos s)"
    by (rule K)+
  show "varlen_inv b w (skipped_segment (vsize v) s)"
    using inv K(4) varlen_publishedD(1,2) [OF K(1)] unfolding varlen_inv_def by auto
qed

text \<open>One round of the reader's loop on each kind of slot.\<close>

lemma varlen_read_none:
  assumes "varlen_published s" "varlen_slots s = []"
  shows "varlen_read handler r h s = Inr (False, h, s)"
proof -
  note D = varlen_publishedD [OF assms(1)]
  have "unat (rpos s) = unat (cpos s)" using D(2) assms(2) by simp
  then have "rpos s = cpos s" by (simp add: word_unat_eq_iff)
  then show ?thesis
    using varlen_geometryD(3) [OF D(1)] by (subst varlen_read.simps) (simp add: Let_def)
qed

text \<open>What the loop's tests see when the oldest slot is \<open>v\<close>.\<close>

lemma varlen_read_round:
  assumes inv: "varlen_published s" and vs: "varlen_slots s = v # vs"
    and r: "data_ptr r = sizeof_control_block"
  shows "rpos s < cpos s" "cpos s - rpos s \<noteq> 0"
    and "\<not> cpos s - rpos s < u64_of_u32 (word_of_nat (vsize v))"
    and "(word_of_nat (vsize v) :: u32) \<noteq> 0"
    and "load_slot_size s (data_ptr r + unat (rpos s mod data_capacity (hdr s))) =
      Inr (word_of_nat (vsize v))"
    and "load_payload_size s (data_ptr r + unat (rpos s mod data_capacity (hdr s))) =
      Inr (word_of_nat (vpayload_length v))"
proof -
  note D = varlen_publishedD [OF inv] and G = varlen_geometryD [OF varlen_publishedD(1) [OF inv]]
  have at: "slot_at (data_bytes s) (capacity_of s) (unat (rpos s)) v" using D(2) vs by simp
  note S = slot_at_sizes [OF at] and L = load_slot_members [OF at G(6)]
  note K = skipped_published [OF inv vs]
  have u: "unat (word_of_nat (vsize v) :: u32) = vsize v" using S(3) by (simp add: unat_of_nat)
  have d: "unat (cpos s - rpos s) = unat (cpos s) - unat (rpos s)"
    using D(3) by (simp add: unat_simps)
  show "rpos s < cpos s" using K(3) S(1) by (simp add: word_less_nat_alt)
  then show "cpos s - rpos s \<noteq> 0" by auto
  show "\<not> cpos s - rpos s < u64_of_u32 (word_of_nat (vsize v))"
    using K(3) u d by (simp add: word_less_nat_alt)
  show "(word_of_nat (vsize v) :: u32) \<noteq> 0" using u S(1) by (metis unat_0 less_irrefl)
  show "load_slot_size s (data_ptr r + unat (rpos s mod data_capacity (hdr s))) =
      Inr (word_of_nat (vsize v))"
    "load_payload_size s (data_ptr r + unat (rpos s mod data_capacity (hdr s))) =
      Inr (word_of_nat (vpayload_length v))"
    using L r by (simp_all add: unat_mod)
qed

lemma varlen_read_pad:
  assumes inv: "varlen_published s" and vs: "varlen_slots s = Pad n # vs"
    and r: "data_ptr r = sizeof_control_block"
  shows "varlen_read handler r h s = varlen_read handler r h (skipped_segment n s)"
  using varlen_read_round [OF inv vs r] varlen_geometryD(3) [OF varlen_publishedD(1) [OF inv]]
  by (subst varlen_read.simps) (simp add: Let_def vpayload_length_def skipped_segment_def)

lemma varlen_read_msg:
  assumes inv: "varlen_published s" and vs: "varlen_slots s = Msg n pl mt # vs"
    and r: "data_ptr r = sizeof_control_block"
  shows "varlen_read handler r h s =
    res_bind (handler s (sizeof_control_block + (unat (rpos s) mod capacity_of s + 32))
      (word_of_nat (length pl)) mt 0 h)
      (\<lambda>(consumed, h'). Inr (consumed, h', if consumed then skipped_segment n s else s))"
proof -
  note D = varlen_publishedD [OF inv] and G = varlen_geometryD [OF varlen_publishedD(1) [OF inv]]
  have at: "slot_at (data_bytes s) (capacity_of s) (unat (rpos s)) (Msg n pl mt)"
    using D(2) vs by simp
  then have wf: "pl \<noteq> []" "length pl < 2 ^ 32" by (auto simp: slot_at_def)
  have "unat (word_of_nat (length pl) :: u32) = length pl" using wf(2) by (simp add: unat_of_nat)
  with wf(1) have ne: "(word_of_nat (length pl) :: u32) \<noteq> 0" by (metis unat_0 length_0_conv)
  note M = load_message(1) [OF at G(6)] and Rd = varlen_read_round [OF inv vs r]
  show ?thesis
    using Rd G(3) M ne r
    by (subst varlen_read.simps)
      (auto simp: Let_def vpayload_length_def skipped_segment_def unat_mod res_bind_def
        varlen_slot_header_size_def add.assoc split: sum.split)
qed


text \<open>
  The whole \<open>read\<close>: it skips every leading pad, and then either finds nothing or hands the
  oldest message to the handler, exactly once, with a pointer under which the handler sees its
  bytes.
\<close>

lemma varlen_read_law:
  assumes "varlen_inv b w s" "data_ptr r = sizeof_control_block"
  obtains s' where "varlen_inv b w s'" "varlen_contents s' = varlen_contents s"
    and "data_capacity (hdr s') = data_capacity (hdr s)" "data_alignment (hdr s') = data_alignment (hdr s)"
    and "varlen_contents s = [] \<Longrightarrow> varlen_read handler r h s = Inr (False, h, s')"
    and "\<And>pl mt ms. varlen_contents s = (pl, mt) # ms \<Longrightarrow>
      \<exists>n vs. varlen_slots s' = Msg n pl mt # vs \<and> length pl < 2 ^ 32 \<and> pl \<noteq> [] \<and>
        load_bytes s' (sizeof_control_block + (unat (rpos s') mod capacity_of s + 32)) (length pl)
          = Inr pl \<and>
        varlen_read handler r h s =
          res_bind (handler s' (sizeof_control_block + (unat (rpos s') mod capacity_of s + 32))
            (word_of_nat (length pl)) mt 0 h)
            (\<lambda>(consumed, h'). Inr (consumed, h', if consumed then skipped_segment n s' else s'))"
  using assms
proof (induction "varlen_slots s" arbitrary: s thesis)
  case Nil
  then have "varlen_contents s = []" by (simp add: varlen_contents_def)
  with Nil varlen_read_none [OF varlen_inv_published [OF Nil.prems(2)]] show ?case by (intro Nil.prems(1) [of s]) auto
next
  case (Cons v vs)
  note vs = Cons.hyps(2) [symmetric] and K = skipped_keeps [OF Cons.prems(2) Cons.hyps(2) [symmetric]]
  show ?case
  proof (cases v)
    case (Pad n)
    have c: "varlen_contents (skipped_segment n s) = varlen_contents s"
      using K(2) vs Pad by (simp add: varlen_contents_def)
    have rd: "varlen_read handler r h s = varlen_read handler r h (skipped_segment n s)"
      using varlen_read_pad [OF varlen_inv_published [OF Cons.prems(2)], of n vs r handler h] Cons.prems vs Pad by simp
    show ?thesis
    proof (rule Cons.hyps(1) [of "skipped_segment n s"], goal_cases)
      case (2 s')
      then show ?case by (intro Cons.prems(1) [of s']) (auto simp: c rd)
    qed (use K Cons.prems(3) Pad in auto)
  next
    case (Msg n pl mt)
    have D: "varlen_geometry s" using varlen_invD(1) [OF Cons.prems(2)] .
    have at: "slot_at (data_bytes s) (capacity_of s) (unat (rpos s)) (Msg n pl mt)"
      using varlen_invD(3) [OF Cons.prems(2)] vs Msg by simp
    then have "length pl < 2 ^ 32" "pl \<noteq> []" by (auto simp: slot_at_def)
    moreover have "varlen_contents s = (pl, mt) # msgs_of vs"
      using vs Msg by (simp add: varlen_contents_def)
    ultimately show ?thesis
      using Cons.prems vs Msg load_message(2) [OF at varlen_geometryD(6) [OF D]]
        varlen_read_msg [OF varlen_inv_published [OF Cons.prems(2)], of n pl mt vs r handler h]
      by (intro Cons.prems(1) [of s]) auto
  qed
qed

lemma skipped_message:
  assumes "varlen_inv b w s" "varlen_slots s = Msg n pl mt # vs"
  shows "varlen_inv b w (skipped_segment n s)"
    and "varlen_contents (skipped_segment n s) = tl (varlen_contents s)"
  using skipped_keeps [OF assms] assms(2) by (simp_all add: varlen_contents_def)

text \<open>The handler of the copying \<open>read\<close> on a payload it can load.\<close>

lemma copy_handler_outcome:
  assumes ld: "load_bytes s p (length pl) = Inr pl" and pl: "length pl < 2 ^ 32" "pl \<noteq> []"
    and buf: "unat max_size \<le> length buf"
    and out: "out = \<lparr>out_buf = Some buf, out_size = Some sz0, out_meta = Some mt0\<rparr>"
  shows "copy_handler max_size s p (word_of_nat (length pl)) mt 0 out =
    (if length pl \<le> unat max_size
     then Inr (True, \<lparr>out_buf = Some (pl @ drop (length pl) buf), out_size = Some (word_of_nat (length pl)),
       out_meta = Some mt\<rparr>)
     else Inr (False, \<lparr>out_buf = Some buf, out_size = Some (word_of_nat (length pl)), out_meta = Some mt\<rparr>))"
proof -
  have u: "unat (word_of_nat (length pl) :: u32) = length pl" using pl(1) by (simp add: unat_of_nat)
  have pos: "(word_of_nat (length pl) :: u32) > 0" using u pl(2) by (simp add: word_less_nat_alt)
  have big: "(word_of_nat (length pl) :: u32) > max_size \<longleftrightarrow> length pl > unat max_size"
    by (simp only: word_less_nat_alt u)
  have "memcpy_out buf s p (length pl) = Inr (pl @ drop (length pl) buf)" if "length pl \<le> unat max_size"
    using that ld buf by (simp add: memcpy_out_def checked_write_def mem_write_def)
  then show ?thesis using pos big u by (simp add: copy_handler_def out Let_def)
qed

text \<open>The copying \<open>read\<close>.\<close>

lemma varlen_read_copy_law:
  assumes inv: "varlen_inv b w s" and r: "data_ptr r = sizeof_control_block"
    and buf: "unat max_size \<le> length buf"
    and out: "out = \<lparr>out_buf = Some buf, out_size = Some sz0, out_meta = Some mt0\<rparr>"
  shows "\<exists>s'. varlen_inv b w s' \<and>
    data_capacity (hdr s') = data_capacity (hdr s) \<and> data_alignment (hdr s') = data_alignment (hdr s) \<and>
    (case varlen_contents s of
       [] \<Rightarrow> varlen_read_copy r s max_size out = Inr (False, out, s') \<and> varlen_contents s' = []
     | (pl, mt) # ms \<Rightarrow>
         if length pl \<le> unat max_size
         then varlen_read_copy r s max_size out =
             Inr (True, \<lparr>out_buf = Some (pl @ drop (length pl) buf),
               out_size = Some (word_of_nat (length pl)), out_meta = Some mt\<rparr>, s') \<and>
           varlen_contents s' = ms
         else varlen_read_copy r s max_size out =
             Inr (False, \<lparr>out_buf = Some buf, out_size = Some (word_of_nat (length pl)),
               out_meta = Some mt\<rparr>, s') \<and>
           varlen_contents s' = varlen_contents s)"
proof -
  obtain s' where s': "varlen_inv b w s'" "varlen_contents s' = varlen_contents s"
    "data_capacity (hdr s') = data_capacity (hdr s)" "data_alignment (hdr s') = data_alignment (hdr s)"
    "varlen_contents s = [] \<Longrightarrow> varlen_read_copy r s max_size out = Inr (False, out, s')"
    and m: "\<And>pl mt ms. varlen_contents s = (pl, mt) # ms \<Longrightarrow>
      \<exists>n vs. varlen_slots s' = Msg n pl mt # vs \<and> length pl < 2 ^ 32 \<and> pl \<noteq> [] \<and>
        load_bytes s' (sizeof_control_block + (unat (rpos s') mod capacity_of s + 32)) (length pl)
          = Inr pl \<and>
        varlen_read_copy r s max_size out =
          res_bind (copy_handler max_size s'
            (sizeof_control_block + (unat (rpos s') mod capacity_of s + 32))
            (word_of_nat (length pl)) mt 0 out)
            (\<lambda>(consumed, h'). Inr (consumed, h', if consumed then skipped_segment n s' else s'))"
    unfolding varlen_read_copy_def
    by (rule varlen_read_law [OF inv r, of "copy_handler max_size" out]) blast
  show ?thesis
  proof (cases "varlen_contents s")
    case Nil
    then show ?thesis using s' by auto
  next
    case (Cons x ms)
    obtain pl mt where x: "x = (pl, mt)" by (cases x)
    obtain n vs where v: "varlen_slots s' = Msg n pl mt # vs" "length pl < 2 ^ 32" "pl \<noteq> []"
      "load_bytes s' (sizeof_control_block + (unat (rpos s') mod capacity_of s + 32)) (length pl)
        = Inr pl"
      and rd: "varlen_read_copy r s max_size out =
          res_bind (copy_handler max_size s'
            (sizeof_control_block + (unat (rpos s') mod capacity_of s + 32))
            (word_of_nat (length pl)) mt 0 out)
            (\<lambda>(consumed, h'). Inr (consumed, h', if consumed then skipped_segment n s' else s'))"
      using m Cons x by blast
    note K = skipped_message [OF s'(1) v(1)] and H = copy_handler_outcome [OF v(4,2,3) buf out, of mt]
    show ?thesis using rd K s' H Cons x by (cases "length pl \<le> unat max_size") auto
  qed
qed

end
