(* ===== verification/Varlen_Properties.thy ===== *)
theory Varlen_Properties
  imports Varlen_Delivery
begin

text \<open>
  The variable-length ring as a message channel, from an initialised control block on, and the
  properties of its operations.
\<close>

section \<open>The ring as a channel\<close>

text \<open>
  The producer calls \<open>write(size, data, meta)\<close>; the consumer calls the copying \<open>read\<close> with a
  buffer of \<open>maxsz\<close> bytes and takes the reported number of bytes out of it, the way the examples
  and the tests use the ring.
\<close>

type_synonym varlen_message = "u8 list \<times> message_meta"
type_synonym varlen_channel = "varlen_writer \<times> varlen_reader \<times> segment"

definition varlen_chan_send :: "varlen_message \<Rightarrow> varlen_channel \<Rightarrow> (bool \<times> varlen_channel) res" where
  "varlen_chan_send m c =
     (case (m, c) of ((pl, mt), (w, r, s)) \<Rightarrow>
        (case varlen_write w s (word_of_nat (length pl)) (Some pl) mt of
           None \<Rightarrow> Inl diverged
         | Some x \<Rightarrow> res_bind x (\<lambda>(ok, w, s). Inr (ok, w, r, s))))"

definition varlen_chan_recv ::
  "u32 \<Rightarrow> varlen_channel \<Rightarrow> (varlen_message option \<times> varlen_channel) res" where
  "varlen_chan_recv maxsz c =
     (case c of (w, r, s) \<Rightarrow>
        res_bind (varlen_read_copy r s maxsz
            \<lparr>out_buf = Some (replicate (unat maxsz) 0), out_size = Some 0,
             out_meta = Some default_meta\<rparr>)
          (\<lambda>(ok, out, s). Inr
            (if ok then Some (take (unat (the (out_size out))) (the (out_buf out)), the (out_meta out))
             else None, w, r, s)))"

definition varlen_valid :: "u32 \<Rightarrow> varlen_message \<Rightarrow> bool" where
  "varlen_valid maxsz m \<longleftrightarrow>
     fst m \<noteq> [] \<and> length (fst m) \<le> unat maxsz \<and> length (fst m) + 96 \<le> 2 ^ 32"

definition varlen_chan_inv :: "u32 \<Rightarrow> nat \<Rightarrow> varlen_channel \<Rightarrow> bool" where
  "varlen_chan_inv maxsz k c =
     (case c of (w, r, s) \<Rightarrow>
        varlen_inv (k * (2 * capacity_of s)) w s \<and> \<not> vpending w \<and>
        data_ptr r = sizeof_control_block \<and>
        list_all (\<lambda>m. length (fst m) \<le> unat maxsz) (varlen_contents s))"

definition varlen_chan_contents :: "varlen_channel \<Rightarrow> varlen_message list" where
  "varlen_chan_contents c = (case c of (w, r, s) \<Rightarrow> varlen_contents s)"

lemma align_of_le: "varlen_geometry s \<Longrightarrow> align_of s \<le> 64"
  using varlen_geometryD(1) [of s]
  by (simp add: is_valid_data_alignment_def word_le_nat_alt)

lemma varlen_chan_send_law:
  assumes inv: "varlen_chan_inv maxsz (Suc k) c" and m: "varlen_valid maxsz m"
  shows "\<exists>ok c'. varlen_chan_send m c = Inr (ok, c') \<and> varlen_chan_inv maxsz k c' \<and>
    varlen_chan_contents c' = varlen_chan_contents c @ (if ok then [m] else [])"
proof -
  obtain w r s where c: "c = (w, r, s)" by (cases c)
  obtain pl mt where pm: "m = (pl, mt)" by (cases m)
  have I: "varlen_inv (k * (2 * capacity_of s) + 2 * capacity_of s) w s" "\<not> vpending w"
    "data_ptr r = sizeof_control_block"
    "list_all (\<lambda>m. length (fst m) \<le> unat maxsz) (varlen_contents s)"
    using inv c by (auto simp: varlen_chan_inv_def add.commute)
  have V: "pl \<noteq> []" "length pl \<le> unat maxsz" "length pl + 96 \<le> 2 ^ 32"
    using m pm by (auto simp: varlen_valid_def)
  let ?n = "word_of_nat (length pl) :: u32"
  have u: "unat ?n = length pl" using V(3) by (simp add: unat_of_nat)
  then have nz: "?n \<noteq> 0" using V(1) by (metis length_0_conv unat_0)
  have "32 + unat ?n + align_of s \<le> 2 ^ 32"
    using u V(3) align_of_le [OF varlen_invD(1) [OF I(1)]] by linarith
  from varlen_write_law [OF I(1,2) this, of pl mt] u nz
  obtain w' s' where "varlen_write w s ?n (Some pl) mt = Some (Inr (varlen_accepts ?n s, w', s'))"
    "varlen_inv (k * (2 * capacity_of s)) w' s'" "\<not> vpending w'"
    "varlen_contents s' = varlen_contents s @ (if varlen_accepts ?n s then [(pl, mt)] else [])"
    "data_capacity (hdr s') = data_capacity (hdr s)"
    by auto
  then show ?thesis
    using c pm I V by (auto simp: varlen_chan_send_def varlen_chan_inv_def varlen_chan_contents_def)
qed

lemma varlen_chan_recv_law:
  assumes inv: "varlen_chan_inv maxsz k c"
  shows "\<exists>c'. varlen_chan_recv maxsz c =
      Inr (case varlen_chan_contents c of [] \<Rightarrow> None | m # _ \<Rightarrow> Some m, c') \<and>
    varlen_chan_inv maxsz k c' \<and> varlen_chan_contents c' = tl (varlen_chan_contents c)"
proof -
  obtain w r s where c: "c = (w, r, s)" by (cases c)
  have I: "varlen_inv (k * (2 * capacity_of s)) w s" "\<not> vpending w"
    "data_ptr r = sizeof_control_block"
    "list_all (\<lambda>m. length (fst m) \<le> unat maxsz) (varlen_contents s)"
    using inv c by (auto simp: varlen_chan_inv_def)
  note L = varlen_read_copy_law [OF I(1,3), of maxsz "replicate (unat maxsz) 0" _ 0 default_meta]
  show ?thesis
  proof (cases "varlen_contents s")
    case Nil
    then show ?thesis
      using L I c by (fastforce simp: varlen_chan_recv_def varlen_chan_inv_def varlen_chan_contents_def)
  next
    case (Cons m ms)
    obtain pl mt where pm: "m = (pl, mt)" by (cases m)
    have le: "length pl \<le> unat maxsz" using I(4) Cons pm by simp
    then have u: "unat (word_of_nat (length pl) :: u32) = length pl"
      using unat_u32_lt [of maxsz] by (simp add: unat_of_nat)
    show ?thesis
      using L I c Cons pm le
      by (fastforce simp: varlen_chan_recv_def varlen_chan_inv_def varlen_chan_contents_def u)
  qed
qed

interpretation varlen_chan: spsc_channel
  "varlen_chan_inv maxsz" "varlen_valid maxsz" varlen_chan_contents varlen_chan_send
  "varlen_chan_recv maxsz"
proof (unfold_locales, goal_cases)
  case (1 k s)
  then show ?case by (auto simp: varlen_chan_inv_def add.commute intro: varlen_inv_less)
next
  case (2 k s m)
  then show ?case by (rule varlen_chan_send_law)
next
  case (3 k s)
  then show ?case by (rule varlen_chan_recv_law)
qed


section \<open>From an initialised control block\<close>

definition varlen_ring_open ::
  "segment \<Rightarrow> u64 \<Rightarrow> u32 \<Rightarrow> varlen_channel option" where
  "varlen_ring_open seg cap alignment =
     (let (ok, h) = init_control_block (hdr seg) cap layout_varlen alignment 0;
          s = seg\<lparr>hdr := h\<rparr>
      in if \<not> ok then None else Some (new_varlen_writer s, new_ring_view s, s))"

lemma varlen_ring_open_inv:
  assumes op: "varlen_ring_open seg cap alignment = Some c" and al: "8 \<le> alignment"
    and map: "unat cap \<le> length (data_bytes seg)"
      "unat cap + 32 \<le> length (data_bytes seg) + unat alignment"
    and k: "k * (2 * unat cap) < 2 ^ 64"
  shows "varlen_chan_inv maxsz k c" "varlen_chan_contents c = []"
proof -
  have g: "is_valid_data_alignment alignment" "cap \<noteq> 0" "cap mod u64_of_u32 alignment = 0"
    and c: "c = (let s = seg\<lparr>hdr := snd (init_control_block (hdr seg) cap layout_varlen alignment 0)\<rparr>
      in (new_varlen_writer s, new_ring_view s, s))"
    using op by (auto simp: varlen_ring_open_def init_control_block_def Let_def split: if_splits)
  have d: "unat alignment dvd unat cap"
    using g(3) by (metis mod_eq_0_iff_dvd unat_0 unat_mod unat_u64_of_u32)
  have sz: "unat (word_of_nat sizeof_control_block :: u32) = sizeof_control_block"
    by (simp add: sizeof_control_block_def)
  show "varlen_chan_contents c = []"
    using g by (simp add: c Let_def varlen_chan_contents_def varlen_contents_def varlen_slots_def
        init_control_block_def)
  moreover have "8 \<le> unat alignment" using al by (simp add: word_le_nat_alt)
  ultimately show "varlen_chan_inv maxsz k c"
    using g map k d sz
    by (simp add: c Let_def varlen_chan_contents_def varlen_chan_inv_def varlen_inv_def
        varlen_geometry_def init_control_block_def new_varlen_writer_def new_ring_view_def
        varlen_slots_def)
qed


section \<open>Properties of the variable-length ring\<close>

text \<open>A ring of 128 bytes with 32-byte alignment, for concrete instances.\<close>

lemma varlen_example_opens:
  obtains w and r :: varlen_reader and s
  where "varlen_ring_open (fresh_segment 128) 128 32 = Some (w, r, s)"
    and "capacity_of s = 128" "align_of s = 32" "wpos s = 0" "rpos s = 0" "cpos s = 0"
    and "length (data_bytes s) = 128" "\<not> vpending w"
    and "varlen_inv (4 * 128) w s" "varlen_contents s = []" "data_ptr r = sizeof_control_block"
proof -
  have "is_valid_data_alignment 32" by (simp add: is_valid_data_alignment_def)
  moreover have "(128 :: u64) mod u64_of_u32 32 = 0" by (simp add: u64_of_u32_def)
  ultimately obtain w r s where o: "varlen_ring_open (fresh_segment 128) 128 32 = Some (w, r, s)"
    "capacity_of s = 128" "align_of s = 32" "wpos s = 0" "rpos s = 0" "cpos s = 0"
    "length (data_bytes s) = 128" "\<not> vpending w"
    by (simp add: varlen_ring_open_def init_control_block_def Let_def new_varlen_writer_def
        fresh_segment_def)
  have "varlen_chan_inv 64 2 (w, r, s)" "varlen_chan_contents (w, r, s) = []"
    using varlen_ring_open_inv(1) [OF o(1), where k = 2 and maxsz = 64]
      varlen_ring_open_inv(2) [OF o(1), where k = 0]
    by (simp_all add: fresh_segment_def)
  with o show thesis
    using that by (auto simp: varlen_chan_inv_def varlen_chan_contents_def)
qed

text \<open>It accepts a message of three bytes, and then holds it.\<close>

lemma varlen_example_accepts:
  obtains w s where "varlen_inv (4 * 128) w s" "\<not> vpending w" "capacity_of s = 128" "align_of s = 32"
    and "unat (needed_bytes 3 s) = 64" "varlen_accepts 3 s" "varlen_contents s = []"
proof -
  obtain w and r :: varlen_reader and s where s: "varlen_inv (4 * 128) w s" "\<not> vpending w"
    "capacity_of s = 128" "align_of s = 32" "wpos s = 0" "rpos s = 0" "varlen_contents s = []"
    by (rule varlen_example_opens)
  have "data_alignment (hdr s) = 32" using s(4) by (simp add: word_unat_eq_iff)
  then have "needed_bytes 3 s = 64"
    by (simp add: needed_bytes_def varlen_slot_header_size_def align_up_u32_def)
  then show thesis using that [of w s] s by (simp add: varlen_accepts_def span_bytes_def)
qed

lemma varlen_example_message:
  obtains w s where "varlen_inv (2 * 128) w s" "\<not> vpending w" "capacity_of s = 128" "align_of s = 32"
    and "varlen_contents s = [([1, 2, 3], default_meta)]"
proof -
  obtain w s where s: "varlen_inv (4 * 128) w s" "\<not> vpending w" "capacity_of s = 128"
    "align_of s = 32" "varlen_accepts 3 s" "varlen_contents s = []"
    by (rule varlen_example_accepts)
  have "varlen_inv (2 * 128 + 2 * capacity_of s) w s" using s by simp
  from varlen_write_law [OF this s(2), of 3 "[1, 2, 3]" default_meta] s
  obtain w' s' where "varlen_inv (2 * 128) w' s'" "\<not> vpending w'"
    "varlen_contents s' = [([1, 2, 3], default_meta)]"
    "data_capacity (hdr s') = data_capacity (hdr s)" "data_alignment (hdr s') = data_alignment (hdr s)"
    by auto
  with s show thesis using that [of w' s'] by auto
qed

text \<open>
  C11: The variable-length ring is a first-in-first-out channel of messages with their metadata.
  From a freshly initialised ring of alignment 8 or more whose mapping has room for a padding header
  behind the data, and with messages that are not empty and fit the reader's buffer, any interleaving of \<open>write\<close> and copying \<open>read\<close> calls returns
  without undefined behaviour, and the messages accepted are exactly the messages delivered, in
  order, byte for byte, followed by the messages still in the ring. (Without room for the padding
  header \<open>Varlen_Limits\<close> has a run of three calls that stores out of bounds; an empty payload looks like
  padding and is never delivered.) The number of calls keeps the 64-bit positions from wrapping.
\<close>

theorem varlen_ring_fifo:
  assumes "varlen_ring_open seg cap alignment = Some c" "8 \<le> alignment"
    and "unat cap \<le> length (data_bytes seg)"
    and "unat cap + 32 \<le> length (data_bytes seg) + unat alignment"
    and "length ops * (2 * unat cap) < 2 ^ 64"
    and "valid_ops (varlen_valid maxsz) ops"
  shows "\<exists>snt rcv t. chan_run varlen_chan_send (varlen_chan_recv maxsz) ops c = Inr (snt, rcv, t) \<and>
    snt = rcv @ varlen_chan_contents t"
proof -
  show ?thesis
    using varlen_chan.run_fifo [OF varlen_ring_open_inv(1) [OF assms(1-5)] assms(6)]
      varlen_ring_open_inv(2) [OF assms(1-5)] by auto
qed

theorem varlen_ring_fifo_witness:
  "\<exists>c. varlen_ring_open (fresh_segment 128) 128 32 = Some c \<and>
    (\<exists>snt rcv t. chan_run varlen_chan_send (varlen_chan_recv 64)
        [Send ([1, 2, 3], default_meta), Recv, Send (replicate 40 7, default_meta), Recv] c
        = Inr (snt, rcv, t) \<and> snt = rcv @ varlen_chan_contents t)"
proof -
  obtain w r s where c: "varlen_ring_open (fresh_segment 128) 128 32 = Some (w, r, s)"
    using varlen_example_opens by metis
  from varlen_ring_fifo [OF c, of "[Send ([1, 2, 3], default_meta), Recv,
      Send (replicate 40 7, default_meta), Recv]" 64] c
  show ?thesis by (auto simp: fresh_segment_def varlen_valid_def)
qed

text \<open>
  Once the producer has stopped, as many reads as there are messages drain the ring: each
  returns, every message is delivered in order, and the ring is empty afterwards.
\<close>

theorem varlen_ring_drains:
  assumes "varlen_chan_inv maxsz (length (varlen_chan_contents c)) c"
  shows "\<exists>t. chan_run varlen_chan_send (varlen_chan_recv maxsz)
      (replicate (length (varlen_chan_contents c)) Recv) c = Inr ([], varlen_chan_contents c, t) \<and>
    varlen_chan_contents t = []"
  using varlen_chan.run_drain [OF assms] by blast

theorem varlen_ring_drains_witness:
  "\<exists>c t. varlen_chan_contents c = [([1, 2, 3], default_meta)] \<and>
    chan_run varlen_chan_send (varlen_chan_recv 64) [Recv] c
      = Inr ([], [([1, 2, 3], default_meta)], t) \<and> varlen_chan_contents t = []"
proof -
  obtain w s where s: "varlen_inv (2 * 128) w s" "\<not> vpending w" "capacity_of s = 128"
    "varlen_contents s = [([1, 2, 3], default_meta)]"
    by (rule varlen_example_message)
  define r :: varlen_reader where "r = \<lparr>data_ptr = sizeof_control_block\<rparr>"
  from s have "varlen_chan_inv 64 1 (w, r, s)" "varlen_chan_contents (w, r, s) = [([1, 2, 3], default_meta)]"
    by (simp_all add: varlen_chan_inv_def varlen_chan_contents_def r_def)
  then have "\<exists>t. chan_run varlen_chan_send (varlen_chan_recv 64) [Recv] (w, r, s)
      = Inr ([], [([1, 2, 3], default_meta)], t) \<and> varlen_chan_contents t = []"
    using varlen_ring_drains [of 64 "(w, r, s)"] by (simp del: chan_run.simps)
  then show ?thesis
    using \<open>varlen_chan_contents (w, r, s) = [([1, 2, 3], default_meta)]\<close> by blast
qed

text \<open>
  C24: \<open>try_reserve\<close> always returns. With no reservation outstanding it answers
  \<open>message_too_large\<close> exactly when the slot exceeds the capacity, \<open>ok\<close> exactly when the slot and
  the wrap padding it needs fit into the free bytes, and \<open>full\<close> otherwise; in every case the
  messages the consumer can see are unchanged, and an \<open>ok\<close> names the position and the payload
  bytes of a slot that lies inside the data region.
\<close>

theorem varlen_try_reserve_outcome:
  assumes inv: "varlen_inv (b + 2 * capacity_of s) w s" and idle: "\<not> vpending w"
    and psize: "32 + unat psize + align_of s \<le> 2 ^ 32"
  shows "\<exists>res w' s'. varlen_try_reserve w s psize mt = Some (Inr (res, w', s')) \<and>
    status res = (if capacity_of s < unat (needed_bytes psize s) then rs_message_too_large
      else if varlen_accepts psize s then rs_ok else rs_full) \<and>
    varlen_inv b w' s' \<and> varlen_contents s' = varlen_contents s \<and>
    (vpending w' \<longleftrightarrow> status res = rs_ok) \<and>
    (status res = rs_ok \<longrightarrow> position res = cpos s' \<and>
       payload res = Some (sizeof_control_block + (unat (cpos s') mod capacity_of s + 32)) \<and>
       unat (cpos s') mod capacity_of s + 32 + unat psize \<le> capacity_of s)"
proof (cases "varlen_accepts psize s")
  case True
  let ?n = "needed_bytes psize s"
  let ?s1 = "reserve_base (unat ?n) s"
  have inv': "varlen_inv (b + capacity_of s + capacity_of s) w s"
    using inv by (simp add: add.assoc mult_2)
  note A = True [unfolded varlen_accepts_iff [OF inv']]
  have R: "reserved_state ?n psize mt (varlen_slots ?s1) b (headed_writer w ?s1)
      (headed_segment ?n psize mt ?s1)" "msgs_of (varlen_slots ?s1) = varlen_contents s"
    using varlen_reserved_state [OF inv idle psize] A by auto
  have "varlen_try_reserve w s psize mt =
      Some (Inr (headed_result ?s1, headed_writer w ?s1, headed_segment ?n psize mt ?s1))"
    using varlen_try_reserve_eq [OF inv idle, of psize mt] A by simp
  then show ?thesis
    using R True A reserve_base_idle [OF inv' idle, of "unat ?n"]
    by (auto simp: reserved_state_def headed_result_def headed_writer_def varlen_contents_def)
next
  case False
  then show ?thesis
    using varlen_try_reserve_refused [OF inv idle False, of mt] idle
    by (fastforce simp: reserve_failed_def)
qed

theorem varlen_try_reserve_outcome_witness:
  "\<exists>w s res w' s'. capacity_of s = 128 \<and>
     varlen_try_reserve w s 3 default_meta = Some (Inr (res, w', s')) \<and> status res = rs_ok"
proof -
  obtain w s where s: "varlen_inv (4 * 128) w s" "\<not> vpending w" "capacity_of s = 128"
    "align_of s = 32" "unat (needed_bytes 3 s) = 64" "varlen_accepts 3 s"
    by (rule varlen_example_accepts)
  then obtain res w' s' where
    "varlen_try_reserve w s 3 default_meta = Some (Inr (res, w', s'))" "status res = rs_ok"
    using varlen_try_reserve_outcome [of "2 * 128" s w 3 default_meta] by auto
  with s(3) show ?thesis by blast
qed

lemma ok_accepts:
  assumes "varlen_inv (b + 2 * capacity_of s) w s" "\<not> vpending w"
    and "varlen_try_reserve w s psize mt = Some (Inr (res, w1, s1))" "status res = rs_ok"
  shows "varlen_accepts psize s"
proof (rule ccontr)
  assume "\<not> varlen_accepts psize s"
  from varlen_try_reserve_refused [OF assms(1,2) this, of mt] assms(3,4)
  show False by (auto simp: reserve_failed_def split: if_splits)
qed

text \<open>
  C22: Two-phase publication. After a successful reservation the producer may store any prefix of
  the payload through the returned pointer; the store stays inside the mapping and the consumer
  still sees the old messages. Committing the returned position then publishes exactly one
  message: the payload bytes as they stand, with the reserved size and metadata. The payload is not
  empty and its size does not make the 32-bit slot size wrap.
\<close>

theorem varlen_two_phase:
  assumes inv: "varlen_inv (b + 2 * capacity_of s) w s" and idle: "\<not> vpending w"
    and psize: "32 + unat psize + align_of s \<le> 2 ^ 32" "psize \<noteq> 0"
    and ok: "varlen_try_reserve w s psize mt = Some (Inr (res, w1, s1))" "status res = rs_ok"
    and xs: "length xs \<le> unat psize"
  shows "\<exists>p s2 s3 rest. payload res = Some p \<and> store_bytes s1 p xs = Inr s2 \<and>
    varlen_contents s2 = varlen_contents s \<and>
    varlen_commit w1 s2 (position res) = Inr (w1\<lparr>vpending := False\<rparr>, s3) \<and>
    varlen_inv b (w1\<lparr>vpending := False\<rparr>) s3 \<and>
    length rest = unat psize - length xs \<and>
    varlen_contents s3 = varlen_contents s @ [(xs @ rest, mt)]"
proof -
  let ?n = "needed_bytes psize s"
  let ?s0 = "reserve_base (unat ?n) s"
  have inv': "varlen_inv (b + capacity_of s + capacity_of s) w s"
    using inv by (simp add: add.assoc mult_2)
  have acc: "varlen_accepts psize s" by (rule ok_accepts [OF inv idle ok])
  note A = acc [unfolded varlen_accepts_iff [OF inv']]
  have e: "res = headed_result ?s0" "w1 = headed_writer w ?s0" "s1 = headed_segment ?n psize mt ?s0"
    using varlen_try_reserve_eq [OF inv idle, of psize mt] A ok(1) by auto
  have R: "reserved_state ?n psize mt (varlen_slots ?s0) b w1 s1"
    "msgs_of (varlen_slots ?s0) = varlen_contents s"
    using varlen_reserved_state [OF inv idle psize(1)] A e by auto
  have cw: "cpos s1 = wpos ?s0" using reserve_base_idle [OF inv' idle, of "unat ?n"] e by simp
  note F = fill_payload_keeps [OF R(1) xs]
  note C = varlen_commit_eq [OF F(1)]
  have in1: "unat (cpos s1) mod capacity_of s + 32 + unat psize \<le> length (data_bytes s1)"
    using R(1) varlen_geometryD(6) [OF varlen_invD(1), of b w1 s1] e
    by (fastforce simp: reserved_state_def)
  have st: "store_bytes s1 (sizeof_control_block + (unat (cpos s1) mod capacity_of s + 32)) xs =
      Inr (fill_payload s1 xs)"
    using in1 xs e by (simp add: fill_payload_def)
  have "length (drop (length xs) (reserved_payload psize s1)) = unat psize - length xs"
    using in1 e by (simp add: reserved_payload_def length_mem_read)
  moreover have "varlen_contents (fill_payload s1 xs) = varlen_contents s"
    using F(1) R(2) by (simp add: reserved_state_def varlen_contents_def)
  moreover have "payload res = Some (sizeof_control_block + (unat (cpos s1) mod capacity_of s + 32))"
    "position res = cpos (fill_payload s1 xs)"
    using e(1) cw by (simp_all add: headed_result_def)
  moreover have "varlen_contents (committed_segment ?n (fill_payload s1 xs)) =
      varlen_contents s @ [(xs @ drop (length xs) (reserved_payload psize s1), mt)]"
    using C(3) F(2) R(2) psize(2) by simp
  ultimately show ?thesis using st C(1,2) by metis
qed

theorem varlen_two_phase_witness:
  "\<exists>w s res w1 s1 p s2 s3 rest. varlen_try_reserve w s 3 default_meta = Some (Inr (res, w1, s1)) \<and>
    payload res = Some p \<and> store_bytes s1 p [1, 2] = Inr s2 \<and> varlen_contents s2 = [] \<and>
    varlen_commit w1 s2 (position res) = Inr (w1\<lparr>vpending := False\<rparr>, s3) \<and>
    length rest = 1 \<and> varlen_contents s3 = [([1, 2] @ rest, default_meta)]"
proof -
  obtain w s where w: "varlen_inv (4 * 128) w s" "capacity_of s = 128" and s: "\<not> vpending w"
    "align_of s = 32" "varlen_accepts 3 s" "varlen_contents s = []"
    by (rule varlen_example_accepts)
  have inv: "varlen_inv (2 * 128 + 2 * capacity_of s) w s"
    and inv': "varlen_inv (2 * 128 + capacity_of s + capacity_of s) w s"
    using w by simp_all
  obtain res w1 s1 where r: "varlen_try_reserve w s 3 default_meta = Some (Inr (res, w1, s1))"
    "status res = rs_ok"
    using varlen_try_reserve_eq [OF inv s(1), of 3 default_meta] varlen_accepts_iff [OF inv', of 3] s(3)
    by (simp add: headed_result_def)
  from varlen_two_phase [OF inv s(1) _ _ r, of "[1, 2]"] s(2,4)
  obtain p s2 s3 rest where "payload res = Some p" "store_bytes s1 p [1, 2] = Inr s2"
    "varlen_contents s2 = []" "varlen_commit w1 s2 (position res) = Inr (w1\<lparr>vpending := False\<rparr>, s3)"
    "length rest = 1" "varlen_contents s3 = [([1, 2] @ rest, default_meta)]"
    by auto
  with r(1) show ?thesis by blast
qed

text \<open>
  C29: What \<open>try_reserve\<close> leaves for the reader. After a successful reservation the header in front of
  the returned payload pointer, loaded member by member as \<open>commit\<close> and the reader load it, has the
  slot size (header and payload, rounded up to the alignment), the payload size and the metadata of
  the call. If the slot did not fit before the end of the ring, it starts at index 0 and the rest
  of the lap is a slot of exactly that size with payload size 0. The payload size does not make the
  32-bit slot size wrap.
\<close>

theorem reserved_header_roundtrip:
  assumes inv: "varlen_inv (b + 2 * capacity_of s) w s" and idle: "\<not> vpending w"
    and psize: "32 + unat psize + align_of s \<le> 2 ^ 32"
    and ok: "varlen_try_reserve w s psize mt = Some (Inr (res, w1, s1))" "status res = rs_ok"
  defines "p \<equiv> sizeof_control_block + unat (position res) mod capacity_of s"
    and "q \<equiv> sizeof_control_block + unat (wpos s) mod capacity_of s"
    and "left \<equiv> capacity_of s - unat (wpos s) mod capacity_of s"
  shows "payload res = Some (p + 32) \<and> load_slot_size s1 p = Inr (needed_bytes psize s) \<and>
    load_payload_size s1 p = Inr psize \<and> load_meta s1 p = Inr mt \<and>
    32 + unat psize \<le> unat (needed_bytes psize s) \<and>
    unat (needed_bytes psize s) < 32 + unat psize + align_of s \<and> align_of s dvd unat (needed_bytes psize s) \<and>
    (if unat (needed_bytes psize s) \<le> left then position res = wpos s
     else p = sizeof_control_block \<and> load_slot_size s1 q = Inr (word_of_nat left) \<and>
       load_payload_size s1 q = Inr 0)"
proof -
  let ?n = "needed_bytes psize s"
  let ?s0 = "reserve_base (unat ?n) s"
  have inv': "varlen_inv (b + capacity_of s + capacity_of s) w s"
    using inv by (simp add: add.assoc mult_2)
  have A: "unat ?n \<le> capacity_of s" "unat (wpos s) - unat (rpos s) + unat ?n \<le> capacity_of s"
    "unat (wpos ?s0) - unat (rpos s) + unat ?n \<le> capacity_of s"
    using ok_accepts [OF inv idle ok] varlen_accepts_iff [OF inv', of psize] by auto
  have e: "res = headed_result ?s0" "w1 = headed_writer w ?s0" "s1 = headed_segment ?n psize mt ?s0"
    using varlen_try_reserve_eq [OF inv idle, of psize mt] A ok(1) by auto
  have R: "reserved_state ?n psize mt (varlen_slots ?s0) b w1 s1"
    using varlen_reserved_state(1) [OF inv idle psize A(2,3)] e by simp
  then have I: "varlen_inv b w1 s1" "varlen_slots s1 = varlen_slots ?s0" by (auto simp: reserved_state_def)
  note G = varlen_geometryD [OF varlen_invD(1) [OF I(1)]] and N = needed_bytes_bounds [OF varlen_invD(1) [OF inv] psize]
  have cp: "cpos s1 = wpos ?s0" using reserve_base_idle [OF inv' idle, of "unat ?n"] e by simp
  have c: "capacity_of s1 = capacity_of s" using e(3) by simp
  have at: "unat (position res) mod capacity_of s = unat (cpos s1) mod capacity_of s1"
    using e(1) cp c by (simp add: headed_result_def)
  have h: "mem_read (data_bytes s1) (unat (cpos s1) mod capacity_of s1) 32 =
      encode_header \<lparr>slot_size = ?n, payload_size = psize, slot_meta = mt\<rparr>"
    and len: "unat (cpos s1) mod capacity_of s1 + 32 \<le> length (data_bytes s1)"
    using R N(1) G(6) by (auto simp: reserved_state_def)
  have "payload res = Some (p + 32)" using e(1) by (simp add: headed_result_def p_def)
  moreover have "load_slot_size s1 p = Inr ?n" "load_payload_size s1 p = Inr psize" "load_meta s1 p = Inr mt"
    using load_header_members [OF h len] by (simp_all add: p_def at)
  moreover have "position res = wpos s" if "unat ?n \<le> left"
    using that e(1) by (simp add: headed_result_def reserve_base_def left_def)
  moreover have "p = sizeof_control_block \<and> load_slot_size s1 q = Inr (word_of_nat left) \<and>
      load_payload_size s1 q = Inr 0" if "\<not> unat ?n \<le> left"
  proof -
    have tight: "capacity_of s - unat (wpos s) mod capacity_of s < unat ?n" using that by (simp add: left_def)
    then have s0: "?s0 = padded_segment s" by (simp add: reserve_base_def)
    have W: "unat (wpos ?s0) = unat (wpos s) + left" "unat (wpos ?s0) mod capacity_of s = 0"
      using padded_wpos [OF inv'] by (simp_all add: s0 left_def)
    have "varlen_slots ?s0 = varlen_slots s @ [Pad left]"
      using padded_slots [OF inv' idle A(2) tight] unfolding s0 left_def by (intro varlen_slots_eq) simp
    then have "slots_from (data_bytes s1) (capacity_of s1) (unat (rpos s1)) (varlen_slots s @ [Pad left]) (unat (cpos s1))"
      using varlen_invD(3) [OF I(1)] I(2) by simp
    then have "slot_at (data_bytes s1) (capacity_of s1) (unat (wpos s)) (Pad left)"
      using cp W(1) by (auto simp: slots_from_append)
    from load_slot_members [OF this G(6)] W(2) e(1) show ?thesis
      by (simp add: q_def p_def c headed_result_def vpayload_length_def)
  qed
  ultimately show ?thesis using N by simp
qed

theorem reserved_header_roundtrip_witness:
  "\<exists>w s res w1 s1 p. varlen_try_reserve w s 3 default_meta = Some (Inr (res, w1, s1)) \<and>
    payload res = Some (p + 32) \<and> load_slot_size s1 p = Inr 64 \<and> load_payload_size s1 p = Inr 3 \<and>
    load_meta s1 p = Inr default_meta"
proof -
  obtain w s where w: "varlen_inv (4 * 128) w s" "capacity_of s = 128" and s: "\<not> vpending w"
    "align_of s = 32" "unat (needed_bytes 3 s) = 64" "varlen_accepts 3 s"
    by (rule varlen_example_accepts)
  have inv: "varlen_inv (2 * 128 + 2 * capacity_of s) w s"
    and inv': "varlen_inv (2 * 128 + capacity_of s + capacity_of s) w s"
    using w by simp_all
  obtain res w1 s1 where r: "varlen_try_reserve w s 3 default_meta = Some (Inr (res, w1, s1))"
    "status res = rs_ok"
    using varlen_try_reserve_eq [OF inv s(1), of 3 default_meta] varlen_accepts_iff [OF inv', of 3] s(4)
    by (simp add: headed_result_def)
  have "needed_bytes 3 s = 64" using s(3) by (simp add: word_unat_eq_iff)
  with reserved_header_roundtrip [OF inv s(1) _ r] r(1) s(2) show ?thesis
    by (intro exI [of _ w] exI [of _ s] exI [of _ res] exI [of _ w1] exI [of _ s1]
        exI [of _ "sizeof_control_block + unat (position res) mod capacity_of s"]) simp
qed

text \<open>
  The single-outstanding-reservation guard. While a reservation is pending, a further
  \<open>try_reserve\<close> (and hence \<open>write\<close>) is refused with \<open>pending_commit\<close> and changes nothing, and
  a \<open>commit\<close> of any position but the reserved one changes nothing; with nothing pending, no
  \<open>commit\<close> changes anything.
\<close>

theorem varlen_pending_guard:
  "(vpending w \<longrightarrow>
     varlen_try_reserve w s psize mt = Some (Inr (reserve_failed rs_pending_commit, w, s)) \<and>
     varlen_write w s psize data mt = Some (Inr (False, w, s))) \<and>
   (\<not> vpending w \<or> pos \<noteq> last_position w \<longrightarrow> varlen_commit w s pos = Inr (w, s))"
  by (auto simp: varlen_try_reserve_def varlen_write_def varlen_reserve_and_copy_def
      reserve_failed_def varlen_commit_def)

theorem varlen_pending_guard_witness:
  "varlen_write \<lparr>data_ptr = 320, vbackoff = new_atomic_backoff 256, vpending = True,
     last_position = 64\<rparr> (fresh_segment 128) 4 None default_meta =
   Some (Inr (False, \<lparr>data_ptr = 320, vbackoff = new_atomic_backoff 256, vpending = True,
     last_position = 64\<rparr>, fresh_segment 128))"
  using varlen_pending_guard [of "\<lparr>data_ptr = 320, vbackoff = new_atomic_backoff 256,
      vpending = True, last_position = 64\<rparr>" "fresh_segment 128" 4 default_meta None 0]
  by simp

text \<open>
  C25: Handler-based \<open>read\<close>. On an empty ring it returns false without calling the handler.
  Otherwise it calls the handler exactly once, on the oldest message, behind a pointer where
  exactly the message's bytes can be loaded; if the handler accepts, that message and no other
  is removed, and if it declines, every message stays.
\<close>

theorem varlen_read_oldest:
  assumes inv: "varlen_inv b w s" and r: "data_ptr r = sizeof_control_block"
  shows "case varlen_contents s of
      [] \<Rightarrow> \<exists>s'. varlen_read handler r h s = Inr (False, h, s') \<and> varlen_contents s' = []
    | (pl, mt) # ms \<Rightarrow>
        \<exists>s' p. varlen_contents s' = varlen_contents s \<and> load_bytes s' p (length pl) = Inr pl \<and>
          (case handler s' p (word_of_nat (length pl)) mt 0 h of
             Inl e \<Rightarrow> varlen_read handler r h s = Inl e
           | Inr (consumed, h') \<Rightarrow>
               \<exists>t. varlen_read handler r h s = Inr (consumed, h', t) \<and> varlen_inv b w t \<and>
                 varlen_contents t = (if consumed then ms else (pl, mt) # ms))"
proof -
  obtain s' where s': "varlen_inv b w s'" "varlen_contents s' = varlen_contents s"
    "varlen_contents s = [] \<Longrightarrow> varlen_read handler r h s = Inr (False, h, s')"
    and m: "\<And>pl mt ms. varlen_contents s = (pl, mt) # ms \<Longrightarrow>
      \<exists>n vs. varlen_slots s' = Msg n pl mt # vs \<and> length pl < 2 ^ 32 \<and> pl \<noteq> [] \<and>
        load_bytes s' (sizeof_control_block + (unat (rpos s') mod capacity_of s + 32)) (length pl)
          = Inr pl \<and>
        varlen_read handler r h s =
          res_bind (handler s' (sizeof_control_block + (unat (rpos s') mod capacity_of s + 32))
            (word_of_nat (length pl)) mt 0 h)
            (\<lambda>(consumed, h'). Inr (consumed, h', if consumed then skipped_segment n s' else s'))"
    by (rule varlen_read_law [OF inv r, of handler h]) blast
  show ?thesis
  proof (cases "varlen_contents s")
    case Nil
    then show ?thesis using s' by auto
  next
    case (Cons x ms)
    obtain pl mt where x: "x = (pl, mt)" by (cases x)
    let ?p = "sizeof_control_block + (unat (rpos s') mod capacity_of s + 32)"
    obtain n vs where v: "varlen_slots s' = Msg n pl mt # vs"
      "load_bytes s' ?p (length pl) = Inr pl"
      and rd: "varlen_read handler r h s =
        res_bind (handler s' ?p (word_of_nat (length pl)) mt 0 h)
          (\<lambda>(consumed, h'). Inr (consumed, h', if consumed then skipped_segment n s' else s'))"
      using m Cons x by blast
    note K = skipped_message [OF s'(1) v(1)]
    have "case handler s' ?p (word_of_nat (length pl)) mt 0 h of
        Inl e \<Rightarrow> varlen_read handler r h s = Inl e
      | Inr (consumed, h') \<Rightarrow>
          \<exists>t. varlen_read handler r h s = Inr (consumed, h', t) \<and> varlen_inv b w t \<and>
            varlen_contents t = (if consumed then ms else (pl, mt) # ms)"
      using rd K s' Cons x by (auto split: sum.splits prod.splits)
    with v(2) s'(2) have "\<exists>s' p. varlen_contents s' = varlen_contents s \<and>
        load_bytes s' p (length pl) = Inr pl \<and>
        (case handler s' p (word_of_nat (length pl)) mt 0 h of
           Inl e \<Rightarrow> varlen_read handler r h s = Inl e
         | Inr (consumed, h') \<Rightarrow>
             \<exists>t. varlen_read handler r h s = Inr (consumed, h', t) \<and> varlen_inv b w t \<and>
               varlen_contents t = (if consumed then ms else (pl, mt) # ms))"
      by blast
    then show ?thesis by (simp add: Cons x del: load_bytes_data)
  qed
qed

theorem varlen_read_oldest_witness:
  "\<exists>s s' t. varlen_contents s = [([1, 2, 3], default_meta)] \<and>
    varlen_read (\<lambda>s p n mt rsv h. Inr (True, (n, mt))) \<lparr>data_ptr = sizeof_control_block\<rparr>
      (0, default_meta) s = Inr (True, (3, default_meta), t) \<and> varlen_contents t = []"
proof -
  obtain w s where s: "varlen_inv (2 * 128) w s" "varlen_contents s = [([1, 2, 3], default_meta)]"
    by (rule varlen_example_message)
  then show ?thesis
    using varlen_read_oldest [OF s(1), of "\<lparr>data_ptr = sizeof_control_block\<rparr>"
        "\<lambda>s p n mt rsv h. Inr (True, (n, mt))" "(0, default_meta)"] by auto
qed

text \<open>
  C27: Copying \<open>read\<close> into a buffer that is too small returns false, leaves the buffer and every
  message in place, and reports the size and metadata of the oldest message, so that a caller
  can retry with a larger buffer; into a buffer that is large enough it delivers the message.
\<close>

theorem varlen_read_copy_outcome:
  assumes "varlen_inv b w s" "data_ptr r = sizeof_control_block" "unat max_size \<le> length buf"
    and "varlen_contents s = (pl, mt) # ms"
  shows "\<exists>s'. varlen_inv b w s' \<and>
    varlen_read_copy r s max_size \<lparr>out_buf = Some buf, out_size = Some sz0, out_meta = Some mt0\<rparr> =
      (if length pl \<le> unat max_size
       then Inr (True, \<lparr>out_buf = Some (pl @ drop (length pl) buf),
         out_size = Some (word_of_nat (length pl)), out_meta = Some mt\<rparr>, s')
       else Inr (False, \<lparr>out_buf = Some buf, out_size = Some (word_of_nat (length pl)),
         out_meta = Some mt\<rparr>, s')) \<and>
    varlen_contents s' = (if length pl \<le> unat max_size then ms else varlen_contents s)"
  using varlen_read_copy_law [OF assms(1-3) refl, of sz0 mt0] assms(4)
  by (auto split: if_splits)

theorem varlen_read_copy_outcome_witness:
  "\<exists>s s'. varlen_contents s = [([1, 2, 3], default_meta)] \<and>
    varlen_read_copy \<lparr>data_ptr = sizeof_control_block\<rparr> s 2
      \<lparr>out_buf = Some [9, 9], out_size = Some 0, out_meta = Some default_meta\<rparr> =
      Inr (False, \<lparr>out_buf = Some [9, 9], out_size = Some 3, out_meta = Some default_meta\<rparr>, s') \<and>
    varlen_contents s' = [([1, 2, 3], default_meta)]"
proof -
  obtain w s where s: "varlen_inv (2 * 128) w s" "varlen_contents s = [([1, 2, 3], default_meta)]"
    by (rule varlen_example_message)
  then show ?thesis
    using varlen_read_copy_outcome [OF s(1) _ _ s(2), of "\<lparr>data_ptr = sizeof_control_block\<rparr>" 2
        "[9, 9]" 0 default_meta] by auto
qed

text \<open>
  A message with an empty payload is accepted whenever its 32-byte slot fits, but is never
  delivered: the messages the consumer can see are the ones there were before.
\<close>

theorem varlen_empty_payload_not_delivered:
  assumes "varlen_inv (b + 2 * capacity_of s) w s" "\<not> vpending w"
  shows "\<exists>w' s'. varlen_write w s 0 (Some data) mt = Some (Inr (varlen_accepts 0 s, w', s')) \<and>
    varlen_inv b w' s' \<and> varlen_contents s' = varlen_contents s"
  using varlen_write_law [OF assms, of 0 data mt] align_of_le [OF varlen_invD(1) [OF assms(1)]]
  by auto

theorem varlen_empty_payload_not_delivered_witness:
  "\<exists>w s w' s'. varlen_write w s 0 (Some []) default_meta = Some (Inr (True, w', s')) \<and>
    varlen_contents s' = []"
proof -
  obtain w and r :: varlen_reader and s where s: "varlen_inv (4 * 128) w s" "\<not> vpending w"
    "capacity_of s = 128" "align_of s = 32" "wpos s = 0" "rpos s = 0" "varlen_contents s = []"
    by (rule varlen_example_opens)
  have "data_alignment (hdr s) = 32" using s(4) by (simp add: word_unat_eq_iff)
  then have "needed_bytes 0 s = 32"
    by (simp add: needed_bytes_def varlen_slot_header_size_def align_up_u32_def)
  then have "varlen_accepts 0 s" using s by (simp add: varlen_accepts_def span_bytes_def)
  then show ?thesis
    using varlen_empty_payload_not_delivered [of "2 * 128" s w "[]" default_meta] s by auto
qed

text \<open>On an empty ring, a refused message that would fit the capacity leaves a single pad behind.\<close>

lemma varlen_refused_when_empty:
  assumes inv: "varlen_inv (b + 2 * capacity_of s) w s" and idle: "\<not> vpending w"
    and empty: "varlen_slots s = []" and n: "unat (needed_bytes psize s) \<le> capacity_of s"
    and no: "\<not> varlen_accepts psize s"
  shows "varlen_write w s psize data mt = Some (Inr (False, w, padded_segment s))"
    and "varlen_inv (b + capacity_of s) w (padded_segment s)"
    and "varlen_slots (padded_segment s) = [Pad (capacity_of s - unat (wpos s) mod capacity_of s)]"
    and "unat (wpos (padded_segment s)) mod capacity_of s = 0"
proof -
  let ?n = "needed_bytes psize s" and ?t = "capacity_of s - unat (wpos s) mod capacity_of s"
  have inv': "varlen_inv (b + capacity_of s + capacity_of s) w s"
    using inv by (simp add: add.assoc mult_2)
  note D = varlen_invD [OF inv]
  have rc: "unat (rpos s) = unat (cpos s)" using D(3) empty by simp
  have room: "unat (wpos s) - unat (rpos s) + unat ?n \<le> capacity_of s"
    using D(9) idle rc n by simp
  have tight: "?t < unat ?n"
  proof (rule ccontr)
    assume "\<not> ?t < unat ?n"
    then have "varlen_accepts psize s"
      using room by (simp add: varlen_accepts_def span_bytes_def Let_def)
    with no show False by simp
  qed
  have "varlen_try_reserve w s psize mt = Some (Inr (reserve_failed rs_full, w, padded_segment s))"
    using varlen_try_reserve_eq [OF inv idle, of psize mt] varlen_accepts_iff [OF inv', of psize]
      no n room tight by (auto simp: reserve_base_def)
  then show "varlen_write w s psize data mt = Some (Inr (False, w, padded_segment s))"
    by (simp add: varlen_write_def varlen_reserve_and_copy_def reserve_failed_def)
  show "varlen_inv (b + capacity_of s) w (padded_segment s)"
    using padded_keeps(1) [OF inv' idle room tight] .
  show "varlen_slots (padded_segment s) = [Pad ?t]"
    using padded_slots [OF inv' idle room tight] empty by (intro varlen_slots_eq) simp
  show "unat (wpos (padded_segment s)) mod capacity_of s = 0"
    by (rule padded_wpos(2) [OF inv'])
qed

text \<open>
  C26: Progress. A message whose slot fits the capacity is not refused for ever: on a drained
  ring the producer's \<open>write\<close> either succeeds at once, or commits wrap padding and is refused,
  and then the consumer's next \<open>read\<close> (which finds no message but skips the padding) lets the
  producer's second attempt succeed and publish exactly that message.
\<close>

theorem varlen_retry_succeeds:
  assumes inv: "varlen_inv (b + 2 * capacity_of s + 2 * capacity_of s) w s" and idle: "\<not> vpending w"
    and empty: "varlen_slots s = []" and r: "data_ptr r = sizeof_control_block"
    and psize: "32 + unat psize + align_of s \<le> 2 ^ 32" "unat psize \<le> length data" "psize \<noteq> 0"
    and n: "unat (needed_bytes psize s) \<le> capacity_of s"
  shows "\<exists>ok w1 s1. varlen_write w s psize (Some data) mt = Some (Inr (ok, w1, s1)) \<and>
    (if ok then varlen_contents s1 = [(take (unat psize) data, mt)]
     else \<exists>s2 w3 s3. varlen_read handler r h s1 = Inr (False, h, s2) \<and>
       varlen_write w1 s2 psize (Some data) mt = Some (Inr (True, w3, s3)) \<and>
       varlen_contents s3 = [(take (unat psize) data, mt)])"
proof (cases "varlen_accepts psize s")
  case True
  have "varlen_contents s = []" using empty by (simp add: varlen_contents_def)
  with True varlen_write_law [OF inv idle psize(1,2), of mt] psize(3) show ?thesis by auto
next
  case False
  let ?t = "capacity_of s - unat (wpos s) mod capacity_of s" and ?s1 = "padded_segment s"
  note P = varlen_refused_when_empty [OF inv idle empty n False]
  have P1: "varlen_write w s psize (Some data) mt = Some (Inr (False, w, ?s1))" by (rule P(1))
  have i1: "varlen_inv (b + 2 * capacity_of s) w ?s1"
    using P(2) varlen_inv_less [of "b + 2 * capacity_of s" "capacity_of s"] by (simp add: add.assoc)
  let ?s2 = "skipped_segment ?t ?s1"
  have i2: "varlen_inv (b + 2 * capacity_of ?s2) w ?s2" and v2: "varlen_slots ?s2 = []"
    using skipped_keeps(1,2) [OF i1 P(3)] by simp_all
  have rd: "varlen_read handler r h ?s1 = Inr (False, h, ?s2)"
    by (simp only: varlen_read_pad [OF varlen_inv_published [OF i1] P(3) r]
      varlen_read_none [OF varlen_inv_published [OF i2] v2])
  note D = varlen_invD [OF i2]
  have "unat (rpos ?s2) = unat (wpos ?s2)" using D(3,9) v2 idle by simp
  moreover have "needed_bytes psize ?s2 = needed_bytes psize s" by (simp add: needed_bytes_def)
  ultimately have acc: "varlen_accepts psize ?s2"
    using n P(4) by (simp add: varlen_accepts_def span_bytes_def Let_def)
  have ps: "32 + unat psize + align_of ?s2 \<le> 2 ^ 32" using psize(1) by simp
  have "varlen_contents ?s2 = []" using v2 by (simp add: varlen_contents_def)
  then obtain w3 s3 where "varlen_write w ?s2 psize (Some data) mt = Some (Inr (True, w3, s3))"
    "varlen_contents s3 = [(take (unat psize) data, mt)]"
    using varlen_write_law [OF i2 idle ps psize(2), of mt] acc psize(3) by auto
  with P1 rd show ?thesis by fastforce
qed

theorem varlen_retry_succeeds_witness:
  "\<exists>w s ok w1 s1. capacity_of s = 128 \<and>
    varlen_write w s 3 (Some [1, 2, 3]) default_meta = Some (Inr (ok, w1, s1)) \<and>
    (if ok then varlen_contents s1 = [([1, 2, 3], default_meta)]
     else \<exists>s2 w3 s3. varlen_read (\<lambda>s p n mt rsv h. Inr (True, h)) \<lparr>data_ptr = sizeof_control_block\<rparr>
         () s1 = Inr (False, (), s2) \<and>
       varlen_write w1 s2 3 (Some [1, 2, 3]) default_meta = Some (Inr (True, w3, s3)) \<and>
       varlen_contents s3 = [([1, 2, 3], default_meta)])"
proof -
  obtain w and r :: varlen_reader and s where s: "varlen_inv (4 * 128) w s" "\<not> vpending w"
    "capacity_of s = 128" "align_of s = 32" "rpos s = 0" "cpos s = 0"
    by (rule varlen_example_opens)
  have "data_alignment (hdr s) = 32" using s(4) by (simp add: word_unat_eq_iff)
  then have "unat (needed_bytes 3 s) \<le> capacity_of s"
    using s(3) by (simp add: needed_bytes_def varlen_slot_header_size_def align_up_u32_def)
  moreover have "varlen_slots s = []" using s by (simp add: varlen_slots_def)
  ultimately have "\<exists>ok w1 s1.
    varlen_write w s 3 (Some [1, 2, 3]) default_meta = Some (Inr (ok, w1, s1)) \<and>
    (if ok then varlen_contents s1 = [(take (unat (3 :: u32)) [1, 2, 3], default_meta)]
     else \<exists>s2 w3 s3. varlen_read (\<lambda>s p n mt rsv h. Inr (True, h)) \<lparr>data_ptr = sizeof_control_block\<rparr>
         () s1 = Inr (False, (), s2) \<and>
       varlen_write w1 s2 3 (Some [1, 2, 3]) default_meta = Some (Inr (True, w3, s3)) \<and>
       varlen_contents s3 = [(take (unat (3 :: u32)) [1, 2, 3], default_meta)])"
    by (intro varlen_retry_succeeds [of 0 s w]) (use s in simp_all)
  moreover have "take (unat (3 :: u32)) [1, 2, 3 :: u8] = [1, 2, 3]" by simp
  ultimately show ?thesis using s(3) by metis
qed

end
