(* ===== verification/Varlen_Limits.thy ===== *)
theory Varlen_Limits
  imports Varlen_Properties
begin

text \<open>
  The limits of the variable-length ring: where the wrap-padding header and the 32-bit slot size
  leave the safe envelope, what \<open>next_payload_size\<close> reports, and when the spinning reader
  returns.
\<close>

section \<open>Outside the safe envelope\<close>

lemma reserve_overruns:
  assumes "\<not> vpending w" "data_ptr w = sizeof_control_block" "data_capacity (hdr s) \<noteq> 0"
    and "length (data_bytes s) = capacity_of s"
    and "unat (wpos s - rpos s) + unat (needed_bytes psize s) \<le> capacity_of s"
    and "capacity_of s - unat (wpos s) mod capacity_of s < unat (needed_bytes psize s)"
    and "capacity_of s - unat (wpos s) mod capacity_of s < 32"
  shows "varlen_try_reserve w s psize mt = Some (Inl out_of_bounds)"
proof -
  let ?n = "needed_bytes psize s" and ?i = "unat (wpos s) mod capacity_of s"
  have c0: "0 < capacity_of s" using assms(3) by (simp add: unat_gt_0)
  then have i: "?i < capacity_of s" by simp
  have u: "unat (wpos s - rpos s + u64_of_u32 ?n) = unat (wpos s - rpos s) + unat ?n"
    using assms(5) unat_u64_lt [of "data_capacity (hdr s)"] by (intro trans [OF unat_add_u64]) auto
  have p: "unat (data_capacity (hdr s) - wpos s mod data_capacity (hdr s)) = capacity_of s - ?i"
    using i by (simp add: unat_simps)
  have 0: "\<not> u64_of_u32 ?n > data_capacity (hdr s)"
    using assms(5) by (simp add: word_less_nat_alt)
  have 1: "\<not> wpos s - rpos s + u64_of_u32 ?n > data_capacity (hdr s)"
    using u assms(5) by (simp add: word_less_nat_alt)
  have 2: "data_capacity (hdr s) - wpos s mod data_capacity (hdr s) < u64_of_u32 ?n"
    using p assms(6) by (simp add: word_less_nat_alt)
  have 3: "\<not> ?i + 32 \<le> length (data_bytes s)" using assms(4,7) by linarith
  have "varlen_reserve_loop ?n psize mt (wpos s) w s = Some (Inl out_of_bounds)"
    using 1 2 3 assms(2,3)
    by (subst varlen_reserve_loop.simps) (simp add: Let_def store_header_def unat_mod)
  then show ?thesis using assms(1) 0 by (simp add: varlen_try_reserve_def)
qed

text \<open>
  The wrap-padding header is 32 bytes whatever the space before the end of the region. When
  the mapping ends with the data region and fewer than 32 bytes remain before it, a reservation
  that has to wrap stores its dummy header past the end of the mapping.
\<close>

theorem varlen_pad_header_overruns:
  assumes "\<not> vpending w" "data_ptr w = sizeof_control_block" "data_capacity (hdr s) \<noteq> 0"
    and "length (data_bytes s) = capacity_of s"
    and "unat (wpos s - rpos s) + unat (needed_bytes psize s) \<le> capacity_of s"
    and "capacity_of s - unat (wpos s) mod capacity_of s < unat (needed_bytes psize s)"
    and "capacity_of s - unat (wpos s) mod capacity_of s < 32"
  shows "varlen_try_reserve w s psize mt = Some (Inl out_of_bounds)"
  using assms by (rule reserve_overruns)

definition overrun_segment :: segment where
  "overrun_segment =
     (fresh_segment 64)\<lparr>hdr := (default_control_block\<lparr>data_capacity := 64, data_alignment := 8,
        rb_meta := (rb_meta default_control_block)\<lparr>write_pos := 40, commit_pos := 40, read_pos := 40\<rparr>\<rparr>)\<rparr>"

theorem varlen_pad_header_overruns_witness:
  "varlen_try_reserve \<lparr>data_ptr = sizeof_control_block, vbackoff = new_atomic_backoff 256,
     vpending = False, last_position = 0\<rparr> overrun_segment 8 default_meta = Some (Inl out_of_bounds)"
  by (rule varlen_pad_header_overruns)
    (simp_all add: overrun_segment_def fresh_segment_def default_control_block_def needed_bytes_def
      align_up_u32_def varlen_slot_header_size_def)

text \<open>
  That overrun is reachable through the public interface: on a ring of 64 bytes with 8-byte
  alignment, set up the way the examples do it, sending and receiving one 8-byte message and
  sending another writes outside the mapping.
\<close>

theorem varlen_overrun_reachable:
  "map_option (chan_run varlen_chan_send (varlen_chan_recv 8)
     [Send (replicate 8 1, default_meta), Recv, Send (replicate 8 2, default_meta)])
     (varlen_ring_open (fresh_segment 64) 64 8) = Some (Inl out_of_bounds)"
  by code_simp

text \<open>
  C39: The 32-bit slot size wraps. For every payload size in the last 32 values below \<open>2 ^ 32\<close>,
  header plus payload is computed modulo \<open>2 ^ 32\<close> as fewer than 96 bytes, so a small, empty ring
  answers \<open>ok\<close> and hands out a payload pointer for almost 4 GiB instead of
  \<open>message_too_large\<close>.
\<close>

theorem varlen_oversize_wraps:
  assumes inv: "varlen_inv (b + 2 * capacity_of s) w s" and idle: "\<not> vpending w"
    and empty: "varlen_slots s = []" and cap: "192 \<le> capacity_of s" "capacity_of s < 2 ^ 31"
    and huge: "2 ^ 32 - 32 \<le> unat psize"
  shows "capacity_of s < unat psize \<and>
    (\<exists>res w' s'. varlen_try_reserve w s psize mt = Some (Inr (res, w', s')) \<and> status res = rs_ok)"
proof -
  let ?v = "varlen_slot_header_size + psize" and ?n = "needed_bytes psize s"
  have G: "is_valid_data_alignment (data_alignment (hdr s))" "align_of s \<le> 64"
    using varlen_geometryD(1) align_of_le varlen_invD(1) [OF inv] by auto
  have inv': "varlen_inv (b + capacity_of s + capacity_of s) w s"
    using inv by (simp add: add.assoc mult_2)
  have "unat ?v = (32 + unat psize) mod 2 ^ 32"
    by (simp add: varlen_slot_header_size_def unat_word_ariths)
  also have "\<dots> = 32 + unat psize - 2 ^ 32"
    using huge unat_u32_lt [of psize] by (subst le_mod_geq) auto
  finally have v: "unat ?v < 32" using unat_u32_lt [of psize] by linarith
  have n: "unat ?n < 96"
    using align_up_u32_bounds(2) [OF G(1), of ?v] G(2) v by (simp add: needed_bytes_def)
  have c: "unat (wpos s) - unat (rpos s) = 0"
    using varlen_invD(3,9) [OF inv] empty idle by simp
  have "varlen_accepts psize s"
    using n cap(1) c by (auto simp: varlen_accepts_def span_bytes_def Let_def)
  then have "\<exists>res w' s'. varlen_try_reserve w s psize mt = Some (Inr (res, w', s')) \<and> status res = rs_ok"
    using varlen_try_reserve_eq [OF inv idle, of psize mt] varlen_accepts_iff [OF inv', of psize]
    by (simp add: headed_result_def)
  moreover have "capacity_of s < unat psize" using cap(2) huge by simp
  ultimately show ?thesis by simp
qed


theorem varlen_oversize_wraps_witness:
  "\<exists>w s res w' s'. capacity_of s = 256 \<and>
    varlen_try_reserve w s 0xFFFFFFF0 default_meta = Some (Inr (res, w', s')) \<and> status res = rs_ok"
proof -
  have v: "is_valid_data_alignment 32" "(256 :: u64) mod u64_of_u32 32 = 0"
    by (simp_all add: is_valid_data_alignment_def u64_of_u32_def)
  then obtain w r s where o: "varlen_ring_open (fresh_segment 256) 256 32 = Some (w, r, s)"
    "capacity_of s = 256" "rpos s = 0" "cpos s = 0" "\<not> vpending w"
    by (simp add: varlen_ring_open_def init_control_block_def Let_def new_varlen_writer_def
        fresh_segment_def)
  have i: "varlen_inv (0 + 2 * capacity_of s) w s"
    using varlen_ring_open_inv(1) [OF o(1), where k = 1 and maxsz = 0] o(2)
    by (simp add: fresh_segment_def varlen_chan_inv_def)
  have e: "varlen_slots s = []" using o by (simp add: varlen_slots_def)
  have "\<exists>res w' s'. varlen_try_reserve w s 0xFFFFFFF0 default_meta = Some (Inr (res, w', s')) \<and>
      status res = rs_ok"
    using varlen_oversize_wraps [OF i o(5) e, of "0xFFFFFFF0" default_meta] o(2) by simp
  with o(2) show ?thesis by blast
qed


section \<open>\<open>next_payload_size\<close>\<close>

text \<open>
  \<open>next_payload_size\<close> is 0 on an empty ring and otherwise the payload size in the header at
  the consumer front. That is the size of the next message exactly when no skipped slot lies in
  front of it: behind wrap padding it is 0 although a message is ready.
\<close>

theorem next_payload_size_front:
  assumes inv: "varlen_inv b w s" and r: "data_ptr r = sizeof_control_block"
  shows "next_payload_size r s =
    Inr (case varlen_slots s of [] \<Rightarrow> 0 | Pad _ # _ \<Rightarrow> 0 | Msg _ pl _ # _ \<Rightarrow> word_of_nat (length pl))"
proof (cases "varlen_slots s")
  case Nil
  have "unat (rpos s) = unat (cpos s)" using varlen_invD(3) [OF inv] Nil by simp
  then show ?thesis using Nil by (simp add: next_payload_size_def word_le_nat_alt)
next
  case (Cons v vs)
  note R = varlen_read_round [OF varlen_inv_published [OF inv] Cons r]
  have "\<not> cpos s \<le> rpos s" using R(1) by simp
  then show ?thesis
    using R(6) varlen_geometryD(3) [OF varlen_invD(1) [OF inv]] Cons
    by (cases v) (auto simp: next_payload_size_def vpayload_length_def)
qed

theorem next_payload_size_front_witness:
  "\<exists>s. varlen_contents s = [([1, 2, 3], default_meta)] \<and>
    next_payload_size \<lparr>data_ptr = sizeof_control_block\<rparr> s =
      Inr (case varlen_slots s of [] \<Rightarrow> 0 | Pad _ # _ \<Rightarrow> 0 | Msg _ pl _ # _ \<Rightarrow> word_of_nat (length pl))"
proof -
  obtain w s where s: "varlen_inv (2 * 128) w s" "varlen_contents s = [([1, 2, 3], default_meta)]"
    by (rule varlen_example_message)
  then show ?thesis
    using next_payload_size_front [OF s(1), of "\<lparr>data_ptr = sizeof_control_block\<rparr>"] by auto
qed


section \<open>Spinning\<close>

text \<open>
  \<open>spin_until_read\<close> returns as soon as a message the handler accepts has been published:
  if the ring shows nothing on the first \<open>n\<close> attempts and the handler consumes the message found
  by the next one, \<open>n + 1\<close> attempts suffice, whatever the producer does to the segment during
  the pauses.
\<close>

theorem varlen_spin_until_read_returns:
  assumes "\<And>i. i < n \<Longrightarrow> varlen_read handler r h (segs i) = Inr (False, h, segs' i)"
    and "\<And>i. i < n \<Longrightarrow> env (j + i) (segs' i) = segs (Suc i)"
    and "varlen_read handler r h (segs n) = Inr (True, h', t)" and "n < fuel"
  shows "\<exists>b'. varlen_spin_until_read fuel env j handler b r h (segs 0) = Some (Inr (h', b', t))"
  using assms
proof (induction n arbitrary: segs segs' j b fuel)
  case 0
  then show ?case by (cases fuel) auto
next
  case (Suc n)
  obtain f where f: "fuel = Suc f" "n < f" using Suc.prems(4) by (cases fuel) auto
  have "\<exists>b'. varlen_spin_until_read f env (Suc j) handler (snd (backoff_pause b)) r h (segs (Suc 0))
      = Some (Inr (h', b', t))"
    using Suc.prems(1) [of "Suc _"] Suc.prems(2) [of "Suc _"] Suc.prems(3) f(2)
    by (intro Suc.IH [of "\<lambda>i. segs (Suc i)" "\<lambda>i. segs' (Suc i)"]) auto
  then show ?case
    using Suc.prems(1) [of 0] Suc.prems(2) [of 0] f(1) by simp
qed

theorem varlen_spin_until_read_returns_witness:
  "\<exists>env s b' t. varlen_contents s = [] \<and>
    varlen_spin_until_read 2 env 0 (\<lambda>s p n mt rsv h. Inr (True, n)) (new_atomic_backoff 256)
      \<lparr>data_ptr = sizeof_control_block\<rparr> 0 s = Some (Inr (3, b', t)) \<and> varlen_contents t = []"
proof -
  let ?r = "\<lparr>data_ptr = sizeof_control_block\<rparr>" and ?f = "\<lambda>s p n mt rsv h. Inr (True, n)"
  obtain w0 and r0 :: varlen_reader and s0 where s0: "varlen_inv (4 * 128) w0 s0"
    "rpos s0 = 0" "cpos s0 = 0" "varlen_contents s0 = []"
    by (rule varlen_example_opens)
  have e: "varlen_slots s0 = []" using s0 by (simp add: varlen_slots_def)
  obtain w1 s1 where s1: "varlen_inv (2 * 128) w1 s1"
    "varlen_contents s1 = [([1, 2, 3], default_meta)]"
    by (rule varlen_example_message)
  obtain t where t: "varlen_read ?f ?r 0 s1 = Inr (True, 3, t)" "varlen_contents t = []"
    by (rule varlen_read_law [OF s1(1), of ?r ?f 0])
      (use s1 skipped_message in \<open>fastforce simp del: load_bytes_data\<close>)+
  obtain b' where "varlen_spin_until_read 2 (\<lambda>_ _. s1) 0 ?f (new_atomic_backoff 256) ?r 0 s0 =
      Some (Inr (3, b', t))"
    using varlen_spin_until_read_returns [of 1 ?f ?r 0 "\<lambda>i. if i = 0 then s0 else s1" "\<lambda>_. s0"
        "\<lambda>_ _. s1" 0 3 t 2 "new_atomic_backoff 256"]
      varlen_read_none [OF varlen_inv_published [OF s0(1)] e, of ?f ?r 0] t by auto
  with s0(4) t(2) show ?thesis by blast
qed

end
