(* ===== verification/Notify_Protocol.thy ===== *)
theory Notify_Protocol
  imports Notify_Word
begin

text \<open>
  The blocking protocol on a notify word: \<open>wait_on_notify_word\<close>, its timed variant and the
  sequence-change convenience wrappers (\<open>include/spscring/notify_word.hpp\<close>) against a bumper
  that publishes, bumps and wakes (the tail of every \<open>commit\<close> and \<open>read_advance\<close>), interleaved
  at the granularity of single atomic operations on the word and of single futex calls. The
  futex is the kernel's: a wait compares the word with the expected value and enqueues in one
  step, a wake releases every enqueued thread, and an enqueued thread may also return for no
  reason or on its timeout.
\<close>

section \<open>The waiter\<close>

text \<open>
  What \<open>pred()\<close> looks at: state the bumper publishes before it bumps, or the word's own
  sequence (\<open>wait_for_seq_change\<close>).
\<close>

datatype wpred = until_published | until_seq_change u32

text \<open>
  Where a waiter is: before its first predicate check of a round, before the \<open>fetch_or\<close>, before
  the second check (with the value \<open>fetch_or\<close> returned), before the deadline check of the timed
  variant, before the futex call, in the kernel, before the clean-up, returned.
\<close>

datatype wpc =
    w_check1 | w_mark | w_check2 u32 | w_deadline u32 | w_wait u32 | w_blocked u32
  | w_exit bool | w_done bool

record waiter =
  wkind :: wpred
  timed :: bool
  wpc :: wpc
  registered_by_us :: bool
  age :: nat                \<comment> \<open>bumps of the word since this waiter's last \<open>fetch_or\<close>\<close>

definition start_wait :: "wpred \<Rightarrow> waiter" where
  "start_wait k = \<lparr>wkind = k, timed = False, wpc = w_check1, registered_by_us = False, age = 0\<rparr>"

definition start_wait_for :: "wpred \<Rightarrow> int \<Rightarrow> waiter" where
  "start_wait_for k timeout_ms =
     (if timeout_ms < 0 then start_wait k else (start_wait k)\<lparr>timed := True\<rparr>)"

definition start_seq_change :: "u32 \<Rightarrow> waiter" where
  "start_seq_change last_seen = start_wait (until_seq_change (notify_seq_value last_seen))"

definition start_seq_change_for :: "u32 \<Rightarrow> int \<Rightarrow> waiter" where
  "start_seq_change_for last_seen timeout_ms =
     start_wait_for (until_seq_change (notify_seq_value last_seen)) timeout_ms"

text \<open>\<open>pred()\<close>: true while the waiter has to wait.\<close>

definition waiting :: "wpred \<Rightarrow> bool \<Rightarrow> u32 \<Rightarrow> bool" where
  "waiting k published word =
     (case k of until_published \<Rightarrow> \<not> published
      | until_seq_change seen \<Rightarrow> notify_seq_value word = seen)"

text \<open>
  One step of a waiter on the shared word. \<open>expired\<close> is the outcome of the deadline comparison;
  there is no step out of the kernel or after returning.
\<close>

definition waiter_step :: "bool \<Rightarrow> bool \<Rightarrow> u32 \<Rightarrow> waiter \<Rightarrow> (waiter \<times> u32) option" where
  "waiter_step expired published word x =
     (case wpc x of
        w_check1 \<Rightarrow>
          Some (x\<lparr>wpc := if waiting (wkind x) published word then w_mark else w_exit True\<rparr>, word)
      | w_mark \<Rightarrow>
          Some (x\<lparr>wpc := w_check2 word,
                  registered_by_us := registered_by_us x \<or> (word AND notify_waiter_bit) = 0,
                  age := 0\<rparr>, set_waiter word)
      | w_check2 marked \<Rightarrow>
          Some (x\<lparr>wpc := if waiting (wkind x) published word
                         then (if timed x then w_deadline marked else w_wait marked)
                         else w_exit True\<rparr>, word)
      | w_deadline marked \<Rightarrow>
          Some (x\<lparr>wpc := if expired then w_exit False else w_wait marked\<rparr>, word)
      | w_wait marked \<Rightarrow>
          Some (x\<lparr>wpc := if word = marked then w_blocked marked else w_check1\<rparr>, word)
      | w_blocked _ \<Rightarrow> None
      | w_exit result \<Rightarrow>
          Some (x\<lparr>wpc := w_done result\<rparr>, if registered_by_us x then clear_waiter word else word)
      | w_done _ \<Rightarrow> None)"


section \<open>The bumper and the system\<close>

datatype bpc = b_idle | b_bump | b_wake

record nstate =
  word :: u32
  published :: bool
  bumper :: bpc
  waiters :: "waiter list"
  carried :: bool           \<comment> \<open>some bump has carried out of the sequence bits\<close>

definition new_nstate :: "u32 \<Rightarrow> waiter list \<Rightarrow> nstate" where
  "new_nstate wd xs =
     \<lparr>word = wd, published = False, bumper = b_idle, waiters = xs, carried = False\<rparr>"

definition release :: "waiter \<Rightarrow> waiter" where
  "release x = (case wpc x of w_blocked _ \<Rightarrow> x\<lparr>wpc := w_check1\<rparr> | _ \<Rightarrow> x)"

text \<open>
  The bumper: store the state change (which may or may not be the one the waiter looks for), bump
  the word, and wake when the bump returned true.
\<close>

definition bumper_step :: "bool \<Rightarrow> nstate \<Rightarrow> nstate" where
  "bumper_step pub s =
     (case bumper s of
        b_idle \<Rightarrow> s\<lparr>published := published s \<or> pub, bumper := b_bump\<rparr>
      | b_bump \<Rightarrow>
          (let (wake, wd) = bump_notify_word (word s)
           in s\<lparr>word := wd, bumper := if wake then b_wake else b_idle,
                waiters := map (\<lambda>x. x\<lparr>age := age x + 1\<rparr>) (waiters s),
                carried := carried s \<or> notify_seq_value (word s) = notify_seq_mask\<rparr>)
      | b_wake \<Rightarrow> s\<lparr>bumper := b_idle, waiters := map release (waiters s)\<rparr>)"

text \<open>One step of the \<open>i\<close>-th waiter; a blocked or returned waiter stays where it is.\<close>

definition run_waiter :: "nat \<Rightarrow> bool \<Rightarrow> nstate \<Rightarrow> nstate" where
  "run_waiter i expired s =
     (if i < length (waiters s) then
        (case waiter_step expired (published s) (word s) (waiters s ! i) of
           None \<Rightarrow> s
         | Some (x, wd) \<Rightarrow> s\<lparr>waiters := (waiters s)[i := x], word := wd\<rparr>)
      else s)"

definition kernel_return :: "nat \<Rightarrow> nstate \<Rightarrow> nstate" where
  "kernel_return i s =
     (if i < length (waiters s) then s\<lparr>waiters := (waiters s)[i := release (waiters s ! i)]\<rparr> else s)"

inductive nstep :: "nstate \<Rightarrow> nstate \<Rightarrow> bool" where
  waiter: "nstep s (run_waiter i expired s)"
| kernel: "nstep s (kernel_return i s)"
| bump: "nstep s (bumper_step pub s)"

inductive_cases nstepE: "nstep s t"

text \<open>
  Reachable states, under the one scheduling assumption the protocol needs: a waiter is not
  overtaken by \<open>2 ^ 31\<close> bumps between its \<open>fetch_or\<close> and its futex call.
\<close>

inductive nreach :: "nstate \<Rightarrow> nstate \<Rightarrow> bool" for s0 where
  start: "nreach s0 s0"
| step: "nreach s0 s \<Longrightarrow> nstep s t \<Longrightarrow> list_all (\<lambda>x. age x < 2 ^ 31) (waiters t) \<Longrightarrow> nreach s0 t"


text \<open>Executions as explicit schedules.\<close>

datatype naction = run_w nat bool | ret_k nat | run_b bool

primrec napply :: "naction \<Rightarrow> nstate \<Rightarrow> nstate" where
  "napply (run_w i expired) s = run_waiter i expired s"
| "napply (ret_k i) s = kernel_return i s"
| "napply (run_b pub) s = bumper_step pub s"

definition nrun :: "naction list \<Rightarrow> nstate \<Rightarrow> nstate" where
  "nrun acts s = fold napply acts s"

lemma nstep_napply: "nstep s (napply a s)"
  by (cases a) (auto intro: nstep.intros)

lemma napply_age:
  assumes "list_all (\<lambda>x. age x < n) (waiters s)"
  shows "list_all (\<lambda>x. age x < Suc n) (waiters (napply a s))"
proof -
  have r: "age (release x) = age x" for x by (simp add: release_def split: wpc.split)
  have w: "age y \<le> age x" if "waiter_step e p wd x = Some (y, wd')" for e p wd x y wd'
    using that by (auto simp: waiter_step_def split: wpc.splits)
  show ?thesis
    using assms
    by (cases a)
      (force simp: run_waiter_def kernel_return_def bumper_step_def Let_def bump_notify_word_def
        list_all_length nth_list_update r dest: w split: option.splits bpc.splits)+
qed

text \<open>A schedule of fewer than \<open>2 ^ 31\<close> actions stays within the scheduling assumption.\<close>

lemma nrun_reach:
  "nreach s0 s \<Longrightarrow> list_all (\<lambda>x. age x < n) (waiters s) \<Longrightarrow> n + length acts \<le> 2 ^ 31 \<Longrightarrow>
   nreach s0 (nrun acts s)"
proof (induction acts arbitrary: s n)
  case Nil
  then show ?case by (simp add: nrun_def)
next
  case (Cons a acts)
  have A: "list_all (\<lambda>x. age x < Suc n) (waiters (napply a s))" by (rule napply_age [OF Cons.prems(2)])
  then have "list_all (\<lambda>x. age x < 2 ^ 31) (waiters (napply a s))"
    using Cons.prems(3) by (auto simp: list_all_length)
  with Cons.prems(1) nstep_napply have "nreach s0 (napply a s)" by (rule nreach.step)
  from Cons.IH [OF this A] Cons.prems(3) show ?case by (simp add: nrun_def)
qed


section \<open>One waiter: the invariant\<close>

text \<open>
  Between its \<open>fetch_or\<close> and its futex call the waiter knows the word up to the bumps it has
  missed; in the kernel it has left its flag in the word, and if what it waits for has happened
  the bumper has not yet passed its bump and wake.
\<close>

definition waiter_inv :: "nstate \<Rightarrow> waiter \<Rightarrow> bool" where
  "waiter_inv s x =
     (let ahead = (waiting (wkind x) (published s) (word s) \<or> bumper s = b_bump)
      in case wpc x of
           w_check2 m \<Rightarrow> word s = set_waiter m + word_of_nat (age x)
         | w_deadline m \<Rightarrow> timed x \<and> word s = set_waiter m + word_of_nat (age x) \<and> (age x = 0 \<longrightarrow> ahead)
         | w_wait m \<Rightarrow> word s = set_waiter m + word_of_nat (age x) \<and> (age x = 0 \<longrightarrow> ahead)
         | w_blocked m \<Rightarrow> has_waiter m \<and> (bumper s = b_wake \<or> word s = m \<and> ahead)
         | w_exit result \<Rightarrow> result \<or> timed x
         | w_done result \<Rightarrow> result \<or> timed x
         | _ \<Rightarrow> True)"

text \<open>The word can only be back at the value the waiter expects if it was never bumped.\<close>

lemma set_waiter_add: "\<not> has_waiter m \<Longrightarrow> set_waiter m = m + notify_waiter_bit"
proof -
  assume "\<not> has_waiter m"
  then have "(m AND notify_waiter_bit) = 0" by simp
  then show ?thesis unfolding set_waiter_def by (simp add: disjunctive_add_eq_or)
qed

lemma expected_word_unbumped:
  assumes "m = set_waiter m + word_of_nat n" "n < 2 ^ 31"
  shows "n = 0 \<and> has_waiter m"
proof (cases "has_waiter m")
  case True
  then have "word_of_nat n = (0 :: u32)" using assms(1) by (simp add: set_waiter_id)
  then have "unat (word_of_nat n :: u32) = 0" by simp
  then have "n mod 2 ^ 32 = 0" by (simp add: unat_of_nat)
  with assms(2) True show ?thesis by simp
next
  case False
  then have "notify_waiter_bit + word_of_nat n = (0 :: u32)"
    using assms(1) set_waiter_add [of m] by (simp add: add.assoc)
  then have "unat (notify_waiter_bit + word_of_nat n) = 0" by simp
  then have "(2 ^ 31 + n) mod 2 ^ 32 = 0"
    by (simp add: notify_waiter_bit_def unat_word_ariths unat_of_nat mod_add_right_eq)
  with assms(2) show ?thesis by simp
qed

lemma waiter_inv_run:
  assumes "waiters s = [x]" "waiter_inv s x" "age x < 2 ^ 31"
    and "waiters (run_waiter i e s) = [y]"
  shows "waiter_inv (run_waiter i e s) y"
  using assms expected_word_unbumped [of "word s" "age x"]
  by (cases "wpc x"; cases i)
    (auto simp: run_waiter_def waiter_step_def waiter_inv_def Let_def split: if_splits)

lemma waiter_inv_kernel:
  assumes "waiters s = [x]" "waiter_inv s x" "waiters (kernel_return i s) = [y]"
  shows "waiter_inv (kernel_return i s) y"
  using assms
  by (cases "wpc x"; cases i)
    (auto simp: kernel_return_def release_def waiter_inv_def Let_def)

lemma waiting_stable_publish:
  "\<not> waiting k p wd \<Longrightarrow> \<not> waiting k (p \<or> q) wd"
  by (cases k) (auto simp: waiting_def)

lemma waiter_inv_bump:
  assumes "waiters s = [x]" "waiter_inv s x" "waiters (bumper_step pub s) = [y]"
  shows "waiter_inv (bumper_step pub s) y"
  using assms
  by (cases "bumper s"; cases "wpc x")
    (auto simp: bumper_step_def waiter_inv_def Let_def bump_notify_word_def release_def algebra_simps)

lemma nstep_length: "nstep s t \<Longrightarrow> length (waiters t) = length (waiters s)"
  by (erule nstepE)
    (auto simp: run_waiter_def kernel_return_def bumper_step_def Let_def bump_notify_word_def
      split: option.splits bpc.splits)

lemma nstep_waiter_inv:
  assumes "nstep s t" "waiters s = [x]" "waiter_inv s x" "age x < 2 ^ 31" "waiters t = [y]"
  shows "waiter_inv t y"
  using assms(1)
proof (cases rule: nstep.cases)
  case (waiter i e)
  with assms waiter_inv_run show ?thesis by simp
next
  case (kernel i)
  with assms waiter_inv_kernel show ?thesis by simp
next
  case (bump pub)
  with assms waiter_inv_bump show ?thesis by simp
qed

lemma nreach_waiter_inv:
  assumes "nreach (new_nstate wd [x0]) s" "wpc x0 = w_check1" "age x0 = 0"
  shows "\<exists>x. waiters s = [x] \<and> waiter_inv s x \<and> age x < 2 ^ 31"
  using assms
proof (induction rule: nreach.induct)
  case start
  then show ?case by (simp add: new_nstate_def waiter_inv_def)
next
  case (step s t)
  then obtain x where x: "waiters s = [x]" "waiter_inv s x" "age x < 2 ^ 31" by auto
  obtain y where y: "waiters t = [y]"
    using nstep_length [OF step.hyps(2)] x(1) by (cases "waiters t") auto
  show ?case using nstep_waiter_inv [OF step.hyps(2) x y] y step.hyps(3) by simp
qed

lemmas start_defs = start_wait_def start_wait_for_def start_seq_change_def start_seq_change_for_def

lemma start_wait_for_simps [simp]:
  "wpc (start_wait_for k ms) = w_check1" "age (start_wait_for k ms) = 0"
  "wkind (start_wait_for k ms) = k" "registered_by_us (start_wait_for k ms) = False"
  by (simp_all add: start_defs)


section \<open>No lost wakeup\<close>

text \<open>
  C21: No lost wakeup. In every reachable interleaving of one waiter (blocking or timed, on a
  published state or on a sequence change) with the bumper, a waiter that sits in the kernel
  although its wait is over is about to be released: the bumper is between its store and its
  wake. In particular no waiter sleeps through once the bumper is idle.
\<close>

theorem notify_no_lost_wakeup:
  assumes "nreach (new_nstate wd [start_wait_for k timeout_ms]) s" "waiters s = [x]"
    and "wpc x = w_blocked m" "\<not> waiting (wkind x) (published s) (word s)"
  shows "bumper s = b_wake \<or> (bumper s = b_bump \<and> fst (bump_notify_word (word s)))"
proof -
  obtain y where "waiters s = [y]" "waiter_inv s y"
    using nreach_waiter_inv [OF assms(1)] by auto
  with assms(2-4) show ?thesis by (auto simp: waiter_inv_def bump_notify_word_def Let_def)
qed

text \<open>
  A schedule that puts the waiter to sleep: its first round only sets the flag (the futex call
  still expects the unflagged word), the second round blocks.
\<close>

definition sleep_schedule :: "naction list" where
  "sleep_schedule = replicate 8 (run_w 0 False)"

lemma schedule_reach:
  "length acts < 2 ^ 31 \<Longrightarrow>
   nreach (new_nstate wd [start_wait_for k ms]) (nrun acts (new_nstate wd [start_wait_for k ms]))"
  by (rule nrun_reach [where n = 1])
    (auto intro: nreach.start simp: new_nstate_def)

theorem notify_no_lost_wakeup_witness:
  "\<exists>s x. nreach (new_nstate 0 [start_wait_for until_published (-1)]) s \<and> waiters s = [x] \<and>
    wpc x = w_blocked notify_waiter_bit \<and> published s \<and>
    (bumper s = b_wake \<or> (bumper s = b_bump \<and> fst (bump_notify_word (word s))))"
proof -
  let ?init = "new_nstate 0 [start_wait_for until_published (-1)]"
  let ?s = "nrun (sleep_schedule @ [run_b True]) ?init"
  have r: "nreach ?init ?s" by (rule schedule_reach) (simp add: sleep_schedule_def)
  have e: "map wpc (waiters ?s) = [w_blocked notify_waiter_bit] \<and>
      map wkind (waiters ?s) = [until_published] \<and> published ?s"
    by code_simp
  then obtain x where x: "waiters ?s = [x]" "wpc x = w_blocked notify_waiter_bit"
    "wkind x = until_published" "published ?s" by auto
  have "\<not> waiting (wkind x) (published ?s) (word ?s)" using x(3,4) by (simp add: waiting_def)
  from notify_no_lost_wakeup [OF r x(1,2) this] r x show ?thesis by blast
qed

text \<open>
  The waiter gets out. In every reachable state in which the bumper is idle and the wait is
  over, the waiter is not in the kernel and returns within four of its own steps; the blocking
  variant returns true.
\<close>

theorem notify_waiter_returns:
  assumes "nreach (new_nstate wd [start_wait_for k timeout_ms]) s" "waiters s = [x]"
    and "bumper s = b_idle" "\<not> waiting (wkind x) (published s) (word s)"
  shows "\<exists>n \<le> 4. \<exists>y result. waiters (nrun (replicate n (run_w 0 expired)) s) = [y] \<and>
    wpc y = w_done result \<and> (\<not> timed x \<longrightarrow> result)"
proof -
  obtain y where y: "waiters s = [y]" "waiter_inv s y" "age y < 2 ^ 31"
    using nreach_waiter_inv [OF assms(1)] by auto
  then have inv: "waiter_inv s x" "age x < 2 ^ 31" using assms(2) by auto
  have seq: "\<not> waiting (wkind x) (published s) (set_waiter (word s))"
    using assms(4) by (simp add: waiting_def split: wpred.splits)
  note S = nrun_def run_waiter_def waiter_step_def assms(2,4) seq
  show ?thesis
  proof (cases "wpc x")
    case w_check1
    then show ?thesis by (intro exI [of _ 2]) (auto simp: S numeral_2_eq_2)
  next
    case w_mark
    then show ?thesis by (intro exI [of _ 3]) (auto simp: S numeral_3_eq_3)
  next
    case (w_check2 m)
    then show ?thesis by (intro exI [of _ 2]) (auto simp: S numeral_2_eq_2)
  next
    case (w_deadline m)
    then have ne: "word s \<noteq> m" and tm: "timed x"
      using inv assms(3,4) expected_word_unbumped [of m "age x"] by (auto simp: waiter_inv_def Let_def)
    show ?thesis
    proof (cases expired)
      case True
      then show ?thesis using w_deadline tm
        by (intro exI [of _ 2]) (auto simp: S numeral_2_eq_2)
    next
      case False
      then show ?thesis using w_deadline tm ne
        by (intro exI [of _ 4]) (auto simp: S numeral_eq_Suc)
    qed
  next
    case (w_wait m)
    then have "word s \<noteq> m"
      using inv assms(3,4) expected_word_unbumped [of m "age x"] by (auto simp: waiter_inv_def Let_def)
    then show ?thesis using w_wait by (intro exI [of _ 3]) (auto simp: S numeral_3_eq_3)
  next
    case (w_blocked m)
    then show ?thesis using inv assms(3,4) by (simp add: waiter_inv_def Let_def)
  next
    case (w_exit b)
    then show ?thesis using inv by (intro exI [of _ 1]) (auto simp: S waiter_inv_def)
  next
    case (w_done b)
    then show ?thesis using inv by (intro exI [of _ 0]) (auto simp: S waiter_inv_def)
  qed
qed

theorem notify_waiter_returns_witness:
  "\<exists>s n y. nreach (new_nstate 0 [start_wait_for (until_seq_change 0) (-1)]) s \<and> n \<le> 4 \<and>
    waiters (nrun (replicate n (run_w 0 False)) s) = [y] \<and> wpc y = w_done True"
proof -
  let ?init = "new_nstate 0 [start_wait_for (until_seq_change 0) (-1)]"
  let ?s = "nrun (sleep_schedule @ replicate 3 (run_b True)) ?init"
  have r: "nreach ?init ?s" by (rule schedule_reach) (simp add: sleep_schedule_def)
  have e: "map wkind (waiters ?s) = [until_seq_change 0] \<and> map timed (waiters ?s) = [False] \<and>
      notify_seq_value (word ?s) = 1 \<and> bumper ?s = b_idle"
    by code_simp
  then obtain x where x: "waiters ?s = [x]" "wkind x = until_seq_change 0" "\<not> timed x" by auto
  have "\<not> waiting (wkind x) (published ?s) (word ?s)" using e x(2) by (simp add: waiting_def)
  from notify_waiter_returns [OF r x(1) _ this, of False] e x(3)
  obtain n y where "n \<le> 4" "waiters (nrun (replicate n (run_w 0 False)) ?s) = [y]" "wpc y = w_done True"
    by auto
  with r show ?thesis by blast
qed


section \<open>Who set the flag\<close>

text \<open>
  As long as no bump carries out of the sequence bits, a flag that was clear at the start is set
  exactly while the waiter has registered and not yet left; a flag that was already set then
  stays set, and the waiter never counts it as its own.
\<close>

definition flag_inv :: "u32 \<Rightarrow> nstate \<Rightarrow> waiter \<Rightarrow> bool" where
  "flag_inv wd s x \<longleftrightarrow> (\<not> carried s \<longrightarrow>
     (if has_waiter wd then has_waiter (word s) \<and> \<not> registered_by_us x
      else (has_waiter (word s) \<longleftrightarrow> registered_by_us x \<and> (\<forall>r. wpc x \<noteq> w_done r))))"

lemma seq_mask_iff: "notify_seq_value w = notify_seq_mask \<longleftrightarrow> unat (notify_seq_value w) = 2 ^ 31 - 1"
  by (simp add: word_unat_eq_iff notify_seq_mask_def)

lemma bump_keeps_flag:
  "notify_seq_value w \<noteq> notify_seq_mask \<Longrightarrow> has_waiter (w + 1) \<longleftrightarrow> has_waiter w"
  using bump_waiter [of w] seq_mask_iff [of w] by (simp add: bump_notify_word_def)

lemma flag_inv_step:
  assumes "nstep s t" "waiters s = [x]" "flag_inv wd s x" "waiters t = [y]"
  shows "flag_inv wd t y"
  using assms(1)
proof (cases rule: nstep.cases)
  case (waiter i e)
  with assms(2-4) show ?thesis
    by (cases "wpc x"; cases i)
      (auto simp: flag_inv_def run_waiter_def waiter_step_def split: if_splits)
next
  case (kernel i)
  with assms(2-4) show ?thesis
    by (cases "wpc x"; cases i) (auto simp: flag_inv_def kernel_return_def release_def)
next
  case (bump pub)
  with assms(2-4) show ?thesis
    using bump_keeps_flag [of "word s"]
    by (cases "bumper s"; cases "wpc x")
      (auto simp: flag_inv_def bumper_step_def Let_def bump_notify_word_def release_def)
qed

lemma nreach_flag_inv:
  assumes "nreach (new_nstate wd [x0]) s" "\<not> registered_by_us x0" "wpc x0 = w_check1"
  shows "\<exists>x. waiters s = [x] \<and> flag_inv wd s x"
  using assms
proof (induction rule: nreach.induct)
  case start
  then show ?case by (simp add: new_nstate_def flag_inv_def)
next
  case (step s t)
  then obtain x where x: "waiters s = [x]" "flag_inv wd s x" by auto
  obtain y where y: "waiters t = [y]"
    using nstep_length [OF step.hyps(2)] x(1) by (cases "waiters t") auto
  show ?case using flag_inv_step [OF step.hyps(2) x y] y by simp
qed

text \<open>
  C31: Wake system calls only for waiters. From a word with a clear flag, and until the sequence
  wraps, a bump asks for a wake exactly while the waiter is registered: never before it registers
  and never after it has returned.
\<close>

theorem notify_wake_only_for_waiter:
  assumes "nreach (new_nstate wd [start_wait_for k timeout_ms]) s" "waiters s = [x]"
    and "\<not> has_waiter wd" "\<not> carried s"
  shows "fst (bump_notify_word (word s)) \<longleftrightarrow> registered_by_us x \<and> (\<forall>r. wpc x \<noteq> w_done r)"
proof -
  obtain y where "waiters s = [y]" "flag_inv wd s y" using nreach_flag_inv [OF assms(1)] by auto
  with assms(2-4) show ?thesis by (auto simp: flag_inv_def bump_notify_word_def)
qed

theorem notify_wake_only_for_waiter_witness:
  "\<exists>s x. nreach (new_nstate 0 [start_wait_for until_published 5]) s \<and> waiters s = [x] \<and>
    wpc x = w_done False \<and> \<not> fst (bump_notify_word (word s))"
proof -
  let ?init = "new_nstate 0 [start_wait_for until_published 5]"
  let ?s = "nrun (replicate 5 (run_w 0 True)) ?init"
  have r: "nreach ?init ?s" by (rule schedule_reach) simp
  have e: "map wpc (waiters ?s) = [w_done False] \<and> \<not> carried ?s" by code_simp
  then obtain x where x: "waiters ?s = [x]" "wpc x = w_done False" by auto
  from notify_wake_only_for_waiter [OF r x(1)] e x r
  have "\<not> fst (bump_notify_word (word ?s))" by auto
  with r x show ?thesis by blast
qed

text \<open>
  A flag left behind by a carry is not cleaned up. If the flag is already set when a waiter
  starts, the waiter finds it set, does not count it as its own and leaves it set when it
  returns, so every later bump asks for a wake with nobody waiting.
\<close>

theorem notify_stale_flag_stays:
  assumes "nreach (new_nstate wd [start_wait_for k timeout_ms]) s" "has_waiter wd" "\<not> carried s"
  shows "fst (bump_notify_word (word s))"
proof -
  obtain y where "waiters s = [y]" "flag_inv wd s y" using nreach_flag_inv [OF assms(1)] by auto
  with assms(2,3) show ?thesis by (simp add: flag_inv_def bump_notify_word_def)
qed

theorem notify_stale_flag_stays_witness:
  "\<exists>s x. nreach (new_nstate (0x7FFFFFFF + 1) [start_wait_for until_published (-1)]) s \<and>
    waiters s = [x] \<and> wpc x = w_done True \<and> fst (bump_notify_word (word s))"
proof -
  let ?init = "new_nstate (0x7FFFFFFF + 1) [start_wait_for until_published (-1)]"
  let ?s = "nrun (replicate 4 (run_w 0 False) @ replicate 3 (run_b True) @
    replicate 3 (run_w 0 False)) ?init"
  have r: "nreach ?init ?s" by (rule schedule_reach) simp
  have e: "map wpc (waiters ?s) = [w_done True] \<and> \<not> carried ?s" by code_simp
  then obtain x where x: "waiters ?s = [x]" "wpc x = w_done True" by auto
  have "has_waiter (0x7FFFFFFF + 1)" by (simp add: notify_waiter_bit_def)
  from notify_stale_flag_stays [OF r this] e have "fst (bump_notify_word (word ?s))" by simp
  with r x show ?thesis by blast
qed


section \<open>Two waiters on one word\<close>

text \<open>
  The first waiter, timed, registers the flag and stops before its deadline check; the second,
  indefinite, finds the flag set and goes to sleep; the first finds its deadline passed, clears
  the flag and returns.
\<close>

definition losing_schedule :: "naction list" where
  "losing_schedule =
     replicate 3 (run_w 0 False) @ replicate 4 (run_w 1 False) @ replicate 2 (run_w 0 True)"

definition two_waiters :: "u32 \<Rightarrow> int \<Rightarrow> nstate" where
  "two_waiters wd timeout_ms =
     new_nstate wd [start_wait_for until_published timeout_ms, start_wait until_published]"

lemma clear_set_waiter: "\<not> has_waiter w \<Longrightarrow> clear_waiter (set_waiter w) = w"
  unfolding has_waiter_bit clear_waiter_def set_waiter_def
  by (rule bit_word_eqI) (auto simp: bit_and_iff bit_or_iff bit_not_iff bit_waiter_iff)

text \<open>The second waiter in the kernel, the flag clear, nobody about to wake it.\<close>

definition unreachable_sleeper :: "u32 \<Rightarrow> u32 \<Rightarrow> nstate \<Rightarrow> bool" where
  "unreachable_sleeper marked wd s \<longleftrightarrow>
     map wpc (waiters s) = [w_done False, w_blocked marked] \<and> word s = wd \<and> bumper s = b_idle"

lemma losing_schedule_sleeps:
  assumes "\<not> has_waiter wd" "0 \<le> timeout_ms"
  shows "unreachable_sleeper (set_waiter wd) wd (nrun losing_schedule (two_waiters wd timeout_ms))"
  using assms clear_set_waiter [OF assms(1)]
  by (simp add: unreachable_sleeper_def losing_schedule_def two_waiters_def new_nstate_def nrun_def
      numeral_eq_Suc run_waiter_def waiter_step_def start_wait_for_def start_wait_def waiting_def
      set_waiter_id)

text \<open>A publication, two steps of the bumper, leaves the sleeper alone as long as the flag is clear.\<close>

lemma publication_unnoticed:
  assumes "unreachable_sleeper marked wd s" "\<not> has_waiter wd"
  shows "unreachable_sleeper marked (wd + 1) (nrun [run_b p, run_b q] s)"
    and "published (nrun [run_b p, run_b q] s) = (published s \<or> p)"
  using assms
  by (auto simp: unreachable_sleeper_def nrun_def bumper_step_def bump_notify_word_def Let_def)

lemma publications_unnoticed:
  assumes "unreachable_sleeper marked wd s" "unat wd + n \<le> 2 ^ 31"
  shows "unreachable_sleeper marked (wd + word_of_nat n) (nrun (concat (replicate n [run_b True, run_b True])) s) \<and>
    (0 < n \<longrightarrow> published (nrun (concat (replicate n [run_b True, run_b True])) s))"
  using assms
proof (induction n arbitrary: wd s)
  case 0
  then show ?case by (simp add: nrun_def)
next
  case (Suc n)
  have h: "\<not> has_waiter wd" "unat (wd + 1) = unat wd + 1"
    using Suc.prems(2) by (simp_all add: has_waiter_unat unat_word_ariths)
  let ?t = "nrun [run_b True, run_b True] s"
  note P = publication_unnoticed [OF Suc.prems(1) h(1), of True True]
  have e: "nrun (concat (replicate (Suc n) [run_b True, run_b True])) s =
      nrun (concat (replicate n [run_b True, run_b True])) ?t" by (simp add: nrun_def)
  have w: "wd + 1 + word_of_nat n = wd + word_of_nat (Suc n)" by (simp add: add.assoc)
  have "published ?t" using P(2) by simp
  then have "n = 0 \<Longrightarrow> published (nrun (concat (replicate n [run_b True, run_b True])) ?t)"
    by (simp add: nrun_def)
  with Suc.IH [OF P(1)] h(2) Suc.prems(2) show ?case
    unfolding e w [symmetric] by (cases n) auto
qed

text \<open>
  C40: Two waiters on one word lose a wakeup. From every word with a clear flag and for every
  timeout of the first waiter there is an execution in which the first registers the flag, the
  second, an indefinite one, finds it set and goes to sleep, and the first times out and clears
  the flag. Whatever number of publications then follows before the sequence wraps, each is published and
  bumped without a wake: the second waiter is still in the kernel although its wait is over and
  the bumper is idle.
\<close>

theorem notify_two_waiters_lose_wakeup:
  assumes "0 < n" "unat wd + n \<le> 2 ^ 31" "0 \<le> timeout_ms" "2 * n + 10 < 2 ^ 31"
  defines "s \<equiv> nrun (losing_schedule @ concat (replicate n [run_b True, run_b True])) (two_waiters wd timeout_ms)"
  shows "nreach (two_waiters wd timeout_ms) s \<and>
    map wpc (waiters s) = [w_done False, w_blocked (set_waiter wd)] \<and>
    published s \<and> bumper s = b_idle \<and> word s = wd + word_of_nat n"
proof (intro conjI)
  have "\<not> has_waiter wd" using assms(1,2) by (simp add: has_waiter_unat)
  note S = losing_schedule_sleeps [OF this assms(3)]
  have e: "s = nrun (concat (replicate n [run_b True, run_b True])) (nrun losing_schedule (two_waiters wd timeout_ms))"
    by (simp add: s_def nrun_def)
  note P = publications_unnoticed [OF S assms(2), folded e]
  show "map wpc (waiters s) = [w_done False, w_blocked (set_waiter wd)]" "published s" "bumper s = b_idle"
    "word s = wd + word_of_nat n"
    using P assms(1) by (auto simp: unreachable_sleeper_def)
  have l: "length (concat (replicate n [run_b True, run_b True])) = 2 * n"
    by (simp add: length_concat sum_list_replicate)
  show "nreach (two_waiters wd timeout_ms) s"
    unfolding s_def
    by (rule nrun_reach [where n = 1])
      (use assms(4) l in \<open>auto intro: nreach.start simp: two_waiters_def new_nstate_def start_wait_for_def start_wait_def losing_schedule_def\<close>)
qed

theorem notify_two_waiters_lose_wakeup_witness:
  "\<exists>s. nreach (two_waiters 17 5) s \<and> map wpc (waiters s) = [w_done False, w_blocked (set_waiter 17)] \<and>
    published s \<and> bumper s = b_idle \<and> word s = 1017"
  using notify_two_waiters_lose_wakeup [of 1000 17 5] by auto

end
