(* ===== verification/Fixed_Concurrent.thy ===== *)
theory Fixed_Concurrent
  imports Fixed_Ring
begin

text \<open>
  The fixed ring under real concurrency: \<open>fixed_writer::write\<close> and \<open>fixed_reader::read\<close> cut into
  their single shared-memory accesses (each atomic load and store, and the two copies byte by
  byte), in any interleaving, with acquire loads that may return old values. A load of
  \<open>read_pos\<close> or \<open>commit_pos\<close> by the other thread returns some value the variable has held, not
  older than what the same thread has seen before (coherence); the release stores make what was
  written before them visible to a thread that has loaded them.
\<close>

section \<open>Threads\<close>

text \<open>
  Producer: between calls; about to load \<open>read_pos\<close>; copying the next byte; about to store
  \<open>commit_pos\<close>; about to bump and wake. Consumer likewise.
\<close>

datatype ppc = p_idle | p_load "u8 list" | p_copy "u8 list" nat | p_publish "u8 list" | p_signal

datatype cpc = c_idle | c_copy "u8 list" | c_advance "u8 list" | c_signal

record cstate =
  seg :: segment
  writer :: fixed_writer
  ppc :: ppc
  seen_read :: u64            \<comment> \<open>the last value of \<open>read_pos\<close> the producer loaded\<close>
  cpc :: cpc
  seen_commit :: u64          \<comment> \<open>the last value of \<open>commit_pos\<close> the consumer loaded\<close>
  read_history :: "u64 list"  \<comment> \<open>every value \<open>read_pos\<close> has held\<close>
  commit_history :: "u64 list"
  sent :: "u8 list list"      \<comment> \<open>the frames committed so far\<close>
  received :: "u8 list list"

definition new_cstate :: "fixed_writer \<Rightarrow> segment \<Rightarrow> cstate" where
  "new_cstate w s =
     \<lparr>seg = s, writer = w, ppc = p_idle, seen_read = rpos s, cpc = c_idle, seen_commit = rpos s,
      read_history = [rpos s], commit_history = [cpos s], sent = [], received = []\<rparr>"

inductive cstep :: "cstate \<Rightarrow> cstate \<Rightarrow> bool" where
  p_call: "ppc s = p_idle \<Longrightarrow> length m = item_of (seg s) \<Longrightarrow> cstep s (s\<lparr>ppc := p_load m\<rparr>)"
| p_full: "ppc s = p_load m \<Longrightarrow> r \<in> set (read_history s) \<Longrightarrow> seen_read s \<le> r \<Longrightarrow>
    wpos (seg s) mod data_capacity (hdr (seg s)) = r mod data_capacity (hdr (seg s)) \<Longrightarrow>
    wpos (seg s) > r \<Longrightarrow>
    cstep s (s\<lparr>ppc := p_idle, seen_read := r\<rparr>)"
| p_reserve: "ppc s = p_load m \<Longrightarrow> r \<in> set (read_history s) \<Longrightarrow> seen_read s \<le> r \<Longrightarrow>
    \<not> (wpos (seg s) mod data_capacity (hdr (seg s)) = r mod data_capacity (hdr (seg s)) \<and>
       wpos (seg s) > r) \<Longrightarrow>
    cstep s (s\<lparr>seen_read := r, writer := reserved_writer (writer s) (seg s),
               seg := reserved_segment (seg s), ppc := p_copy m 0\<rparr>)"
| p_byte: "ppc s = p_copy m k \<Longrightarrow> k < length m \<Longrightarrow>
    cstep s (s\<lparr>seg := poke (seg s) (slot_index (seg s) (cpos (seg s)) + k) (m ! k),
               ppc := p_copy m (Suc k)\<rparr>)"
| p_copied: "ppc s = p_copy m (length m) \<Longrightarrow> cstep s (s\<lparr>ppc := p_publish m\<rparr>)"
| p_store: "ppc s = p_publish m \<Longrightarrow>
    cstep s (s\<lparr>seg := update_meta (\<lambda>mt. mt\<lparr>commit_pos := reserved_end (writer s)\<rparr>) (seg s),
               writer := (writer s)\<lparr>pending := False\<rparr>,
               commit_history := commit_history s @ [reserved_end (writer s)],
               sent := sent s @ [m], ppc := p_signal\<rparr>)"
| p_notify: "ppc s = p_signal \<Longrightarrow> cstep s (s\<lparr>seg := signal_commit (seg s), ppc := p_idle\<rparr>)"
| c_empty: "cpc s = c_idle \<Longrightarrow> c \<in> set (commit_history s) \<Longrightarrow> seen_commit s \<le> c \<Longrightarrow>
    c \<le> rpos (seg s) \<Longrightarrow> cstep s (s\<lparr>seen_commit := c\<rparr>)"
| c_found: "cpc s = c_idle \<Longrightarrow> c \<in> set (commit_history s) \<Longrightarrow> seen_commit s \<le> c \<Longrightarrow>
    rpos (seg s) < c \<Longrightarrow> cstep s (s\<lparr>seen_commit := c, cpc := c_copy []\<rparr>)"
| c_byte: "cpc s = c_copy buf \<Longrightarrow> length buf < item_of (seg s) \<Longrightarrow>
    cstep s (s\<lparr>cpc := c_copy (buf @
       [data_bytes (seg s) ! (slot_index (seg s) (rpos (seg s)) + length buf)])\<rparr>)"
| c_copied: "cpc s = c_copy buf \<Longrightarrow> length buf = item_of (seg s) \<Longrightarrow> cstep s (s\<lparr>cpc := c_advance buf\<rparr>)"
| c_store: "cpc s = c_advance buf \<Longrightarrow>
    cstep s (s\<lparr>seg := update_meta (\<lambda>mt. mt\<lparr>read_pos := rpos (seg s) +
                 u64_of_u32 (fixed_item_size (hdr (seg s)))\<rparr>) (seg s),
               read_history := read_history s @ [rpos (seg s) +
                 u64_of_u32 (fixed_item_size (hdr (seg s)))],
               received := received s @ [buf], cpc := c_signal\<rparr>)"
| c_notify: "cpc s = c_signal \<Longrightarrow> cstep s (s\<lparr>seg := signal_read (seg s), cpc := c_idle\<rparr>)"

text \<open>Reachable states, as long as the 64-bit write position has not wrapped.\<close>

inductive creach :: "cstate \<Rightarrow> cstate \<Rightarrow> bool" for s0 where
  start: "creach s0 s0"
| step: "creach s0 s \<Longrightarrow> cstep s t \<Longrightarrow>
    unat (wpos (seg t)) + item_of (seg t) < 2 ^ 64 \<Longrightarrow> creach s0 t"

text \<open>The steps as a function of the scheduler's choice and the value a load returns.\<close>

datatype caction = call_write "u8 list" | run_producer u64 | run_consumer u64

fun capply :: "caction \<Rightarrow> cstate \<Rightarrow> cstate option" where
  "capply (call_write m) s =
     (if ppc s = p_idle \<and> length m = item_of (seg s) then Some (s\<lparr>ppc := p_load m\<rparr>) else None)"
| "capply (run_producer r) s =
     (case ppc s of
        p_idle \<Rightarrow> None
      | p_load m \<Rightarrow>
          if r \<in> set (read_history s) \<and> seen_read s \<le> r then
            (if wpos (seg s) mod data_capacity (hdr (seg s)) = r mod data_capacity (hdr (seg s)) \<and>
                wpos (seg s) > r
             then Some (s\<lparr>ppc := p_idle, seen_read := r\<rparr>)
             else Some (s\<lparr>seen_read := r, writer := reserved_writer (writer s) (seg s),
                          seg := reserved_segment (seg s), ppc := p_copy m 0\<rparr>))
          else None
      | p_copy m k \<Rightarrow>
          if k < length m
          then Some (s\<lparr>seg := poke (seg s) (slot_index (seg s) (cpos (seg s)) + k) (m ! k),
                       ppc := p_copy m (Suc k)\<rparr>)
          else if k = length m then Some (s\<lparr>ppc := p_publish m\<rparr>) else None
      | p_publish m \<Rightarrow>
          Some (s\<lparr>seg := update_meta (\<lambda>mt. mt\<lparr>commit_pos := reserved_end (writer s)\<rparr>) (seg s),
                  writer := (writer s)\<lparr>pending := False\<rparr>,
                  commit_history := commit_history s @ [reserved_end (writer s)],
                  sent := sent s @ [m], ppc := p_signal\<rparr>)
      | p_signal \<Rightarrow> Some (s\<lparr>seg := signal_commit (seg s), ppc := p_idle\<rparr>))"
| "capply (run_consumer c) s =
     (case cpc s of
        c_idle \<Rightarrow>
          if c \<in> set (commit_history s) \<and> seen_commit s \<le> c then
            (if c \<le> rpos (seg s) then Some (s\<lparr>seen_commit := c\<rparr>)
             else Some (s\<lparr>seen_commit := c, cpc := c_copy []\<rparr>))
          else None
      | c_copy buf \<Rightarrow>
          if length buf < item_of (seg s)
          then Some (s\<lparr>cpc := c_copy (buf @
                  [data_bytes (seg s) ! (slot_index (seg s) (rpos (seg s)) + length buf)])\<rparr>)
          else if length buf = item_of (seg s) then Some (s\<lparr>cpc := c_advance buf\<rparr>) else None
      | c_advance buf \<Rightarrow>
          Some (s\<lparr>seg := update_meta (\<lambda>mt. mt\<lparr>read_pos := rpos (seg s) +
                    u64_of_u32 (fixed_item_size (hdr (seg s)))\<rparr>) (seg s),
                  read_history := read_history s @ [rpos (seg s) +
                    u64_of_u32 (fixed_item_size (hdr (seg s)))],
                  received := received s @ [buf], cpc := c_signal\<rparr>)
      | c_signal \<Rightarrow> Some (s\<lparr>seg := signal_read (seg s), cpc := c_idle\<rparr>))"

fun crun :: "caction list \<Rightarrow> cstate \<Rightarrow> cstate option" where
  "crun [] s = Some s"
| "crun (a # acts) s =
     (case capply a s of
        None \<Rightarrow> None
      | Some t \<Rightarrow> if wpos (seg t) < - u64_of_u32 (fixed_item_size (hdr (seg t))) then crun acts t else None)"

lemma capply_cstep: "capply a s = Some t \<Longrightarrow> cstep s t"
  by (induction a s rule: capply.induct)
    (auto split: if_splits ppc.splits cpc.splits intro: cstep.intros simp: not_le)

lemma crun_creach: "crun acts s = Some t \<Longrightarrow> creach s0 s \<Longrightarrow> creach s0 t"
proof (induction acts arbitrary: s)
  case (Cons a acts)
  then obtain u where u: "capply a s = Some u" "crun acts u = Some t"
    and lt: "wpos (seg u) < - u64_of_u32 (fixed_item_size (hdr (seg u)))"
    by (auto split: option.splits if_splits)
  have "unat (wpos (seg u)) + item_of (seg u) < 2 ^ 64" using below_minus [OF lt] by simp
  with Cons.prems(2) capply_cstep [OF u(1)] have "creach s0 u" by (rule creach.step)
  with u(2) show ?case by (rule Cons.IH)
qed simp


section \<open>The invariant\<close>

definition producer_inv :: "cstate \<Rightarrow> bool" where
  "producer_inv s =
     (case ppc s of
        p_load m \<Rightarrow> length m = item_of (seg s) \<and> \<not> pending (writer s)
      | p_copy m k \<Rightarrow> length m = item_of (seg s) \<and> k \<le> length m \<and> pending (writer s) \<and>
          mem_read (data_bytes (seg s)) (unat (cpos (seg s)) mod capacity_of (seg s)) k = take k m
      | p_publish m \<Rightarrow> length m = item_of (seg s) \<and> pending (writer s) \<and>
          mem_read (data_bytes (seg s)) (unat (cpos (seg s)) mod capacity_of (seg s))
            (item_of (seg s)) = m
      | _ \<Rightarrow> \<not> pending (writer s))"

definition consumer_inv :: "cstate \<Rightarrow> bool" where
  "consumer_inv s =
     (case cpc s of
        c_copy buf \<Rightarrow> unat (rpos (seg s)) < unat (seen_commit s) \<and>
          length buf \<le> item_of (seg s) \<and> buf = take (length buf) (hd (fixed_contents (seg s)))
      | c_advance buf \<Rightarrow> unat (rpos (seg s)) < unat (seen_commit s) \<and> buf = hd (fixed_contents (seg s))
      | _ \<Rightarrow> True)"

definition conc_inv :: "cstate \<Rightarrow> bool" where
  "conc_inv s \<longleftrightarrow>
     fixed_inv 1 (writer s) (seg s) \<and> producer_inv s \<and> consumer_inv s \<and>
     unat (seen_commit s) \<le> unat (cpos (seg s)) \<and> unat (seen_read s) \<le> unat (rpos (seg s)) \<and>
     item_of (seg s) dvd unat (seen_commit s) \<and>
     unat (wpos (seg s)) \<le> unat (seen_read s) + capacity_of (seg s) \<and>
     list_all (\<lambda>r. unat r \<le> unat (rpos (seg s)) \<and> item_of (seg s) dvd unat r) (read_history s) \<and>
     list_all (\<lambda>c. unat c \<le> unat (cpos (seg s)) \<and> item_of (seg s) dvd unat c) (commit_history s) \<and>
     sent s = received s @ fixed_contents (seg s)"

lemma fixed_inv_boundI:
  "fixed_inv 0 w s \<Longrightarrow> unat (wpos s) + item_of s < 2 ^ 64 \<Longrightarrow> fixed_inv 1 w s"
  by (simp add: fixed_inv_def)

lemma signal_transparent [simp]:
  "fixed_contents (signal_commit s) = fixed_contents s"
  "fixed_contents (signal_read s) = fixed_contents s"
  "fixed_inv k w (signal_commit s) = fixed_inv k w s"
  "fixed_inv k w (signal_read s) = fixed_inv k w s"
  by (simp_all add: fixed_contents_def fixed_inv_def fixed_geometry_def)

declare slot_index_eq [simp]

lemma conc_invD:
  assumes "conc_inv s"
  shows "fixed_inv 1 (writer s) (seg s)" "producer_inv s" "consumer_inv s"
    and "unat (seen_commit s) \<le> unat (cpos (seg s))" "unat (seen_read s) \<le> unat (rpos (seg s))"
    and "item_of (seg s) dvd unat (seen_commit s)"
    and "unat (wpos (seg s)) \<le> unat (seen_read s) + capacity_of (seg s)"
    and "\<And>r. r \<in> set (read_history s) \<Longrightarrow>
      unat r \<le> unat (rpos (seg s)) \<and> item_of (seg s) dvd unat r"
    and "\<And>c. c \<in> set (commit_history s) \<Longrightarrow>
      unat c \<le> unat (cpos (seg s)) \<and> item_of (seg s) dvd unat c"
    and "sent s = received s @ fixed_contents (seg s)"
  using assms by (auto simp: conc_inv_def list_all_iff)

text \<open>A reservation against an old \<open>read_pos\<close> is still within the free space.\<close>

lemma stale_room:
  assumes inv: "conc_inv s" and r: "r \<in> set (read_history s)" "seen_read s \<le> r"
    and free: "\<not> (wpos (seg s) mod data_capacity (hdr (seg s)) = r mod data_capacity (hdr (seg s)) \<and>
       wpos (seg s) > r)"
  shows "unat (wpos (seg s)) + item_of (seg s) \<le> unat r + capacity_of (seg s)"
    and "unat (wpos (seg s)) \<noteq> unat (rpos (seg s)) + capacity_of (seg s)"
proof -
  let ?W = "unat (wpos (seg s))" and ?c = "capacity_of (seg s)" and ?i = "item_of (seg s)"
  note D = conc_invD [OF inv] and F = fixed_invD [OF conc_invD(1) [OF inv]]
  note G = fixed_geometryD [OF F(1)]
  have rr: "unat r \<le> unat (rpos (seg s))" "?i dvd unat r" using D(8) r(1) by auto
  have sr: "unat (seen_read s) \<le> unat r" using r(2) by (simp add: word_le_nat_alt)
  have rw: "unat r \<le> ?W" using rr F(6,7) by linarith
  have wr: "?W \<le> unat r + ?c" using D(7) sr by linarith
  have "?W \<noteq> unat r + ?c"
  proof
    assume e: "?W = unat r + ?c"
    then have "?W mod ?c = unat r mod ?c" by simp
    moreover have "wpos (seg s) > r" using e G(2) by (simp add: word_less_nat_alt)
    ultimately show False using free by (simp add: word_unat_eq_iff unat_mod)
  qed
  then have "0 < unat r + ?c - ?W" using wr by linarith
  moreover have "?i dvd unat r + ?c - ?W" using rr(2) F(5) G(3) by (intro dvd_diff_nat) auto
  ultimately have "?i \<le> unat r + ?c - ?W" by (rule dvd_imp_le [rotated])
  then show "?W + ?i \<le> unat r + ?c" using wr by linarith
  then show "?W \<noteq> unat (rpos (seg s)) + ?c" using rr(1) G(1) by linarith
qed

text \<open>Storing one byte after \<open>k\<close> others is storing the first \<open>k + 1\<close> bytes of the frame.\<close>

lemma poke_fill:
  assumes "fixed_inv k w s" "j < item_of s"
  shows "poke s (unat (cpos s) mod capacity_of s + j) b =
    fill_slot s (mem_read (data_bytes s) (unat (cpos s) mod capacity_of s) j @ [b])"
    and "mem_read (data_bytes (poke s (unat (cpos s) mod capacity_of s + j) b))
      (unat (cpos s) mod capacity_of s) (Suc j) =
      mem_read (data_bytes s) (unat (cpos s) mod capacity_of s) j @ [b]"
proof -
  let ?i = "unat (cpos s) mod capacity_of s"
  have reg: "?i + item_of s \<le> length (data_bytes s)"
    using fixed_invD [OF assms(1)] by (intro slot_in_region)
  then have l: "length (mem_read (data_bytes s) ?i j) = j" using assms(2) by (simp add: length_mem_read)
  have "mem_write (data_bytes s) (?i + j) [b] = mem_write (data_bytes s) ?i (mem_read (data_bytes s) ?i j @ [b])"
    using l by (simp add: mem_write_def mem_read_def take_add)
  then show e: "poke s (?i + j) b = fill_slot s (mem_read (data_bytes s) ?i j @ [b])"
    by (simp add: poke_def fill_slot_def)
  show "mem_read (data_bytes (poke s (?i + j) b)) ?i (Suc j) = mem_read (data_bytes s) ?i j @ [b]"
    using mem_read_write_same [of ?i "mem_read (data_bytes s) ?i j @ [b]" "data_bytes s"] l reg assms(2)
    by (simp add: e fill_slot_def)
qed

lemma contents_hd_length:
  assumes "fixed_inv k w s" "unat (rpos s) < unat (cpos s)"
  shows "fixed_contents s \<noteq> []" "length (hd (fixed_contents s)) = item_of s"
proof -
  show ne: "fixed_contents s \<noteq> []" using fixed_contents_empty_iff [OF assms(1)] assms(2) by simp
  show "length (hd (fixed_contents s)) = item_of s"
    using slot_in_region [OF fixed_invD(1,3) [OF assms(1)]]
    by (simp add: fixed_contents_hd [OF assms(1) ne] length_mem_read)
qed

lemma consumer_ahead:
  assumes "conc_inv s" "cpc s = c_copy buf \<or> cpc s = c_advance buf"
  shows "unat (rpos (seg s)) < unat (cpos (seg s))" "fixed_contents (seg s) \<noteq> []"
proof -
  show "unat (rpos (seg s)) < unat (cpos (seg s))"
    using conc_invD(3,4) [OF assms(1)] assms(2) by (auto simp: consumer_inv_def)
  then show "fixed_contents (seg s) \<noteq> []"
    using contents_hd_length(1) [OF conc_invD(1) [OF assms(1)]] by simp
qed



section \<open>Every step keeps the invariant\<close>

lemma conc_reserve:
  assumes inv: "conc_inv s" and pc: "ppc s = p_load m"
    and r: "r \<in> set (read_history s)" "seen_read s \<le> r"
    and free: "\<not> (wpos (seg s) mod data_capacity (hdr (seg s)) = r mod data_capacity (hdr (seg s)) \<and>
       wpos (seg s) > r)"
    and bound: "unat (wpos (reserved_segment (seg s))) + item_of (seg s) < 2 ^ 64"
  shows "conc_inv (s\<lparr>seen_read := r, writer := reserved_writer (writer s) (seg s),
    seg := reserved_segment (seg s), ppc := p_copy m 0\<rparr>)"
proof -
  note D = conc_invD [OF inv] and R = stale_room [OF inv r free]
  have idle: "\<not> pending (writer s)" and lm: "length m = item_of (seg s)"
    using D(2) pc by (auto simp: producer_inv_def)
  have f1: "fixed_inv (Suc 0) (writer s) (seg s)" using D(1) by simp
  have "fixed_inv 1 (reserved_writer (writer s) (seg s)) (reserved_segment (seg s))"
    using reserve_keeps_inv [OF f1 idle R(2)] bound
    by (intro fixed_inv_boundI) (simp_all add: reserved_segment_def)
  moreover have "unat (wpos (reserved_segment (seg s))) = unat (wpos (seg s)) + item_of (seg s)"
    by (rule reserved_wpos [OF f1])
  moreover have "fixed_contents (reserved_segment (seg s)) = fixed_contents (seg s)" by simp
  moreover have "rpos (reserved_segment (seg s)) = rpos (seg s)"
    "cpos (reserved_segment (seg s)) = cpos (seg s)"
    "data_capacity (hdr (reserved_segment (seg s))) = data_capacity (hdr (seg s))"
    "fixed_item_size (hdr (reserved_segment (seg s))) = fixed_item_size (hdr (seg s))"
    by (simp_all add: reserved_segment_def)
  moreover have "pending (reserved_writer (writer s) (seg s))" by (simp add: reserved_writer_def)
  ultimately show ?thesis
    using inv D(8) [OF r(1)] R(1) lm
    by (simp add: conc_inv_def producer_inv_def consumer_inv_def mem_read_def split: cpc.splits)
qed

lemma conc_byte:
  assumes inv: "conc_inv s" and pc: "ppc s = p_copy m k" "k < length m"
  shows "conc_inv (s\<lparr>seg := poke (seg s) (slot_index (seg s) (cpos (seg s)) + k) (m ! k),
    ppc := p_copy m (Suc k)\<rparr>)"
proof -
  let ?i = "unat (cpos (seg s)) mod capacity_of (seg s)"
  note D = conc_invD [OF inv]
  have P: "pending (writer s)" "length m = item_of (seg s)"
    "mem_read (data_bytes (seg s)) ?i k = take k m"
    using D(2) pc(1) by (auto simp: producer_inv_def)
  have ki: "k < item_of (seg s)" using pc(2) P(2) by simp
  note E = poke_fill [OF D(1) ki, of "m ! k"]
  have tk: "take k m @ [m ! k] = take (Suc k) m" using pc(2) by (simp add: take_Suc_conv_app_nth)
  have len: "length (take (Suc k) m) \<le> item_of (seg s)" using P(2) by simp
  note K = fill_slot_keeps [OF D(1) P(1) len]
  have seg': "poke (seg s) (?i + k) (m ! k) = fill_slot (seg s) (take (Suc k) m)"
    using E(1) P(3) tk by simp
  have "mem_read (data_bytes (fill_slot (seg s) (take (Suc k) m))) ?i (Suc k) = take (Suc k) m"
    using E(2) P(3) tk seg' by simp
  then show ?thesis
    using inv K pc(2) P(1,2)
    by (simp add: conc_inv_def producer_inv_def consumer_inv_def seg' split: cpc.splits)
qed

lemma conc_store:
  assumes inv: "conc_inv s" and pc: "ppc s = p_publish m"
  shows "conc_inv (s\<lparr>seg := update_meta (\<lambda>mt. mt\<lparr>commit_pos := reserved_end (writer s)\<rparr>) (seg s),
     writer := (writer s)\<lparr>pending := False\<rparr>,
     commit_history := commit_history s @ [reserved_end (writer s)],
     sent := sent s @ [m], ppc := p_signal\<rparr>)"
proof -
  let ?S = "update_meta (\<lambda>mt. mt\<lparr>commit_pos := reserved_end (writer s)\<rparr>) (seg s)"
  note D = conc_invD [OF inv] and F = fixed_invD [OF conc_invD(1) [OF inv]]
  have P: "pending (writer s)"
    "mem_read (data_bytes (seg s)) (unat (cpos (seg s)) mod capacity_of (seg s)) (item_of (seg s)) = m"
    using D(2) pc by (auto simp: producer_inv_def)
  have "fixed_inv 1 ((writer s)\<lparr>pending := False\<rparr>) ?S"
    using publish_keeps_inv [OF D(1) P(1)] by (simp add: published_segment_def)
  moreover have C: "fixed_contents ?S = fixed_contents (seg s) @ [m]"
    using publish_contents [OF D(1) P(1)] P(2) by (simp add: published_segment_def)
  moreover have re: "unat (reserved_end (writer s)) = unat (cpos (seg s)) + item_of (seg s)"
    "item_of (seg s) dvd unat (reserved_end (writer s))"
    using F(4,7,9) P(1) by auto
  moreover have "consumer_inv s \<Longrightarrow> consumer_inv (s\<lparr>seg := ?S\<rparr>)"
    using consumer_ahead(2) [OF inv] C by (auto simp: consumer_inv_def split: cpc.splits)
  moreover have "list_all (\<lambda>c. unat c \<le> unat (cpos (seg s)) + item_of (seg s) \<and>
      item_of (seg s) dvd unat c) (commit_history s)"
    using D(9) by (auto simp: list_all_iff intro: trans_le_add1)
  ultimately show ?thesis
    using inv by (auto simp: conc_inv_def producer_inv_def consumer_inv_def split: cpc.splits)
qed

lemma conc_c_byte:
  assumes inv: "conc_inv s" and pc: "cpc s = c_copy buf" "length buf < item_of (seg s)"
  shows "conc_inv (s\<lparr>cpc := c_copy (buf @
     [data_bytes (seg s) ! (slot_index (seg s) (rpos (seg s)) + length buf)])\<rparr>)"
proof -
  let ?i = "unat (rpos (seg s)) mod capacity_of (seg s)" and ?f = "hd (fixed_contents (seg s))"
  note D = conc_invD [OF inv] and A = consumer_ahead [OF inv, of buf]
  have ne: "fixed_contents (seg s) \<noteq> []" using A(2) pc by simp
  have reg: "?i + item_of (seg s) \<le> length (data_bytes (seg s))"
    using slot_in_region [OF fixed_invD(1,3) [OF D(1)]] .
  have f: "?f = mem_read (data_bytes (seg s)) ?i (item_of (seg s))"
    by (rule fixed_contents_hd [OF D(1) ne])
  have b: "buf = take (length buf) ?f" using D(3) pc by (simp add: consumer_inv_def)
  have "length buf < length ?f" using f reg pc(2) by (simp add: length_mem_read)
  then have "take (Suc (length buf)) ?f = buf @ [?f ! length buf]"
    using b by (metis take_Suc_conv_app_nth)
  moreover have "?f ! length buf = data_bytes (seg s) ! (?i + length buf)"
    using f reg pc(2) by (simp add: mem_read_def)
  ultimately show ?thesis
    using inv pc by (auto simp: conc_inv_def producer_inv_def consumer_inv_def split: ppc.splits)
qed

lemma conc_c_store:
  assumes inv: "conc_inv s" and pc: "cpc s = c_advance buf"
  shows "conc_inv (s\<lparr>seg := update_meta (\<lambda>mt. mt\<lparr>read_pos := rpos (seg s) +
         u64_of_u32 (fixed_item_size (hdr (seg s)))\<rparr>) (seg s),
       read_history := read_history s @ [rpos (seg s) + u64_of_u32 (fixed_item_size (hdr (seg s)))],
       received := received s @ [buf], cpc := c_signal\<rparr>)"
proof -
  let ?r = "rpos (seg s) + u64_of_u32 (fixed_item_size (hdr (seg s)))"
  let ?S = "update_meta (\<lambda>mt. mt\<lparr>read_pos := ?r\<rparr>) (seg s)"
  note D = conc_invD [OF inv] and A = consumer_ahead [OF inv, of buf]
    and F = fixed_invD [OF conc_invD(1) [OF inv]]
  have ne: "fixed_contents (seg s) \<noteq> []" using A(2) pc by simp
  have b: "buf = hd (fixed_contents (seg s))" using D(3) pc by (simp add: consumer_inv_def)
  have adv: "fixed_read_advance (seg s) 1 = signal_read ?S"
    by (simp add: fixed_read_advance_def update_meta_def)
  note K = advance_one_keeps [OF D(1) ne, unfolded adv, simplified]
  have "unat (rpos (seg s)) + item_of (seg s) < 2 ^ 64"
    using F(6,7,10) by linarith
  then have "unat ?r = unat (rpos (seg s)) + item_of (seg s)" by (simp add: unat_simps)
  moreover have "item_of (seg s) dvd unat (rpos (seg s)) + item_of (seg s)" using F(3) by simp
  ultimately show ?thesis
    using inv D(5,8) K ne b
    by (fastforce simp: conc_inv_def producer_inv_def consumer_inv_def list_all_iff split: ppc.splits)
qed

lemma conc_inv_step:
  assumes "cstep s t" "conc_inv s" "unat (wpos (seg t)) + item_of (seg t) < 2 ^ 64"
  shows "conc_inv t"
  using assms(1)
proof (cases rule: cstep.cases)
  case (p_call m)
  with assms(2) show ?thesis
    by (auto simp: conc_inv_def producer_inv_def consumer_inv_def split: cpc.splits)
next
  case (p_full m r)
  with assms(2) conc_invD(8) [OF assms(2), of r] show ?thesis
    by (auto simp: conc_inv_def producer_inv_def consumer_inv_def word_le_nat_alt split: cpc.splits)
next
  case (p_reserve m r)
  with assms conc_reserve show ?thesis by (simp add: reserved_segment_def)
next
  case (p_byte m k)
  with assms conc_byte show ?thesis by simp
next
  case (p_copied m)
  with assms(2) show ?thesis
    by (auto simp: conc_inv_def producer_inv_def consumer_inv_def split: cpc.splits)
next
  case (p_store m)
  with assms conc_store show ?thesis by simp
next
  case p_notify
  with assms(2) show ?thesis
    by (auto simp: conc_inv_def producer_inv_def consumer_inv_def split: cpc.splits)
next
  case (c_empty c)
  with assms(2) conc_invD(9) [OF assms(2), of c] show ?thesis
    by (auto simp: conc_inv_def producer_inv_def consumer_inv_def split: ppc.splits)
next
  case (c_found c)
  with assms(2) conc_invD(9) [OF assms(2), of c] show ?thesis
    by (auto simp: conc_inv_def producer_inv_def consumer_inv_def word_less_nat_alt split: ppc.splits)
next
  case (c_byte buf)
  with assms conc_c_byte show ?thesis by simp
next
  case (c_copied buf)
  note A = consumer_ahead(1) [OF assms(2), of buf]
  have "length (hd (fixed_contents (seg s))) = item_of (seg s)"
    using contents_hd_length(2) [OF conc_invD(1) [OF assms(2)]] A c_copied by simp
  with c_copied assms(2) show ?thesis
    by (auto simp: conc_inv_def producer_inv_def consumer_inv_def split: ppc.splits)
next
  case (c_store buf)
  with assms conc_c_store show ?thesis by simp
next
  case c_notify
  with assms(2) show ?thesis
    by (auto simp: conc_inv_def producer_inv_def consumer_inv_def split: ppc.splits)
qed

lemma creach_inv: "creach s0 s \<Longrightarrow> conc_inv s0 \<Longrightarrow> conc_inv s"
  by (induction rule: creach.induct) (auto intro: conc_inv_step)

lemma conc_inv_start:
  assumes "fixed_ring_open seg0 cap alignment item = Inr (Some (w, r, s))" "item \<noteq> 0"
    and "unat cap \<le> length (data_bytes seg0)"
  shows "conc_inv (new_cstate w s)"
proof -
  have "1 * unat item < 2 ^ 64" using unat_u32_lt [of item] by simp
  note I = fixed_ring_open_inv [OF assms this]
  have z: "rpos s = 0" "cpos s = 0" "wpos s = 0"
    by (rule fixed_ring_openD [OF assms(1,2)]; simp)+
  with I show ?thesis
    by (simp add: conc_inv_def new_cstate_def producer_inv_def consumer_inv_def fixed_chan_inv_def
        fixed_chan_contents_def)
qed


section \<open>Which bytes the next step touches\<close>

text \<open>The frame bytes the next step of each thread touches.\<close>

definition fixed_stores :: "cstate \<Rightarrow> nat list" where
  "fixed_stores s =
     (case ppc s of
        p_copy m k \<Rightarrow> if k < length m then [slot_index (seg s) (cpos (seg s)) + k] else []
      | _ \<Rightarrow> [])"

definition fixed_loads :: "cstate \<Rightarrow> nat list" where
  "fixed_loads s =
     (case cpc s of
        c_copy buf \<Rightarrow>
          if length buf < item_of (seg s) then [slot_index (seg s) (rpos (seg s)) + length buf] else []
      | _ \<Rightarrow> [])"

lemma store_frame:
  assumes inv: "conc_inv s" and j: "j \<in> set (fixed_stores s)"
  obtains m k where "ppc s = p_copy m k" "k < item_of (seg s)"
    and "j = unat (cpos (seg s)) mod capacity_of (seg s) + k"
    and "unat (wpos (seg s)) = unat (cpos (seg s)) + item_of (seg s)"
    and "unat (cpos (seg s)) mod capacity_of (seg s) + item_of (seg s) \<le> capacity_of (seg s)"
proof -
  note D = conc_invD [OF inv] and F = fixed_invD [OF conc_invD(1) [OF inv]]
  note G = fixed_geometryD [OF F(1)]
  obtain m k where pc: "ppc s = p_copy m k" "k < length m" "j = unat (cpos (seg s)) mod capacity_of (seg s) + k"
    using j by (cases "ppc s") (auto simp: fixed_stores_def split: if_splits)
  have P: "pending (writer s)" "length m = item_of (seg s)" using D(2) pc(1) by (auto simp: producer_inv_def)
  then show thesis using that [OF pc(1)] pc F(7) slot_contiguous [OF G(2,3) F(4)] by simp
qed

lemma load_frame:
  assumes inv: "conc_inv s" and j: "j \<in> set (fixed_loads s)"
  obtains k where "k < item_of (seg s)" "j = unat (rpos (seg s)) mod capacity_of (seg s) + k"
    and "unat (rpos (seg s)) + item_of (seg s) \<le> unat (seen_commit s)"
    and "unat (rpos (seg s)) mod capacity_of (seg s) + item_of (seg s) \<le> capacity_of (seg s)"
proof -
  note D = conc_invD [OF inv] and F = fixed_invD [OF conc_invD(1) [OF inv]]
  note G = fixed_geometryD [OF F(1)]
  obtain buf where pc: "cpc s = c_copy buf" "length buf < item_of (seg s)"
    "j = unat (rpos (seg s)) mod capacity_of (seg s) + length buf"
    using j by (cases "cpc s") (auto simp: fixed_loads_def split: if_splits)
  have RC: "unat (rpos (seg s)) < unat (seen_commit s)" using D(3) pc(1) by (simp add: consumer_inv_def)
  have "item_of (seg s) dvd unat (seen_commit s) - unat (rpos (seg s))" using D(6) F(3) by (intro dvd_diff_nat)
  then have "item_of (seg s) \<le> unat (seen_commit s) - unat (rpos (seg s))" using RC by (intro dvd_imp_le) auto
  then show thesis using that [OF pc(2,3)] RC slot_contiguous [OF G(2,3) F(3)] by simp
qed

lemma fixed_store_position:
  assumes inv: "conc_inv s" and j: "j \<in> set (fixed_stores s)"
  shows "\<exists>p. unat (cpos (seg s)) \<le> p \<and> p < unat (seen_read s) + capacity_of (seg s) \<and>
    p mod capacity_of (seg s) = j"
proof -
  obtain m k where k: "k < item_of (seg s)" "j = unat (cpos (seg s)) mod capacity_of (seg s) + k"
    "unat (wpos (seg s)) = unat (cpos (seg s)) + item_of (seg s)"
    "unat (cpos (seg s)) mod capacity_of (seg s) + item_of (seg s) \<le> capacity_of (seg s)"
    by (rule store_frame [OF assms])
  then have "(unat (cpos (seg s)) + k) mod capacity_of (seg s) = j"
    by (subst mod_add_left_eq [symmetric]) simp
  with k conc_invD(7) [OF inv] show ?thesis by (intro exI [of _ "unat (cpos (seg s)) + k"]) simp
qed

lemma fixed_load_position:
  assumes inv: "conc_inv s" and j: "j \<in> set (fixed_loads s)"
  shows "\<exists>p. unat (rpos (seg s)) \<le> p \<and> p < unat (seen_commit s) \<and> p mod capacity_of (seg s) = j"
proof -
  obtain k where k: "k < item_of (seg s)" "j = unat (rpos (seg s)) mod capacity_of (seg s) + k"
    "unat (rpos (seg s)) + item_of (seg s) \<le> unat (seen_commit s)"
    "unat (rpos (seg s)) mod capacity_of (seg s) + item_of (seg s) \<le> capacity_of (seg s)"
    by (rule load_frame [OF assms])
  then have "(unat (rpos (seg s)) + k) mod capacity_of (seg s) = j"
    by (subst mod_add_left_eq [symmetric]) simp
  with k show ?thesis by (intro exI [of _ "unat (rpos (seg s)) + k"]) simp
qed


section \<open>Properties under concurrency\<close>

text \<open>
  C1: Linear history. In every interleaving of the producer's and the consumer's single memory
  accesses, with stale loads of each other's positions, the frames received are exactly the
  frames committed, in order and unmangled, less those still published in the ring. The threads
  move frames of exactly the item size, which is not zero.
\<close>

theorem fixed_concurrent_fifo:
  assumes "fixed_ring_open seg0 cap alignment item = Inr (Some (w, r, s))" "item \<noteq> 0"
    and "unat cap \<le> length (data_bytes seg0)" "creach (new_cstate w s) t"
  shows "sent t = received t @ fixed_contents (seg t)"
  using conc_invD(10) [OF creach_inv [OF assms(4) conc_inv_start [OF assms(1-3)]]] .

text \<open>
  C2: No data race. In every reachable state the bytes the producer is about to store and the
  bytes the consumer is about to load are disjoint, and each of them, whatever the other thread
  is doing, lies inside the data region, which lies inside the mapping. A producer about to store
  has acquired the release of the whole slot through \<open>read_pos\<close>; a consumer about to load has
  acquired the publication of the whole frame through \<open>commit_pos\<close>.
\<close>

theorem fixed_concurrent_race_free:
  assumes "fixed_ring_open seg0 cap alignment item = Inr (Some (w, r, s))" "item \<noteq> 0"
    and "unat cap \<le> length (data_bytes seg0)" "creach (new_cstate w s) t"
  shows "set (fixed_stores t) \<inter> set (fixed_loads t) = {} \<and>
    list_all (\<lambda>j. j < capacity_of (seg t)) (fixed_stores t) \<and>
    list_all (\<lambda>j. j < capacity_of (seg t)) (fixed_loads t) \<and>
    capacity_of (seg t) \<le> length (data_bytes (seg t)) \<and>
    (fixed_stores t \<noteq> [] \<longrightarrow>
       unat (cpos (seg t)) + item_of (seg t) \<le> unat (seen_read t) + capacity_of (seg t)) \<and>
    (fixed_loads t \<noteq> [] \<longrightarrow> unat (rpos (seg t)) + item_of (seg t) \<le> unat (seen_commit t))"
proof -
  have inv: "conc_inv t" using creach_inv [OF assms(4) conc_inv_start [OF assms(1-3)]] .
  note D = conc_invD [OF inv] and F = fixed_invD [OF conc_invD(1) [OF inv]]
  note G = fixed_geometryD [OF F(1)]
  let ?R = "unat (rpos (seg t))" and ?C = "unat (cpos (seg t))" and ?i = "item_of (seg t)"
    and ?c = "capacity_of (seg t)"
  have st: "j < ?c \<and> ?C + ?i \<le> unat (seen_read t) + ?c" if "j \<in> set (fixed_stores t)" for j
    by (rule store_frame [OF inv that]) (use D(7) in linarith)
  have ld: "j < ?c \<and> ?R + ?i \<le> unat (seen_commit t)" if "j \<in> set (fixed_loads t)" for j
    by (rule load_frame [OF inv that]) linarith
  have "j \<noteq> l" if j: "j \<in> set (fixed_stores t)" and l: "l \<in> set (fixed_loads t)" for j l
  proof -
    obtain m k where k: "k < ?i" "j = ?C mod ?c + k" "unat (wpos (seg t)) = ?C + ?i"
      by (rule store_frame [OF inv j])
    obtain h where h: "h < ?i" "l = ?R mod ?c + h" "?R + ?i \<le> unat (seen_commit t)"
      by (rule load_frame [OF inv l])
    have "?R mod ?c + ?i \<le> ?C mod ?c \<or> ?C mod ?c + ?i \<le> ?R mod ?c"
      using G(1,2) h(3) D(4) k(3) F(8) by (intro ring_disjoint) auto
    then show "j \<noteq> l" using k(1,2) h(1,2) by auto
  qed
  then have "set (fixed_stores t) \<inter> set (fixed_loads t) = {}" by blast
  then show ?thesis
    using st ld G(6) st [OF hd_in_set] ld [OF hd_in_set] by (simp add: list_all_iff)
qed

text \<open>A schedule on a ring of two one-byte frames that has both threads in the middle of a copy.\<close>

definition racing_schedule :: "caction list" where
  "racing_schedule =
     call_write [5] # replicate 5 (run_producer 0) @ [call_write [6], run_producer 0, run_consumer 1]"

lemma racing_state:
  obtains w r s t where "fixed_ring_open (fresh_segment 2) 2 1 1 = Inr (Some (w, r, s))"
    and "creach (new_cstate w s) t" "ppc t = p_copy [6] 0" "cpc t = c_copy []" "sent t = [[5]]"
    and "item_of (seg t) = 1" "fixed_stores t = [1]" "fixed_loads t = [0]"
proof -
  let ?f = "\<lambda>c. case c of Inr (Some (w, r, s)) \<Rightarrow>
    map_option (\<lambda>t. (ppc t, cpc t, sent t, item_of (seg t), fixed_stores t, fixed_loads t)) (crun racing_schedule (new_cstate w s))"
  have e: "?f (fixed_ring_open (fresh_segment 2) 2 1 1) = Some (p_copy [6] 0, c_copy [], [[5]], 1, [1], [0])"
    by code_simp
  have "is_valid_data_alignment 1" "(2 :: u64) mod u64_of_u32 1 = 0"
    by (simp_all add: is_valid_data_alignment_def u64_of_u32_def)
  then obtain w r s where o: "fixed_ring_open (fresh_segment 2) 2 1 1 = Inr (Some (w, r, s))"
    by (simp add: fixed_ring_open_cases)
  obtain t where t: "crun racing_schedule (new_cstate w s) = Some t" "ppc t = p_copy [6] 0"
    "cpc t = c_copy []" "sent t = [[5]]" "item_of (seg t) = 1" "fixed_stores t = [1]" "fixed_loads t = [0]"
    using e o by auto
  have "creach (new_cstate w s) t" using t(1) creach.start by (rule crun_creach)
  with o t show thesis using that by blast
qed

theorem fixed_concurrent_fifo_witness:
  "\<exists>w r s t. fixed_ring_open (fresh_segment 2) 2 1 1 = Inr (Some (w, r, s)) \<and>
    creach (new_cstate w s) t \<and> [[5]] = received t @ fixed_contents (seg t)"
proof -
  obtain w r s t where t: "fixed_ring_open (fresh_segment 2) 2 1 1 = Inr (Some (w, r, s))"
    "creach (new_cstate w s) t" "sent t = [[5]]" by (rule racing_state)
  from fixed_concurrent_fifo [OF t(1) _ _ t(2)] t
  have "[[5]] = received t @ fixed_contents (seg t)" by (simp add: fresh_segment_def)
  with t show ?thesis by blast
qed

theorem fixed_concurrent_race_free_witness:
  "\<exists>t. fixed_stores t = [1] \<and> fixed_loads t = [0] \<and> set (fixed_stores t) \<inter> set (fixed_loads t) = {} \<and>
    unat (rpos (seg t)) + 1 \<le> unat (seen_commit t)"
proof -
  obtain w r s t where t: "fixed_ring_open (fresh_segment 2) 2 1 1 = Inr (Some (w, r, s))"
    "creach (new_cstate w s) t" "item_of (seg t) = 1" "fixed_stores t = [1]" "fixed_loads t = [0]"
    by (rule racing_state)
  from fixed_concurrent_race_free [OF t(1) _ _ t(2)] t(3-5)
  have "set (fixed_stores t) \<inter> set (fixed_loads t) = {} \<and> unat (rpos (seg t)) + 1 \<le> unat (seen_commit t)"
    by (simp add: fresh_segment_def)
  with t(4,5) show ?thesis by blast
qed

end
