(* ===== verification/Wait_Calls.thy ===== *)
theory Wait_Calls
  imports Atomic_Backoff
begin

text \<open>
  The system calls behind the wait and notify primitives, with the arguments the backends build
  for them (\<open>internal/atomic_wait_futex.hpp\<close>, \<open>internal/atomic_wait_win32.hpp\<close>,
  \<open>internal/atomic_wait_darwin.hpp\<close>). The address is always that of the word waited on and is left
  out. What the kernel does with a call is documented behaviour of code outside the
  repository: \<open>matches\<close> says when a wait blocks, \<open>call_limit\<close> for how long at most, \<open>wake_reaches\<close> which wakes reach it.
\<close>

unbundle bit_operations_syntax

definition ms_ns :: int where "ms_ns = 1000000"

section \<open>Linux\<close>

record timespec =
  tv_sec :: int
  tv_nsec :: int

definition futex_timespec :: "int \<Rightarrow> timespec" where
  "futex_timespec timeout_ms =
     \<lparr>tv_sec = timeout_ms div 1000, tv_nsec = timeout_ms mod 1000 * 1000000\<rparr>"

datatype futex_op = FUTEX_WAIT | FUTEX_WAKE

record futex_args =
  futex_operation :: futex_op
  futex_value :: int                  \<comment> \<open>an \<open>int\<close> parameter\<close>
  futex_timeout :: "timespec option"  \<comment> \<open>\<open>None\<close> is the null pointer\<close>

definition futex_syscall :: "futex_op \<Rightarrow> int \<Rightarrow> timespec option \<Rightarrow> futex_args" where
  "futex_syscall op val timeout = \<lparr>futex_operation = op, futex_value = val, futex_timeout = timeout\<rparr>"

text \<open>\<open>static_cast<int>\<close> of the expected word.\<close>

definition cast_int :: "u32 \<Rightarrow> int" where
  "cast_int v = sint v"


section \<open>Win32\<close>

record wait_tuning =
  spin_count :: u32
  yield_count :: u32
  wait_timeout_ms :: u32
  polling_sleep_ms :: u32

definition infinite_ms :: u32 where "infinite_ms = 0xFFFFFFFF"

text \<open>The last argument of the timed call.\<close>

definition win32_wait_ms :: "int \<Rightarrow> u32" where
  "win32_wait_ms timeout_ms =
     (if timeout_ms < 0 then infinite_ms
      else word_of_int (if timeout_ms > 0 then timeout_ms else 0))"


section \<open>Darwin\<close>

text \<open>The three builds: \<open>os_sync\<close> only, \<open>os_sync\<close> when the running system has it, \<open>ulock\<close> only.\<close>

datatype darwin_tier = tier1 | tier1_runtime bool | tier2

primrec uses_os_sync :: "darwin_tier \<Rightarrow> bool" where
  "uses_os_sync tier1 = True"
| "uses_os_sync (tier1_runtime has_os_sync) = has_os_sync"
| "uses_os_sync tier2 = False"

definition ulock_wait_op :: u32 where "ulock_wait_op = 0x00000001"
definition ulock_wake_op :: u32 where "ulock_wake_op = 0x00000001"
definition ulock_wake_all_op :: u32 where "ulock_wake_all_op = 0x00000101"
definition ulock_timeout_us :: u32 where "ulock_timeout_us = 50000"

datatype os_sync_flag = OS_SYNC_NONE | OS_SYNC_SHARED
datatype os_clock = OS_CLOCK_MACH_ABSOLUTE_TIME


section \<open>The calls\<close>

datatype wait_call =
    futex futex_args
  | WaitOnAddress u32 nat u32
  | os_sync_wait_on_address u64 nat os_sync_flag
  | os_sync_wait_on_address_with_timeout u64 nat os_sync_flag os_clock u64
  | ulock_wait_call u32 u64 u32

datatype wake_call =
    futex_wake futex_args
  | WakeByAddressSingle | WakeByAddressAll
  | os_sync_wake_by_address_any nat os_sync_flag
  | os_sync_wake_by_address_all nat os_sync_flag
  | ulock_wake_call u32 u64

definition os_wait :: "u32 \<Rightarrow> wait_call" where
  "os_wait old = os_sync_wait_on_address (u64_of_u32 old) 4 OS_SYNC_SHARED"

definition os_wait_for :: "u32 \<Rightarrow> u64 \<Rightarrow> wait_call" where
  "os_wait_for old timeout_ns =
     os_sync_wait_on_address_with_timeout (u64_of_u32 old) 4 OS_SYNC_SHARED
       OS_CLOCK_MACH_ABSOLUTE_TIME timeout_ns"

definition ulock_wait :: "u64 \<Rightarrow> u32 \<Rightarrow> wait_call" where
  "ulock_wait val timeout_us = ulock_wait_call ulock_wait_op val timeout_us"

definition os_wake_one :: wake_call where "os_wake_one = os_sync_wake_by_address_any 4 OS_SYNC_SHARED"
definition os_wake_all :: wake_call where "os_wake_all = os_sync_wake_by_address_all 4 OS_SYNC_SHARED"
definition ulock_wake_one :: wake_call where "ulock_wake_one = ulock_wake_call ulock_wake_op 0"
definition ulock_wake_all :: wake_call where "ulock_wake_all = ulock_wake_call ulock_wake_all_op 0"

definition futex_wait_call :: "u32 \<Rightarrow> timespec option \<Rightarrow> wait_call" where
  "futex_wait_call expected timeout = futex (futex_syscall FUTEX_WAIT (cast_int expected) timeout)"


section \<open>What the kernel makes of a call\<close>

text \<open>
  Whether the word, when it holds \<open>v\<close>, equals what the call compares it with: \<open>futex\<close> converts its
  \<open>int\<close> to 32 bits, \<open>WaitOnAddress\<close> and \<open>os_sync\<close> compare as many bytes as they are told, and the
  \<open>ulock\<close> operation 1 compares 32 bits.
\<close>

fun matches :: "wait_call \<Rightarrow> u32 \<Rightarrow> bool" where
  "matches (futex a) v = (word_of_int (futex_value a) = v)"
| "matches (WaitOnAddress w n ms) v = (take_bit (8 * n) w = take_bit (8 * n) v)"
| "matches (os_sync_wait_on_address w n f) v = (take_bit (8 * n) w = take_bit (8 * n) (u64_of_u32 v))"
| "matches (os_sync_wait_on_address_with_timeout w n f clk t) v =
     (take_bit (8 * n) w = take_bit (8 * n) (u64_of_u32 v))"
| "matches (ulock_wait_call op w t) v = (take_bit 32 w = u64_of_u32 v)"

text \<open>The longest a call may block, in nanoseconds; \<open>None\<close> is until it is woken.\<close>

definition timespec_ns :: "timespec \<Rightarrow> int" where
  "timespec_ns ts = tv_sec ts * 1000000000 + tv_nsec ts"

fun call_limit :: "wait_call \<Rightarrow> int option" where
  "call_limit (futex a) = map_option timespec_ns (futex_timeout a)"
| "call_limit (WaitOnAddress w n ms) = (if ms = infinite_ms then None else Some (uint ms * ms_ns))"
| "call_limit (os_sync_wait_on_address w n f) = None"
| "call_limit (os_sync_wait_on_address_with_timeout w n f clk t) = Some (uint t)"
| "call_limit (ulock_wait_call op w t) = (if t = 0 then None else Some (uint t * 1000))"

text \<open>Whether a wake reaches a thread blocked in a wait on the same address of the same process.\<close>

fun wake_reaches :: "wake_call \<Rightarrow> wait_call \<Rightarrow> bool" where
  "wake_reaches (futex_wake a) (futex b) \<longleftrightarrow>
     futex_operation a = FUTEX_WAKE \<and> 0 < futex_value a \<and> futex_operation b = FUTEX_WAIT"
| "wake_reaches WakeByAddressSingle (WaitOnAddress w n ms) = True"
| "wake_reaches WakeByAddressAll (WaitOnAddress w n ms) = True"
| "wake_reaches (os_sync_wake_by_address_any m g) (os_sync_wait_on_address w n f) \<longleftrightarrow> m = n \<and> f = g"
| "wake_reaches (os_sync_wake_by_address_all m g) (os_sync_wait_on_address w n f) \<longleftrightarrow> m = n \<and> f = g"
| "wake_reaches (os_sync_wake_by_address_any m g) (os_sync_wait_on_address_with_timeout w n f clk t) \<longleftrightarrow>
     m = n \<and> f = g"
| "wake_reaches (os_sync_wake_by_address_all m g) (os_sync_wait_on_address_with_timeout w n f clk t) \<longleftrightarrow>
     m = n \<and> f = g"
| "wake_reaches (ulock_wake_call op wv) (ulock_wait_call wop w t) \<longleftrightarrow> op AND 0xFF = wop AND 0xFF"
| "wake_reaches _ _ = False"


section \<open>The library's calls, as the kernel takes them\<close>

lemma futex_timespec_exact [simp]: "timespec_ns (futex_timespec t) = t * ms_ns"
proof -
  have "t div 1000 * 1000 + t mod 1000 = t" by (rule div_mult_mod_eq)
  then have "t * 1000000 = t div 1000 * 1000000000 + t mod 1000 * 1000000" by linarith
  then show ?thesis by (simp add: timespec_ns_def futex_timespec_def ms_ns_def)
qed

text \<open>The time is normalised, as the kernel requires.\<close>

lemma futex_timespec_normalised:
  "0 \<le> tv_nsec (futex_timespec t)" "tv_nsec (futex_timespec t) < 1000000000"
  using pos_mod_bound [of 1000 t] by (simp_all add: futex_timespec_def)

lemma cast_int_range: "- (2 ^ 31) \<le> cast_int v \<and> cast_int v < 2 ^ 31 \<and> word_of_int (cast_int v) = v"
  using sint_greater_eq [of v] sint_less [of v] by (simp add: cast_int_def)

lemma take_bit_32_u64_of_u32 [simp]: "take_bit 32 (u64_of_u32 v) = u64_of_u32 v"
  using unat_u32_lt [of v] by (simp add: word_unat_eq_iff unsigned_take_bit_eq take_bit_nat_eq_self)

lemma u64_of_u32_inject [simp]: "u64_of_u32 v = u64_of_u32 w \<longleftrightarrow> v = w"
  by (metis unat_u64_of_u32 unsigned_word_eqI)

lemma take_bit_32_u32 [simp]: "take_bit 32 (v :: u32) = v"
  by (rule take_bit_word_eq_self) simp

text \<open>Every wait compares all 32 bits of the expected word.\<close>

lemma matches_simps [simp]:
  "matches (futex_wait_call old ts) v \<longleftrightarrow> v = old"
  "matches (WaitOnAddress old 4 ms) v \<longleftrightarrow> v = old"
  "matches (os_wait old) v \<longleftrightarrow> v = old"
  "matches (os_wait_for old t) v \<longleftrightarrow> v = old"
  "matches (ulock_wait (u64_of_u32 old) us) v \<longleftrightarrow> v = old"
  using cast_int_range [of old]
  by (auto simp: futex_wait_call_def futex_syscall_def os_wait_def os_wait_for_def ulock_wait_def)

lemma win32_wait_ms_exact:
  "0 \<le> t \<Longrightarrow> t < 2 ^ 31 \<Longrightarrow> win32_wait_ms t \<noteq> infinite_ms \<and> uint (win32_wait_ms t) = t"
  by (auto simp: win32_wait_ms_def infinite_ms_def word_uint_eq_iff uint_word_of_int)

lemma call_limit_simps [simp]:
  "call_limit (futex_wait_call old None) = None"
  "call_limit (futex_wait_call old (Some (futex_timespec t))) = Some (t * ms_ns)"
  "call_limit (os_wait old) = None"
  "call_limit (os_wait_for old t64) = Some (uint t64)"
  "call_limit (ulock_wait w ulock_timeout_us) = Some (50 * ms_ns)"
  by (simp_all add: futex_wait_call_def futex_syscall_def os_wait_def os_wait_for_def ulock_wait_def
      ulock_timeout_us_def ms_ns_def)

lemma win32_limit [simp]:
  "0 \<le> t \<Longrightarrow> t < 2 ^ 31 \<Longrightarrow> call_limit (WaitOnAddress old n (win32_wait_ms t)) = Some (t * ms_ns)"
  using win32_wait_ms_exact [of t] by simp

end
