(* ===== verification/Atomic_Wait.thy ===== *)
theory Atomic_Wait
  imports Wait_Calls
begin

text \<open>
  The wait and notify primitives: the dispatcher and the portable polling fallback
  (\<open>include/spscring/atomic_wait.hpp\<close>) and the Linux, Win32 and Darwin backends
  (\<open>internal/atomic_wait_*.hpp\<close>), as seen by the one thread that calls them.

  The rest of the world enters as what the thread observes at each of its steps: the value a
  load returns, the clock, and what becomes of a blocking system call, given its arguments. A call
  may never return (\<open>None\<close>): then the wait does not return either. A loop takes fuel, the number of
  rounds it may make; \<open>None\<close> means that it has not returned by then. What is relied on of the
  kernel is the hypothesis \<open>kernel_law\<close>.
\<close>

section \<open>What a waiting thread observes\<close>

datatype kresult = k_woken | k_mismatch | k_interrupted | k_timeout

record wenv =
  val_at :: "nat \<Rightarrow> u32"   \<comment> \<open>the word, as loaded at a step\<close>
  now_at :: "nat \<Rightarrow> int"   \<comment> \<open>\<open>steady_clock\<close>, in nanoseconds\<close>
  call_at :: "nat \<Rightarrow> wait_call \<Rightarrow> kresult option"
    \<comment> \<open>the outcome of the blocking call made at a step; \<open>None\<close> when it never returns\<close>

text \<open>
  A call that finds the word different from its argument returns; a call with a time limit
  returns; a time-out is reported only by a call with a limit and not before the limit has passed.
\<close>

definition kernel_law :: "wenv \<Rightarrow> bool" where
  "kernel_law env \<longleftrightarrow>
     (\<forall>k c. (\<not> matches c (val_at env k) \<or> call_limit c \<noteq> None \<longrightarrow> call_at env k c \<noteq> None) \<and>
       (call_at env k c = Some k_timeout \<longrightarrow>
          (\<exists>l. call_limit c = Some l \<and> now_at env k + l \<le> now_at env (k + 1))))"

text \<open>\<open>duration_cast<milliseconds>\<close> truncates towards zero.\<close>

definition to_ms :: "int \<Rightarrow> int" where
  "to_ms ns = (if ns \<ge> 0 then ns div ms_ns else - ((- ns) div ms_ns))"


section \<open>Portable polling\<close>

text \<open>One round of \<open>atomic_poll\<close>: \<open>1u << exp\<close> pauses, and a yield every 32 rounds.\<close>

definition poll_exponent :: "u32 \<Rightarrow> u32" where
  "poll_exponent iteration = (if iteration < 9 then iteration - 1 else 8)"

definition poll_round :: "u32 \<Rightarrow> backoff_action list res" where
  "poll_round iteration =
     (if 32 \<le> poll_exponent iteration then Inl bad_shift
      else Inr (cpu_pauses (2 ^ unat (poll_exponent iteration)) #
                (if iteration mod 32 = 0 then [thread_yield] else [])))"

fun atomic_poll :: "nat \<Rightarrow> wenv \<Rightarrow> nat \<Rightarrow> u32 \<Rightarrow> u32 \<Rightarrow> nat res option" where
  "atomic_poll 0 env i old iteration = None"
| "atomic_poll (Suc fuel) env i old iteration =
     (if val_at env i = old
      then (case poll_round (iteration + 1) of
              Inl e \<Rightarrow> Some (Inl e)
            | Inr _ \<Rightarrow> atomic_poll fuel env (i + 1) old (iteration + 1))
      else Some (Inr (i + 1)))"

fun portable_wait_for_loop ::
  "nat \<Rightarrow> wenv \<Rightarrow> nat \<Rightarrow> u32 \<Rightarrow> int \<Rightarrow> (bool \<times> nat) res option" where
  "portable_wait_for_loop 0 env i old deadline = None"
| "portable_wait_for_loop (Suc fuel) env i old deadline =
     (if val_at env i = old then
        (if now_at env (i + 1) \<ge> deadline then Some (Inr (False, i + 2))
         else (case atomic_poll fuel env (i + 2) old 0 of
                 None \<Rightarrow> None
               | Some (Inl e) \<Rightarrow> Some (Inl e)
               | Some (Inr j) \<Rightarrow> portable_wait_for_loop fuel env j old deadline))
      else Some (Inr (True, i + 1)))"

definition portable_wait_for ::
  "nat \<Rightarrow> wenv \<Rightarrow> nat \<Rightarrow> u32 \<Rightarrow> int \<Rightarrow> (bool \<times> nat) res option" where
  "portable_wait_for fuel env i old timeout_ms =
     (if timeout_ms < 0
      then map_option (map_sum id (\<lambda>j. (True, j))) (atomic_poll fuel env i old 0)
      else portable_wait_for_loop fuel env (i + 1) old (now_at env i + timeout_ms * ms_ns))"


section \<open>Linux\<close>

text \<open>\<open>while (load == old) call;\<close>, the shape of all untimed waits on a system call.\<close>

fun wait_loop :: "wait_call \<Rightarrow> nat \<Rightarrow> wenv \<Rightarrow> nat \<Rightarrow> u32 \<Rightarrow> nat option" where
  "wait_loop c 0 env i old = None"
| "wait_loop c (Suc fuel) env i old =
     (if val_at env i = old
      then (case call_at env (i + 1) c of None \<Rightarrow> None | Some _ \<Rightarrow> wait_loop c fuel env (i + 2) old)
      else Some (i + 1))"

definition futex_wait :: "nat \<Rightarrow> wenv \<Rightarrow> nat \<Rightarrow> u32 \<Rightarrow> nat option" where
  "futex_wait fuel env i expected = wait_loop (futex_wait_call expected None) fuel env i expected"

definition futex_wait_for :: "wenv \<Rightarrow> nat \<Rightarrow> u32 \<Rightarrow> int \<Rightarrow> (bool \<times> nat) option" where
  "futex_wait_for env i expected timeout_ms =
     (if val_at env i \<noteq> expected then Some (True, i + 1)
      else if timeout_ms < 0
      then (case call_at env (i + 1) (futex_wait_call expected None) of
              None \<Rightarrow> None | Some _ \<Rightarrow> Some (True, i + 2))
      else (case call_at env (i + 1) (futex_wait_call expected (Some (futex_timespec timeout_ms))) of
              None \<Rightarrow> None | Some r \<Rightarrow> Some (r \<noteq> k_timeout, i + 2)))"


section \<open>Win32\<close>

definition clamp_u32 :: "u32 \<Rightarrow> u32 \<Rightarrow> u32 \<Rightarrow> u32" where
  "clamp_u32 v min_value max_value =
     (if v < min_value then min_value else if v > max_value then max_value else v)"

text \<open>
  The four environment variables, as \<open>try_read_env_u32\<close> delivers them (\<open>None\<close> when it returns
  false).
\<close>

definition load_wait_tuning ::
  "u32 option \<Rightarrow> u32 option \<Rightarrow> u32 option \<Rightarrow> u32 option \<Rightarrow> wait_tuning" where
  "load_wait_tuning spin yield timeout poll_sleep =
     \<lparr>spin_count = (case spin of None \<Rightarrow> 1000 | Some v \<Rightarrow> clamp_u32 v 0 1000000),
      yield_count = (case yield of None \<Rightarrow> 10 | Some v \<Rightarrow> clamp_u32 v 0 100000),
      wait_timeout_ms = (case timeout of None \<Rightarrow> 1 | Some v \<Rightarrow> clamp_u32 v 0 60000),
      polling_sleep_ms = (case poll_sleep of None \<Rightarrow> 1 | Some v \<Rightarrow> clamp_u32 v 0 60000)\<rparr>"

datatype poll_action = p_pauses nat | p_switch | p_sleep u32

definition polling_action :: "wait_tuning \<Rightarrow> u32 \<Rightarrow> poll_action" where
  "polling_action tuning iteration =
     (if iteration \<le> spin_count tuning then p_pauses (2 ^ unat (min (iteration - 1) 8))
      else if iteration \<le> spin_count tuning + yield_count tuning then p_switch
      else p_sleep (polling_sleep_ms tuning))"

fun polling_wait ::
  "nat \<Rightarrow> wait_tuning \<Rightarrow> wenv \<Rightarrow> nat \<Rightarrow> u32 \<Rightarrow> u32 \<Rightarrow> poll_action list \<Rightarrow>
   (poll_action list \<times> nat) option" where
  "polling_wait 0 tuning env i old iteration acts = None"
| "polling_wait (Suc fuel) tuning env i old iteration acts =
     (if val_at env i \<noteq> old then Some (acts, i + 1)
      else polling_wait fuel tuning env (i + 1) old (iteration + 1)
             (acts @ [polling_action tuning (iteration + 1)]))"

definition win32_wait_call :: "wait_tuning \<Rightarrow> u32 \<Rightarrow> wait_call" where
  "win32_wait_call tuning old = WaitOnAddress old 4 (wait_timeout_ms tuning)"

definition win32_wait :: "bool \<Rightarrow> wait_tuning \<Rightarrow> nat \<Rightarrow> wenv \<Rightarrow> nat \<Rightarrow> u32 \<Rightarrow> nat option" where
  "win32_wait native tuning fuel env i old =
     (if \<not> native then map_option snd (polling_wait fuel tuning env i old 0 [])
      else wait_loop (win32_wait_call tuning old) fuel env i old)"

text \<open>\<open>GetTickCount\<close>, in milliseconds; \<open>static_cast<int>\<close> of the 32-bit difference.\<close>

definition tick_at :: "wenv \<Rightarrow> nat \<Rightarrow> u32" where
  "tick_at env i = word_of_int (now_at env i div ms_ns)"

fun win32_polling_wait_for ::
  "nat \<Rightarrow> wait_tuning \<Rightarrow> wenv \<Rightarrow> nat \<Rightarrow> u32 \<Rightarrow> bool \<Rightarrow> int \<Rightarrow> u32 \<Rightarrow> (bool \<times> nat) option" where
  "win32_polling_wait_for 0 tuning env i old indefinite timeout_ms start = None"
| "win32_polling_wait_for (Suc fuel) tuning env i old indefinite timeout_ms start =
     (if val_at env i = old then
        (if \<not> indefinite \<and> sint (tick_at env (i + 1) - start) \<ge> timeout_ms
         then Some (False, i + 2)
         else (case polling_wait fuel tuning env (i + 2) old 0 [] of
                 None \<Rightarrow> None
               | Some (_, j) \<Rightarrow>
                   win32_polling_wait_for fuel tuning env j old indefinite timeout_ms start))
      else Some (True, i + 1))"

fun win32_native_wait_for ::
  "nat \<Rightarrow> wenv \<Rightarrow> nat \<Rightarrow> u32 \<Rightarrow> bool \<Rightarrow> u32 \<Rightarrow> (bool \<times> nat) option" where
  "win32_native_wait_for 0 env i old indefinite wait_ms = None"
| "win32_native_wait_for (Suc fuel) env i old indefinite wait_ms =
     (if val_at env i = old then
        (case call_at env (i + 1) (WaitOnAddress old 4 wait_ms) of
           None \<Rightarrow> None
         | Some r \<Rightarrow>
             if r = k_timeout \<and> \<not> indefinite
             then Some (val_at env (i + 2) \<noteq> old, i + 3)
             else win32_native_wait_for fuel env (i + 2) old indefinite wait_ms)
      else Some (True, i + 1))"

definition win32_wait_for ::
  "bool \<Rightarrow> wait_tuning \<Rightarrow> nat \<Rightarrow> wenv \<Rightarrow> nat \<Rightarrow> u32 \<Rightarrow> int \<Rightarrow> (bool \<times> nat) option" where
  "win32_wait_for native tuning fuel env i old timeout_ms =
     (let indefinite = timeout_ms < 0
      in if \<not> native
         then win32_polling_wait_for fuel tuning env (i + 1) old indefinite timeout_ms (tick_at env i)
         else win32_native_wait_for fuel env i old indefinite (win32_wait_ms timeout_ms))"


section \<open>Darwin\<close>

text \<open>Both tiers wait in the same loop; they differ in the call.\<close>

definition darwin_wait_call :: "darwin_tier \<Rightarrow> u32 \<Rightarrow> wait_call" where
  "darwin_wait_call tier old =
     (if uses_os_sync tier then os_wait old else ulock_wait (u64_of_u32 old) ulock_timeout_us)"

definition darwin_wait :: "darwin_tier \<Rightarrow> nat \<Rightarrow> wenv \<Rightarrow> nat \<Rightarrow> u32 \<Rightarrow> nat option" where
  "darwin_wait tier fuel env i old = wait_loop (darwin_wait_call tier old) fuel env i old"

definition os_wait_timed_out :: "wenv \<Rightarrow> nat \<Rightarrow> u32 \<Rightarrow> u64 \<Rightarrow> bool option" where
  "os_wait_timed_out env i old timeout_ns =
     map_option (\<lambda>r. r = k_timeout) (call_at env i (os_wait_for old timeout_ns))"

fun darwin_os_wait_for :: "nat \<Rightarrow> wenv \<Rightarrow> nat \<Rightarrow> u32 \<Rightarrow> int \<Rightarrow> (bool \<times> nat) option" where
  "darwin_os_wait_for 0 env i old deadline = None"
| "darwin_os_wait_for (Suc fuel) env i old deadline =
     (if val_at env i \<noteq> old then Some (True, i + 1)
      else
        let remaining_ns = deadline - now_at env (i + 1)
        in if remaining_ns \<le> 0 then Some (False, i + 2)
           else (case os_wait_timed_out env (i + 2) old (word_of_int remaining_ns) of
                   None \<Rightarrow> None
                 | Some True \<Rightarrow> Some (False, i + 3)
                 | Some False \<Rightarrow> darwin_os_wait_for fuel env (i + 3) old deadline))"

fun darwin_ulock_wait_for :: "nat \<Rightarrow> wenv \<Rightarrow> nat \<Rightarrow> u32 \<Rightarrow> int \<Rightarrow> (bool \<times> nat) option" where
  "darwin_ulock_wait_for 0 env i old deadline = None"
| "darwin_ulock_wait_for (Suc fuel) env i old deadline =
     (if val_at env i \<noteq> old then Some (True, i + 1)
      else if to_ms (deadline - now_at env (i + 1)) \<le> 0 then Some (False, i + 2)
      else (case call_at env (i + 2) (ulock_wait (u64_of_u32 old) ulock_timeout_us) of
              None \<Rightarrow> None
            | Some _ \<Rightarrow> darwin_ulock_wait_for fuel env (i + 3) old deadline))"

definition darwin_wait_for ::
  "darwin_tier \<Rightarrow> nat \<Rightarrow> wenv \<Rightarrow> nat \<Rightarrow> u32 \<Rightarrow> int \<Rightarrow> (bool \<times> nat) option" where
  "darwin_wait_for tier fuel env i old timeout_ms =
     (if timeout_ms < 0 then map_option (\<lambda>j. (True, j)) (darwin_wait tier fuel env i old)
      else
        let deadline = now_at env i + timeout_ms * ms_ns
        in if uses_os_sync tier then darwin_os_wait_for fuel env (i + 1) old deadline
           else darwin_ulock_wait_for fuel env (i + 1) old deadline)"


section \<open>The dispatcher\<close>

datatype platform = linux | win32 bool wait_tuning | darwin darwin_tier | portable

definition atomic_wait :: "platform \<Rightarrow> nat \<Rightarrow> wenv \<Rightarrow> nat \<Rightarrow> u32 \<Rightarrow> nat res option" where
  "atomic_wait p fuel env i old =
     (case p of
        linux \<Rightarrow> map_option Inr (futex_wait fuel env i old)
      | win32 native tuning \<Rightarrow> map_option Inr (win32_wait native tuning fuel env i old)
      | darwin tier \<Rightarrow> map_option Inr (darwin_wait tier fuel env i old)
      | portable \<Rightarrow> atomic_poll fuel env i old 0)"

definition atomic_wait_for ::
  "platform \<Rightarrow> nat \<Rightarrow> wenv \<Rightarrow> nat \<Rightarrow> u32 \<Rightarrow> int \<Rightarrow> (bool \<times> nat) res option" where
  "atomic_wait_for p fuel env i old timeout_ms =
     (case p of
        linux \<Rightarrow> map_option Inr (futex_wait_for env i old timeout_ms)
      | win32 native tuning \<Rightarrow> map_option Inr (win32_wait_for native tuning fuel env i old timeout_ms)
      | darwin tier \<Rightarrow> map_option Inr (darwin_wait_for tier fuel env i old timeout_ms)
      | portable \<Rightarrow> portable_wait_for fuel env i old timeout_ms)"

text \<open>\<open>atomic_backoff::wait\<close>: the backoff's own state takes no part in it.\<close>

definition backoff_wait ::
  "atomic_backoff \<Rightarrow> platform \<Rightarrow> nat \<Rightarrow> wenv \<Rightarrow> nat \<Rightarrow> u32 \<Rightarrow> int \<Rightarrow> (bool \<times> nat) res option" where
  "backoff_wait b p fuel env i old timeout_ms = atomic_wait_for p fuel env i old timeout_ms"

definition futex_notify_one :: wake_call where
  "futex_notify_one = futex_wake (futex_syscall FUTEX_WAKE 1 None)"

definition futex_notify_all :: wake_call where
  "futex_notify_all = futex_wake (futex_syscall FUTEX_WAKE 2147483647 None)"

definition darwin_notify_one :: "darwin_tier \<Rightarrow> wake_call" where
  "darwin_notify_one tier = (if uses_os_sync tier then os_wake_one else ulock_wake_one)"

definition darwin_notify_all :: "darwin_tier \<Rightarrow> wake_call" where
  "darwin_notify_all tier = (if uses_os_sync tier then os_wake_all else ulock_wake_all)"

text \<open>The wake system calls the notify operations make.\<close>

definition atomic_notify_one :: "platform \<Rightarrow> wake_call list" where
  "atomic_notify_one p =
     (case p of
        linux \<Rightarrow> [futex_notify_one]
      | win32 native _ \<Rightarrow> if native then [WakeByAddressSingle] else []
      | darwin tier \<Rightarrow> [darwin_notify_one tier]
      | portable \<Rightarrow> [])"

definition atomic_notify_all :: "platform \<Rightarrow> wake_call list" where
  "atomic_notify_all p =
     (case p of
        linux \<Rightarrow> [futex_notify_all]
      | win32 native _ \<Rightarrow> if native then [WakeByAddressAll] else []
      | darwin tier \<Rightarrow> [darwin_notify_all tier]
      | portable \<Rightarrow> [])"

definition atomic_notify_all_if_waiters :: "platform \<Rightarrow> u32 \<Rightarrow> bool \<times> wake_call list" where
  "atomic_notify_all_if_waiters p v =
     (case p of
        linux \<Rightarrow> (True, [])
      | win32 _ _ \<Rightarrow> (True, [])
      | darwin _ \<Rightarrow> (True, [])
      | portable \<Rightarrow> (v \<noteq> 0, []))"



section \<open>Returning from a wait\<close>

lemma poll_round_ok: "iteration \<noteq> 0 \<Longrightarrow> \<exists>acts. poll_round iteration = Inr acts"
proof -
  assume "iteration \<noteq> 0"
  then have "unat (poll_exponent iteration) < 32"
    by (auto simp: poll_exponent_def word_less_nat_alt unat_eq_zero unat_minus_one)
  then show ?thesis by (simp add: poll_round_def word_le_nat_alt)
qed

lemma wait_loop_changed: "wait_loop c fuel env i old = Some j \<Longrightarrow> i < j \<and> val_at env (j - 1) \<noteq> old"
  by (induction c fuel env i old rule: wait_loop.induct) (auto split: if_splits option.splits)

lemma polling_wait_changed:
  "polling_wait fuel tuning env i old it acts = Some (acts', j) \<Longrightarrow> i < j \<and> val_at env (j - 1) \<noteq> old"
  by (induction fuel tuning env i old it acts rule: polling_wait.induct) (auto split: if_splits)

lemma atomic_poll_changed:
  "atomic_poll fuel env i old it = Some (Inr j) \<Longrightarrow> i < j \<and> val_at env (j - 1) \<noteq> old"
  by (induction fuel env i old it rule: atomic_poll.induct) (auto split: if_splits sum.splits)

lemmas wait_changed = wait_loop_changed polling_wait_changed atomic_poll_changed

text \<open>What the kernel promises.\<close>

lemma kernel_mismatch: "kernel_law env \<Longrightarrow> \<not> matches c (val_at env k) \<Longrightarrow> \<exists>r. call_at env k c = Some r"
  by (auto simp: kernel_law_def)

lemma kernel_limited: "kernel_law env \<Longrightarrow> call_limit c = Some l \<Longrightarrow> \<exists>r. call_at env k c = Some r"
  by (auto simp: kernel_law_def)

lemma kernel_timeout:
  "kernel_law env \<Longrightarrow> call_at env k c = Some k_timeout \<Longrightarrow> call_limit c = Some l \<Longrightarrow>
   now_at env k + l \<le> now_at env (k + 1)"
  by (fastforce simp: kernel_law_def)

text \<open>
  From the step on where the value stays different, each loop ends within as many rounds; one
  that blocks without a limit, if its calls before that step are woken.
\<close>

lemma wait_loop_live:
  assumes "kernel_law env" "\<And>k. n \<le> k \<Longrightarrow> val_at env k \<noteq> old" "\<And>v. matches c v \<longleftrightarrow> v = old"
    and "\<And>k. call_limit c = None \<Longrightarrow> i < k \<Longrightarrow> k < n \<Longrightarrow> call_at env k c \<noteq> None"
    and "n - i < fuel"
  shows "\<exists>j. wait_loop c fuel env i old = Some j"
  using assms(4,5)
proof (induction fuel arbitrary: i)
  case (Suc fuel)
  show ?case
  proof (cases "val_at env i = old")
    case True
    then have n: "i < n" using assms(2) [of i] by (cases "n \<le> i") auto
    have "\<exists>r. call_at env (i + 1) c = Some r"
    proof (cases "n \<le> i + 1")
      case True
      then show ?thesis using kernel_mismatch [OF assms(1)] assms(2,3) by simp
    next
      case False
      then show ?thesis
        using Suc.prems(1) [of "i + 1"] kernel_limited [OF assms(1), of c _ "i + 1"]
        by (cases "call_limit c") auto
    qed
    moreover have "\<exists>j. wait_loop c fuel env (i + 2) old = Some j"
      using Suc.prems n by (intro Suc.IH) auto
    ultimately show ?thesis using True by auto
  qed simp
qed simp

lemma polling_wait_live:
  "(\<And>k. n \<le> k \<Longrightarrow> val_at env k \<noteq> old) \<Longrightarrow> n - i < fuel \<Longrightarrow>
   \<exists>acts' j. polling_wait fuel tuning env i old it acts = Some (acts', j)"
proof (induction fuel tuning env i old it acts rule: polling_wait.induct)
  case (2 fuel tuning env i old it acts)
  then have "val_at env i = old \<Longrightarrow> n - (i + 1) < fuel" by (cases "n \<le> i") auto
  with 2 show ?case by auto
qed simp

lemma atomic_poll_live:
  "(\<And>k. n \<le> k \<Longrightarrow> val_at env k \<noteq> old) \<Longrightarrow> n - i < fuel \<Longrightarrow> unat it + (n - i) < 2 ^ 32 \<Longrightarrow>
   \<exists>j. atomic_poll fuel env i old it = Some (Inr j)"
proof (induction fuel env i old it rule: atomic_poll.induct)
  case (2 fuel env i old it)
  show ?case
  proof (cases "val_at env i = old")
    case True
    then have ni: "\<not> n \<le> i" using 2(2) by auto
    then have it: "unat (it + 1) = unat it + 1" using 2(4) by (simp add: unat_word_ariths)
    then have "it + 1 \<noteq> 0" by auto
    then obtain acts where "poll_round (it + 1) = Inr acts" using poll_round_ok by blast
    moreover have "n - (i + 1) < fuel" "unat (it + 1) + (n - (i + 1)) < 2 ^ 32"
      using 2(3,4) ni it by auto
    ultimately show ?thesis using 2(1) [OF True _ 2(2)] True by auto
  qed simp
qed simp

text \<open>
  The system call the untimed wait of a platform blocks in, if it blocks in one at all.
\<close>

definition untimed_call :: "platform \<Rightarrow> u32 \<Rightarrow> wait_call option" where
  "untimed_call p old =
     (case p of
        linux \<Rightarrow> Some (futex_wait_call old None)
      | win32 native tuning \<Rightarrow> if native then Some (win32_wait_call tuning old) else None
      | darwin tier \<Rightarrow> Some (darwin_wait_call tier old)
      | portable \<Rightarrow> None)"

lemma atomic_wait_blocks:
  "untimed_call p old = Some c \<Longrightarrow> atomic_wait p fuel env i old = map_option Inr (wait_loop c fuel env i old)"
  by (cases p) (auto simp: untimed_call_def atomic_wait_def futex_wait_def win32_wait_def darwin_wait_def
      split: if_splits)

lemma atomic_wait_polls:
  "untimed_call p old = None \<Longrightarrow>
   (\<exists>tuning. p = win32 False tuning \<and>
      atomic_wait p fuel env i old = map_option (Inr \<circ> snd) (polling_wait fuel tuning env i old 0 [])) \<or>
   p = portable \<and> atomic_wait p fuel env i old = atomic_poll fuel env i old 0"
  by (cases p) (auto simp: untimed_call_def atomic_wait_def win32_wait_def option.map_comp
      split: if_splits)

lemma untimed_matches: "untimed_call p old = Some c \<Longrightarrow> matches c v \<longleftrightarrow> v = old"
  by (cases p) (auto simp: untimed_call_def win32_wait_call_def darwin_wait_call_def
      simp del: matches.simps split: if_splits)

lemma untimed_unlimited:
  "(\<exists>c. untimed_call p old = Some c \<and> call_limit c = None) \<longleftrightarrow>
     (case p of
        linux \<Rightarrow> True
      | win32 native tuning \<Rightarrow> native \<and> wait_timeout_ms tuning = infinite_ms
      | darwin tier \<Rightarrow> uses_os_sync tier
      | portable \<Rightarrow> False)"
  by (cases p) (auto simp: untimed_call_def win32_wait_call_def darwin_wait_call_def split: if_splits)

lemma notify_wakes:
  "untimed_call p old = Some c \<Longrightarrow>
   (\<exists>w. atomic_notify_one p = [w] \<and> wake_reaches w c) \<and> (\<exists>w. atomic_notify_all p = [w] \<and> wake_reaches w c)"
  by (cases p) (auto simp: untimed_call_def atomic_notify_one_def atomic_notify_all_def futex_notify_one_def
      futex_notify_all_def futex_wait_call_def futex_syscall_def win32_wait_call_def darwin_wait_call_def
      darwin_notify_one_def darwin_notify_all_def os_wait_def os_wake_one_def os_wake_all_def
      ulock_wait_def ulock_wake_one_def ulock_wake_all_def ulock_wait_op_def ulock_wake_op_def
      ulock_wake_all_op_def split: if_splits)

lemma atomic_wait_changed:
  "atomic_wait p fuel env i old = Some (Inr j) \<Longrightarrow> i < j \<and> val_at env (j - 1) \<noteq> old"
  by (cases p) (auto simp: atomic_wait_def futex_wait_def win32_wait_def darwin_wait_def
      dest: wait_changed split: if_splits)

lemma atomic_wait_live:
  assumes "kernel_law env" "\<And>k. n \<le> k \<Longrightarrow> val_at env k \<noteq> old" "n - i < fuel" "n - i < 2 ^ 32"
    and "\<And>c k. untimed_call p old = Some c \<Longrightarrow> call_limit c = None \<Longrightarrow> i < k \<Longrightarrow> k < n \<Longrightarrow>
      call_at env k c \<noteq> None"
  shows "\<exists>j. atomic_wait p fuel env i old = Some (Inr j)"
proof (cases "untimed_call p old")
  case None
  then show ?thesis
    using atomic_wait_polls [OF None, of fuel env i] atomic_poll_live [of n env old i fuel 0]
      polling_wait_live [of n env old i fuel _ 0 "[]"] assms(2-4) by fastforce
next
  case (Some c)
  then show ?thesis
    using wait_loop_live [OF assms(1,2) untimed_matches [OF Some] assms(5) [OF Some] assms(3)]
      atomic_wait_blocks [OF Some] by auto
qed


text \<open>An environment in which the word changes at step 5 and the kernel wakes every sleeper then.\<close>

definition changing :: wenv where
  "changing = \<lparr>val_at = (\<lambda>k. if k < 5 then 7 else 8), now_at = int,
     call_at = (\<lambda>k c. Some (if k < 5 then k_woken else k_mismatch))\<rparr>"

lemma changing_law: "kernel_law changing"
  by (simp add: kernel_law_def changing_def)



section \<open>Timed waits\<close>

text \<open>
  The backends whose timed wait ends at its deadline although the word does not change
  (\<open>Wait_Timeouts\<close> shows that these and no others do): those that hand the limit to the kernel.
\<close>

definition honours_timeout :: "platform \<Rightarrow> bool" where
  "honours_timeout p =
     (case p of linux \<Rightarrow> True | win32 native _ \<Rightarrow> native | darwin _ \<Rightarrow> True | portable \<Rightarrow> False)"


section \<open>Small parts\<close>

text \<open>
  \<open>atomic_notify_all_if_waiters\<close> never issues a wake call on any platform, and still
  answers true on Linux, Win32 and Darwin, where \<open>atomic_notify_all\<close> does issue one (with
  \<open>WaitOnAddress\<close> on Win32); on other platforms its answer is whether the word is non-zero.
\<close>

theorem notify_all_if_waiters_never_wakes:
  "snd (atomic_notify_all_if_waiters p v) = [] \<and>
   fst (atomic_notify_all_if_waiters p v) = (if p = portable then v \<noteq> 0 else True) \<and>
   (atomic_notify_all p = []) = (p = portable \<or> (\<exists>tuning. p = win32 False tuning))"
  by (cases p) (auto simp: atomic_notify_all_if_waiters_def atomic_notify_all_def darwin_notify_all_def)

text \<open>
  Whatever the four environment variables hold, the Win32 tuning stays within its documented
  limits, and the polling wait pauses at most 256 times per round.
\<close>

theorem wait_tuning_bounds:
  "spin_count (load_wait_tuning a b c d) \<le> 1000000 \<and> yield_count (load_wait_tuning a b c d) \<le> 100000 \<and>
   wait_timeout_ms (load_wait_tuning a b c d) \<le> 60000 \<and>
   polling_sleep_ms (load_wait_tuning a b c d) \<le> 60000 \<and>
   (case polling_action (load_wait_tuning a b c d) iteration of p_pauses n \<Rightarrow> n \<le> 256 | _ \<Rightarrow> True)"
proof -
  have "unat (min (iteration - 1) 8) \<le> 8" by (simp add: min_def word_le_nat_alt)
  then have "(2::nat) ^ unat (min (iteration - 1) 8) \<le> 2 ^ 8" by (intro power_increasing) auto
  then show ?thesis
    by (auto simp: load_wait_tuning_def clamp_u32_def polling_action_def split: option.splits)
qed

end
