(* ===== verification/Varlen_Termination.thy ===== *)
theory Varlen_Termination
  imports Varlen_Ring
begin

text \<open>
  The reservation loop of \<open>varlen_writer::try_reserve\<close> ends, whatever the shared header holds:
  no assumption on capacity, positions or alignment is made, so this covers a segment another
  process has corrupted. The loop makes at most three rounds: one for wrap padding, a second one
  only when the padding takes \<open>write_pos\<close> past 64 bits, and the last, which finds the whole
  capacity ahead of it.
\<close>

section \<open>One round of the loop\<close>

text \<open>
  A call that found \<open>write_pos\<close> where its local copy says either returns in this round or has
  just committed wrap padding of fewer bytes than it needs and looks again behind it.
\<close>

lemma loop_round:
  assumes "wpos s = head" "u64_of_u32 needed \<le> data_capacity (hdr s)"
  obtains (returns) r where "varlen_reserve_loop needed psize mt head w s = Some r"
  | (pads) s' where "varlen_reserve_loop needed psize mt head w s =
        varlen_reserve_loop needed psize mt (wpos s') w s'"
      and "wpos s' = head + (data_capacity (hdr s) - head mod data_capacity (hdr s))"
      and "data_capacity (hdr s') = data_capacity (hdr s)" "data_capacity (hdr s) \<noteq> 0"
      and "data_capacity (hdr s) - head mod data_capacity (hdr s) < u64_of_u32 needed"
proof (cases "varlen_reserve_loop needed psize mt head w s")
  case (Some r)
  then show thesis by (rule returns)
next
  case None
  let ?cap = "data_capacity (hdr s)"
  let ?pad = "?cap - head mod ?cap"
  let ?s1 = "update_meta (\<lambda>m. m\<lparr>write_pos := head + ?pad\<rparr>) s"
  let ?h = "\<lparr>slot_size = u32_of_u64 ?pad, payload_size = 0, slot_meta = default_meta\<rparr>"
  let ?next = "\<lambda>t. signal_commit (update_meta (\<lambda>m. m\<lparr>commit_pos := head + ?pad\<rparr>) t)"
  note U = varlen_reserve_loop.simps [of needed psize mt head w s]
  have c: "?cap \<noteq> 0"
    using None by (subst (asm) U) (auto simp: Let_def mod_u64_def split: if_splits)
  have lt: "?pad < u64_of_u32 needed"
    using None assms(1) c by (subst (asm) U) (auto simp: Let_def split: if_splits sum.splits)
  have room: "\<not> head - rpos s + u64_of_u32 needed > ?cap"
    using None by (subst (asm) U) (auto simp: Let_def split: if_splits)
  obtain t where t: "store_header ?s1 (data_ptr w + unat (head mod ?cap)) ?h = Inr t"
    using None assms(1) c lt room by (subst (asm) U) (auto simp: Let_def split: sum.splits)
  have eq: "varlen_reserve_loop needed psize mt head w s =
      varlen_reserve_loop needed psize mt (head + ?pad) w (?next t)"
    using assms(1) c lt room t by (subst U) (simp add: Let_def)
  have "hdr t = hdr ?s1"
    using t by (auto simp: store_header_def store_bytes_def split: if_splits)
  then have "wpos (?next t) = head + ?pad" "data_capacity (hdr (?next t)) = ?cap"
    by simp_all
  then show thesis using pads [of "?next t"] eq c lt by simp
qed

lemma loop_from_start:
  assumes "wpos s = head" "u64_of_u32 needed \<le> data_capacity (hdr s)"
    and "head mod data_capacity (hdr s) = 0"
  shows "\<exists>r. varlen_reserve_loop needed psize mt head w s = Some r"
  by (rule loop_round [OF assms(1,2), of psize mt w]) (use assms in auto)

text \<open>Padding that does not carry out of 64 bits ends on a lap boundary.\<close>

lemma pad_to_boundary:
  fixes head cap :: u64
  assumes "cap \<noteq> 0" "unat head + unat (cap - head mod cap) < 2 ^ 64"
  shows "(head + (cap - head mod cap)) mod cap = 0"
proof -
  let ?c = "unat cap" and ?i = "unat head mod unat cap"
  have i: "?i < ?c" using assms(1) by (simp add: unat_gt_0)
  have pad: "unat (cap - head mod cap) = ?c - ?i"
    using i by (simp add: unat_simps unat_mod)
  have "unat (head + (cap - head mod cap)) = unat head + (?c - ?i)"
    using assms(2) pad by (simp add: unat_simps)
  also have "\<dots> = ?c * (unat head div ?c) + ?c"
    using i mult_div_mod_eq [of ?c "unat head"] by linarith
  finally have "unat (head + (cap - head mod cap)) mod ?c = 0" by simp
  then show ?thesis by (simp add: word_unat_eq_iff unat_mod)
qed

lemma loop_without_carry:
  assumes "wpos s = head" "u64_of_u32 needed \<le> data_capacity (hdr s)"
    and "unat head + unat needed \<le> 2 ^ 64"
  shows "\<exists>r. varlen_reserve_loop needed psize mt head w s = Some r"
proof (rule loop_round [OF assms(1,2), of psize mt w], goal_cases)
  case (2 s')
  have "unat head + unat (data_capacity (hdr s) - head mod data_capacity (hdr s)) < 2 ^ 64"
    using 2(5) assms(3) by (simp add: word_less_nat_alt)
  from pad_to_boundary [OF 2(4) this] have "wpos s' mod data_capacity (hdr s') = 0"
    using 2(2,3) by simp
  then show ?case using loop_from_start [of s' "wpos s'" needed] assms(2) 2(1,3) by simp
qed blast

lemma varlen_reserve_loop_returns:
  assumes "wpos s = head" "u64_of_u32 needed \<le> data_capacity (hdr s)"
  shows "\<exists>r. varlen_reserve_loop needed psize mt head w s = Some r"
proof (rule loop_round [OF assms, of psize mt w], goal_cases)
  case (2 s')
  let ?pad = "data_capacity (hdr s) - head mod data_capacity (hdr s)"
  show ?case
  proof (cases "unat head + unat ?pad < 2 ^ 64")
    case True
    from pad_to_boundary [OF 2(4) this] have "wpos s' mod data_capacity (hdr s') = 0"
      using 2(2,3) by simp
    then show ?thesis using loop_from_start [of s' "wpos s'" needed] assms(2) 2(1,3) by simp
  next
    case False
    have p: "unat ?pad < 2 ^ 32" using 2(5) unat_u32_lt [of needed] by (simp add: word_less_nat_alt)
    have "unat (wpos s') = (unat head + unat ?pad) mod 2 ^ 64"
      unfolding 2(2) by (simp only: unat_word_ariths) simp
    also have "\<dots> = unat head + unat ?pad - 2 ^ 64"
      using False p unat_u64_lt [of head] by (simp add: le_mod_geq)
    finally have "unat (wpos s') + unat needed \<le> 2 ^ 64"
      using p unat_u64_lt [of head] unat_u32_lt [of needed] by simp
    then show ?thesis using loop_without_carry [of s' "wpos s'" needed] assms(2) 2(1,3) by simp
  qed
qed blast


section \<open>Property\<close>

text \<open>
  C14: Every call of the variable-length writer returns: for any state of the shared header, any
  writer and any arguments, \<open>try_reserve\<close>, \<open>reserve_and_copy\<close> and \<open>write\<close> end (with an answer,
  or by meeting undefined behaviour, but never by looping for ever).
\<close>

theorem varlen_writer_terminates:
  "(\<exists>r. varlen_try_reserve w s psize mt = Some r) \<and>
   (\<exists>r. varlen_reserve_and_copy w s psize data mt = Some r) \<and>
   (\<exists>r. varlen_write w s psize data mt = Some r)"
proof -
  have "\<exists>r. varlen_try_reserve w s psize mt = Some r"
    using varlen_reserve_loop_returns [of s "wpos s" "needed_bytes psize s" psize mt w]
    by (auto simp: varlen_try_reserve_def Let_def not_less)
  then show ?thesis by (auto simp: varlen_reserve_and_copy_def varlen_write_def)
qed

end
