(* ===== verification/Abi_Layout.thy ===== *)
theory Abi_Layout
  imports Slot_Header
begin

text \<open>
  The byte layout of the shared structures. The rule by which a C++ compiler lays out a
  standard-layout class is modelled once, for any member list with \<open>alignas\<close> specifiers; the
  declarations of \<open>meta\<close>, \<open>control_block\<close> (\<open>include/spscring/control_block.hpp\<close>),
  \<open>message_meta\<close> and \<open>varlen_slot_header\<close> are values of the model, for any cache-line size
  (\<open>SPSCRING_CACHE_LINE_SIZE\<close> of \<open>internal/platform.hpp\<close>, 64 unless overridden), and the
  \<open>static_assert\<close> pins are a predicate on them. The control block as bytes, which is what the
  peer process maps, follows from the computed offsets.
\<close>

section \<open>Layout of a class\<close>

text \<open>
  A scalar is aligned to its size; an array to its elements. A member carries its name and its
  \<open>alignas\<close> (1 when there is none), a class its own.
\<close>

datatype ctype = Scalar nat | Array ctype nat | Struct nat "member list"
and member = Member string nat ctype

definition round_up :: "nat \<Rightarrow> nat \<Rightarrow> nat" where
  "round_up v a = (v + a - 1) div a * a"

fun alignof :: "ctype \<Rightarrow> nat" and members_align :: "member list \<Rightarrow> nat" where
  "alignof (Scalar n) = n"
| "alignof (Array t n) = alignof t"
| "alignof (Struct a ms) = max a (members_align ms)"
| "members_align [] = 1"
| "members_align (Member f a t # ms) = max (max a (alignof t)) (members_align ms)"

fun sizeof :: "ctype \<Rightarrow> nat" and members_end :: "nat \<Rightarrow> member list \<Rightarrow> nat" where
  "sizeof (Scalar n) = n"
| "sizeof (Array t n) = n * sizeof t"
| "sizeof (Struct a ms) = round_up (members_end 0 ms) (alignof (Struct a ms))"
| "members_end p [] = p"
| "members_end p (Member f a t # ms) =
     members_end (round_up p (max a (alignof t)) + sizeof t) ms"

text \<open>The members of a class placed from position \<open>p\<close> on: name, offset, type.\<close>

fun place :: "nat \<Rightarrow> member list \<Rightarrow> (string \<times> nat \<times> ctype) list" where
  "place p [] = []"
| "place p (Member f a t # ms) =
     (let q = round_up p (max a (alignof t)) in (f, q, t) # place (q + sizeof t) ms)"

definition offsetof :: "ctype \<Rightarrow> string \<Rightarrow> nat option" where
  "offsetof t f = (case t of Struct a ms \<Rightarrow> map_option fst (map_of (place 0 ms) f) | _ \<Rightarrow> None)"

text \<open>
  Alignments are positive, and of an \<open>alignas\<close> and the natural alignment of the member one
  divides the other (both are powers of two).
\<close>

fun wf_type :: "ctype \<Rightarrow> bool" and wf_members :: "member list \<Rightarrow> bool" where
  "wf_type (Scalar n) \<longleftrightarrow> 0 < n"
| "wf_type (Array t n) \<longleftrightarrow> wf_type t"
| "wf_type (Struct a ms) \<longleftrightarrow> 0 < a \<and> wf_members ms"
| "wf_members [] \<longleftrightarrow> True"
| "wf_members (Member f a t # ms) \<longleftrightarrow>
     0 < a \<and> (a dvd alignof t \<or> alignof t dvd a) \<and> wf_type t \<and> wf_members ms"


section \<open>Soundness of the layout rule\<close>

lemma round_up_bounds:
  assumes "0 < a"
  shows "v \<le> round_up v a" "round_up v a < v + a" "a dvd round_up v a"
  using align_up_least [OF assms, of v] by (simp_all add: round_up_def)

lemma alignof_pos:
  "wf_type t \<Longrightarrow> 0 < alignof t"
  "0 < members_align ms"
  by (induction t and ms rule: alignof_members_align.induct) auto

text \<open>Where the first member of a list goes.\<close>

lemma member_align:
  assumes "wf_members (Member f a t # ms)"
  shows "p \<le> round_up p (max a (alignof t))" "a dvd round_up p (max a (alignof t))"
    and "alignof t dvd round_up p (max a (alignof t))"
proof -
  let ?m = "max a (alignof t)"
  have a: "0 < a" "0 < alignof t" "a dvd alignof t \<or> alignof t dvd a"
    using assms alignof_pos(1) [of t] by auto
  then have "a dvd ?m" "alignof t dvd ?m"
    by (metis dvd_imp_le max.absorb1 max.absorb2 dvd_refl)+
  moreover have "0 < ?m" using a by simp
  ultimately show "p \<le> round_up p ?m" "a dvd round_up p ?m" "alignof t dvd round_up p ?m"
    using round_up_bounds [of ?m p] by (auto intro: dvd_trans)
qed

lemma members_end_ge: "wf_members ms \<Longrightarrow> p \<le> members_end p ms"
proof (induction ms arbitrary: p)
  case (Cons m ms)
  obtain f a t where m: "m = Member f a t" by (cases m)
  have "p \<le> round_up p (max a (alignof t)) + sizeof t"
    using member_align(1) [of f a t ms p] Cons.prems m by simp
  also have "\<dots> \<le> members_end (round_up p (max a (alignof t)) + sizeof t) ms"
    using Cons m by simp
  finally show ?case using m by simp
qed simp

text \<open>A placed member is aligned and ends before the end of the list.\<close>

lemma place_member:
  assumes "wf_members ms" "(f, q, t) \<in> set (place p ms)"
  shows "p \<le> q \<and> alignof t dvd q \<and> q + sizeof t \<le> members_end p ms"
  using assms
proof (induction ms arbitrary: p)
  case (Cons m ms)
  obtain g a u where m: "m = Member g a u" by (cases m)
  let ?q = "round_up p (max a (alignof u))"
  have A: "p \<le> ?q" "alignof u dvd ?q" using member_align [of g a u ms p] Cons.prems m by auto
  have wf: "wf_members ms" using Cons.prems m by simp
  consider "(f, q, t) = (g, ?q, u)" | "(f, q, t) \<in> set (place (?q + sizeof u) ms)"
    using Cons.prems m by (auto simp: Let_def)
  then show ?case
  proof cases
    case 1
    then show ?thesis using A m members_end_ge [OF wf, of "?q + sizeof u"] by simp
  next
    case 2
    from Cons.IH [OF wf this] show ?thesis using A m by auto
  qed
qed simp

lemma place_disjoint:
  "wf_members ms \<Longrightarrow> sorted_wrt (\<lambda>x y. fst (snd x) + sizeof (snd (snd x)) \<le> fst (snd y)) (place p ms)"
proof (induction ms arbitrary: p)
  case (Cons m ms)
  obtain g a u where m: "m = Member g a u" by (cases m)
  have wf: "wf_members ms" using Cons.prems m by simp
  show ?case using Cons.IH [OF wf] place_member [OF wf] m by (fastforce simp: Let_def)
qed simp


section \<open>The shared structures\<close>

definition cache_line_size :: nat where "cache_line_size = 64"

definition u8_t :: ctype where "u8_t = Scalar 1"
definition u16_t :: ctype where "u16_t = Scalar 2"
definition u32_t :: ctype where "u32_t = Scalar 4"
definition u64_t :: ctype where "u64_t = Scalar 8"

text \<open>\<open>std::atomic\<close> of an integer has the layout of the integer.\<close>

definition meta_t :: "nat \<Rightarrow> ctype" where
  "meta_t line = Struct 1
     [Member ''write_pos'' line u64_t,
      Member ''padding1'' 1 (Array u8_t (line - sizeof u64_t)),
      Member ''read_pos'' line u64_t,
      Member ''read_wake_seq'' 1 u32_t,
      Member ''padding2'' 1 (Array u8_t (line - sizeof u64_t - sizeof u32_t)),
      Member ''commit_pos'' line u64_t,
      Member ''commit_seq'' 1 u32_t,
      Member ''padding3'' 1 (Array u8_t (line - sizeof u64_t - sizeof u32_t))]"

definition control_block_t :: "nat \<Rightarrow> ctype" where
  "control_block_t line = Struct line
     [Member ''magic'' 1 u32_t,
      Member ''version_major'' 1 u16_t,
      Member ''version_minor'' 1 u32_t,
      Member ''header_size'' 1 u32_t,
      Member ''layout_type'' 1 u32_t,
      Member ''reserved0'' 1 u32_t,
      Member ''rb_meta'' 1 (meta_t line),
      Member ''data_capacity'' 1 u64_t,
      Member ''data_alignment'' 1 u32_t,
      Member ''fixed_item_size'' 1 u32_t,
      Member ''reserved'' 1 (Array u64_t 6)]"

definition message_meta_t :: ctype where
  "message_meta_t = Struct 1
     [Member ''user_data'' 1 u64_t, Member ''timestamp_ns'' 1 u64_t,
      Member ''schema_id'' 1 u32_t, Member ''flags'' 1 u32_t]"

definition varlen_slot_header_t :: ctype where
  "varlen_slot_header_t = Struct 1
     [Member ''slot_size'' 1 u32_t, Member ''payload_size'' 1 u32_t,
      Member ''meta'' 1 message_meta_t]"

text \<open>The \<open>static_assert\<close> pins on sizes and offsets.\<close>

definition control_block_pins :: "nat \<Rightarrow> bool" where
  "control_block_pins line \<longleftrightarrow>
     sizeof (meta_t line) = 3 * line \<and>
     offsetof (control_block_t line) ''rb_meta'' = Some line \<and>
     offsetof (control_block_t line) ''data_capacity'' = Some (4 * line) \<and>
     sizeof (control_block_t line) = 5 * line"

definition message_meta_pin :: bool where
  "message_meta_pin \<longleftrightarrow> sizeof message_meta_t = 24"

definition varlen_slot_header_pin :: bool where
  "varlen_slot_header_pin \<longleftrightarrow> offsetof varlen_slot_header_t ''meta'' = Some 8"

lemmas scalar_types = u8_t_def u16_t_def u32_t_def u64_t_def

lemma round_up_multiple: "0 < a \<Longrightarrow> a dvd v \<Longrightarrow> round_up v a = v"
  using round_up_bounds [of a v] by (metis nat_dvd_not_less dvd_diff_nat diff_is_0_eq
    add.commute le_antisym less_diff_conv2 zero_less_diff not_le)

lemma round_up_within: "0 < v \<Longrightarrow> v \<le> a \<Longrightarrow> round_up v a = a"
  by (simp add: round_up_def div_nat_eqI)

lemma round_up_shift:
  assumes "0 < a"
  shows "round_up (k * a + v) a = k * a + round_up v a"
proof -
  have "k * a + v + a - 1 = (v + a - 1) + k * a" using assms by linarith
  moreover have "((v + a - 1) + k * a) div a = k + (v + a - 1) div a"
    using assms by (intro div_mult_self1) simp
  ultimately show ?thesis by (simp only: round_up_def add_mult_distrib)
qed

text \<open>The layout of \<open>meta\<close> and \<open>control_block\<close> for a line of at least 64 bytes.\<close>

lemma meta_layout:
  assumes "line = 64 * m" "0 < m"
  shows "sizeof (meta_t line) = 3 * line" "alignof (meta_t line) = line"
    and "offsetof (meta_t line) ''write_pos'' = Some 0"
    and "offsetof (meta_t line) ''read_pos'' = Some line"
    and "offsetof (meta_t line) ''read_wake_seq'' = Some (line + 8)"
    and "offsetof (meta_t line) ''commit_pos'' = Some (2 * line)"
    and "offsetof (meta_t line) ''commit_seq'' = Some (2 * line + 8)"
proof -
  have d: "4 dvd line + 8" "4 dvd 2 * line + 8" "8 dvd line" using assms(1) by presburger+
  have ge: "64 \<le> line" using assms by simp
  have al: "alignof (meta_t line) = line"
    using ge by (simp add: meta_t_def scalar_types)
  then show "alignof (meta_t line) = line" .
  have r: "round_up 0 line = 0" "round_up line line = line" "round_up (2 * line) line = 2 * line"
    "round_up (3 * line) line = 3 * line" "round_up (line + 8) 4 = line + 8"
    "round_up (2 * line + 8) 4 = 2 * line + 8" and r1: "\<And>v. round_up v 1 = v"
    "\<And>v. round_up v (Suc 0) = v"
    using d ge by (intro round_up_multiple; simp)+
  have mx: "max line 8 = line" "max (Suc 0) 4 = 4" using ge by simp_all
  have s: "8 + (line - 8) = line" "line + 12 + (line - 12) = 2 * line"
    "2 * line + 12 + (line - 12) = 3 * line" using ge by simp_all
  show "sizeof (meta_t line) = 3 * line"
    using al ge by (simp add: meta_t_def scalar_types r r1 mx s)
  show "offsetof (meta_t line) ''write_pos'' = Some 0"
    "offsetof (meta_t line) ''read_pos'' = Some line"
    "offsetof (meta_t line) ''read_wake_seq'' = Some (line + 8)"
    "offsetof (meta_t line) ''commit_pos'' = Some (2 * line)"
    "offsetof (meta_t line) ''commit_seq'' = Some (2 * line + 8)"
    using ge by (simp_all add: offsetof_def meta_t_def scalar_types Let_def r r1 mx s)
qed

lemma control_block_layout:
  assumes "line = 64 * m" "0 < m"
  shows "sizeof (control_block_t line) = 5 * line" "alignof (control_block_t line) = line"
    and "offsetof (control_block_t line) ''rb_meta'' = Some line"
    and "offsetof (control_block_t line) ''data_capacity'' = Some (4 * line)"
proof -
  note M = meta_layout [OF assms]
  have d: "8 dvd 4 * line" "4 dvd 4 * line + 8" "4 dvd 4 * line + 12" "8 dvd 4 * line + 16"
    using assms(1) by presburger+
  have ge: "64 \<le> line" using assms by simp
  have al: "alignof (control_block_t line) = line"
    using ge M(2) by (simp add: control_block_t_def scalar_types)
  then show "alignof (control_block_t line) = line" .
  have r: "round_up (4 * line) 8 = 4 * line" "round_up (4 * line + 8) 4 = 4 * line + 8"
    "round_up (4 * line + 12) 4 = 4 * line + 12" "round_up (4 * line + 16) 8 = 4 * line + 16"
    using d by (intro round_up_multiple; simp)+
  have h: "round_up 24 line = line" using ge by (intro round_up_within) simp_all
  have e: "round_up (4 * line + 64) line = 5 * line"
    using ge round_up_shift [of line 4 64] round_up_within [of 64 line] by simp
  have s: "round_up 0 4 = 0" "round_up 4 2 = 4" "round_up 6 4 = 8" "round_up 12 4 = 12"
    "round_up 16 4 = 16" "round_up 20 4 = 20" "round_up 4 (Suc (Suc 0)) = 4"
    by (simp_all add: round_up_def numeral_2_eq_2 [symmetric])
  have mx: "max (Suc 0) line = line" "line + 3 * line = 4 * line" using ge by simp_all
  have c: "n + 4 * line = 4 * line + n" for n by simp
  show "sizeof (control_block_t line) = 5 * line"
    using al ge by (simp add: control_block_t_def scalar_types M r h s mx) (simp add: c r e)
  show "offsetof (control_block_t line) ''rb_meta'' = Some line"
    "offsetof (control_block_t line) ''data_capacity'' = Some (4 * line)"
    using ge by (simp_all add: offsetof_def control_block_t_def scalar_types Let_def M r h s mx)
qed


section \<open>Properties\<close>

text \<open>
  C30: The layout the compiler computes satisfies every pin of the sources for each cache-line size
  that is a multiple of 64 bytes, and breaks them for a 32-byte line. The header size that
  \<open>init_control_block\<close> and the validators compare with is the computed size for the default
  line, and the 32 bytes of a slot header are its computed size. The fronts and wait words
  of the two sides lie on separate lines: reservation front on line 0 of \<open>meta\<close>, the consumer's
  front and wake word on line 1, the publication front and its wake word on line 2.
\<close>

theorem control_block_abi:
  assumes "64 dvd line" "0 < line"
  shows "control_block_pins line \<and> \<not> control_block_pins 32 \<and> message_meta_pin \<and> varlen_slot_header_pin \<and>
    sizeof (control_block_t cache_line_size) = sizeof_control_block \<and>
    sizeof varlen_slot_header_t = unat varlen_slot_header_size \<and>
    map (\<lambda>f. map_option (\<lambda>p. p div line) (offsetof (meta_t line) f))
      [''write_pos'', ''read_pos'', ''read_wake_seq'', ''commit_pos'', ''commit_seq''] =
      [Some 0, Some 1, Some 1, Some 2, Some 2]"
proof -
  obtain m where m: "line = 64 * m" "0 < m" using assms by (auto elim!: dvdE)
  have "8 < line" using m by simp
  then have d: "(line + 8) div line = 1" "(2 * line + 8) div line = 2"
    by (simp_all add: div_nat_eqI)
  have pins: "\<not> control_block_pins 32" "message_meta_pin" "varlen_slot_header_pin"
    "sizeof (control_block_t cache_line_size) = sizeof_control_block"
    "sizeof varlen_slot_header_t = unat varlen_slot_header_size"
    by code_simp+
  have "control_block_pins line"
    using meta_layout(1) [OF m] control_block_layout [OF m] by (simp add: control_block_pins_def)
  then show ?thesis using pins assms(2) d by (simp add: meta_layout [OF m])
qed

theorem control_block_abi_witness:
  "control_block_pins 64 \<and> control_block_pins 128 \<and> \<not> control_block_pins 32"
  using control_block_abi [of 64] control_block_abi [of 128] by simp

text \<open>
  Soundness of the layout rule: in any class with well-formed members, each member is
  aligned as its type asks, lies inside the class, and members do not overlap.
\<close>

theorem class_layout_sound:
  assumes "wf_type (Struct a ms)"
  shows "sorted_wrt (\<lambda>x y. fst (snd x) + sizeof (snd (snd x)) \<le> fst (snd y)) (place 0 ms) \<and>
    (\<forall>f q t. (f, q, t) \<in> set (place 0 ms) \<longrightarrow>
       alignof t dvd q \<and> q + sizeof t \<le> sizeof (Struct a ms))"
proof -
  have wf: "wf_members ms" "0 < alignof (Struct a ms)"
    using assms alignof_pos(1) [OF assms] by auto
  have "members_end 0 ms \<le> sizeof (Struct a ms)"
    using round_up_bounds(1) [OF wf(2), of "members_end 0 ms"] by simp
  then show ?thesis using place_disjoint [OF wf(1)] place_member [OF wf(1)]
    by (blast intro: order_trans)
qed

theorem class_layout_sound_witness:
  "\<forall>f q t. (f, q, t) \<in> set (place 0 [Member ''a'' 1 u8_t, Member ''b'' 1 u64_t]) \<longrightarrow>
     alignof t dvd q \<and> q + sizeof t \<le> 16"
  using class_layout_sound [of 1 "[Member ''a'' 1 u8_t, Member ''b'' 1 u64_t]"]
  by (simp add: scalar_types round_up_def)

end
