(* ===== verification/Win32_Config.thy ===== *)
theory Win32_Config
  imports Atomic_Wait
begin

text \<open>
  Start-up configuration of the Win32 backend (\<open>internal/atomic_wait_win32.hpp\<close>): the four
  tuning variables read from the environment, the run-time lookup of the wait functions, and the
  time-out argument of the native calls. The operating system enters as two functions: what
  \<open>GetEnvironmentVariableW\<close> returns for a name and a buffer of 32 characters (the length, and the
  text put into the buffer), and which procedures a module exports. \<open>unsigned long\<close> has 32 bits on this
  platform. Characters are those of the basic set.
\<close>

section \<open>Parsing a number\<close>

definition is_space :: "char \<Rightarrow> bool" where
  "is_space c \<longleftrightarrow> c = CHR '' '' \<or> (9 \<le> (of_char c :: nat) \<and> (of_char c :: nat) \<le> 13)"

definition is_digit :: "char \<Rightarrow> bool" where
  "is_digit c \<longleftrightarrow> 48 \<le> (of_char c :: nat) \<and> (of_char c :: nat) \<le> 57"

definition digit_value :: "char \<Rightarrow> nat" where
  "digit_value c = of_char c - 48"

definition decimal :: "string \<Rightarrow> nat" where
  "decimal ds = foldl (\<lambda>v c. 10 * v + digit_value c) 0 ds"

text \<open>
  \<open>std::wcstoul(buf, &end, 10)\<close>: the value and the text from \<open>end\<close> on. Without a digit nothing
  is consumed; a value beyond the range is \<open>ULONG_MAX\<close>; a minus sign negates modulo \<open>2\<^sup>3\<^sup>2\<close>.
\<close>

definition wcstoul :: "string \<Rightarrow> u32 \<times> string" where
  "wcstoul s =
     (let t = dropWhile is_space s;
          (neg, u) = (case t of
             c # cs \<Rightarrow> if c = CHR ''-'' then (True, cs) else if c = CHR ''+'' then (False, cs) else (False, t)
           | [] \<Rightarrow> (False, t));
          ds = takeWhile is_digit u;
          v = decimal ds
      in if ds = [] then (0, s)
         else (if v > 4294967295 then 4294967295
               else if neg then - word_of_nat v else word_of_nat v, dropWhile is_digit u))"

type_synonym getenv = "string \<Rightarrow> nat \<times> string"

definition try_read_env_u32 :: "getenv \<Rightarrow> string \<Rightarrow> u32 option" where
  "try_read_env_u32 getenv name =
     (let (len, buf) = getenv name
      in if len = 0 \<or> len \<ge> 32 then None
         else let (parsed, rest) = wcstoul buf
              in if length rest = length buf \<or> rest \<noteq> [] then None else Some parsed)"

definition native_wait_tuning :: "getenv \<Rightarrow> wait_tuning" where
  "native_wait_tuning getenv =
     load_wait_tuning (try_read_env_u32 getenv ''SPSCRING_WIN32_WAIT_SPIN'')
       (try_read_env_u32 getenv ''SPSCRING_WIN32_WAIT_YIELD'')
       (try_read_env_u32 getenv ''SPSCRING_WIN32_WAIT_TIMEOUT_MS'')
       (try_read_env_u32 getenv ''SPSCRING_WIN32_POLL_SLEEP_MS'')"


section \<open>Finding the wait functions\<close>

record 'f wait_api =
  wait_on_address :: "'f option"
  wake_one :: "'f option"
  wake_all :: "'f option"

text \<open>A loaded module is the table of procedures it exports.\<close>

type_synonym 'f module = "string \<Rightarrow> 'f option"

definition or_else :: "'a option \<Rightarrow> 'a option \<Rightarrow> 'a option" where
  "or_else x y = (case x of None \<Rightarrow> y | Some _ \<Rightarrow> x)"

fun load_from_modules :: "'f module option list \<Rightarrow> 'f wait_api \<Rightarrow> 'f wait_api" where
  "load_from_modules [] api = api"
| "load_from_modules (None # ms) api = load_from_modules ms api"
| "load_from_modules (Some get_proc # ms) api =
     load_from_modules ms (api\<lparr>
       wait_on_address := or_else (wait_on_address api) (get_proc ''WaitOnAddress''),
       wake_one := or_else (wake_one api) (get_proc ''WakeByAddressSingle''),
       wake_all := or_else (wake_all api) (get_proc ''WakeByAddressAll'')\<rparr>)"

definition load_wait_api :: "(string \<Rightarrow> 'f module option) \<Rightarrow> 'f wait_api" where
  "load_wait_api get_module =
     load_from_modules [get_module ''kernel32.dll'', get_module ''KernelBase.dll'']
       \<lparr>wait_on_address = None, wake_one = None, wake_all = None\<rparr>"

definition has_native_wait_api :: "(string \<Rightarrow> 'f module option) \<Rightarrow> bool" where
  "has_native_wait_api get_module \<longleftrightarrow>
     (let api = load_wait_api get_module
      in wait_on_address api \<noteq> None \<and> wake_one api \<noteq> None \<and> wake_all api \<noteq> None)"

text \<open>The platform the dispatcher runs on, from what the process finds at start-up.\<close>

definition win32_platform :: "(string \<Rightarrow> 'f module option) \<Rightarrow> getenv \<Rightarrow> platform" where
  "win32_platform get_module getenv =
     win32 (has_native_wait_api get_module) (native_wait_tuning getenv)"


section \<open>Properties\<close>

definition exports :: "(string \<Rightarrow> 'f module option) \<Rightarrow> string \<Rightarrow> string \<Rightarrow> bool" where
  "exports get_module m p \<longleftrightarrow> (case get_module m of None \<Rightarrow> False | Some g \<Rightarrow> g p \<noteq> None)"

lemma or_else_simps [simp]: "or_else None y = y" "or_else (Some x) y = Some x"
  by (simp_all add: or_else_def)

lemma no_digit_space_sign:
  "is_digit c \<Longrightarrow> \<not> is_space c" "is_digit c \<Longrightarrow> c \<noteq> CHR ''-''" "is_digit c \<Longrightarrow> c \<noteq> CHR ''+''"
  by (auto simp: is_digit_def is_space_def)

lemma wcstoul_digits:
  assumes "ds \<noteq> []" "list_all is_digit ds"
  shows "wcstoul ds = (if decimal ds > 4294967295 then 4294967295 else word_of_nat (decimal ds), [])"
    and "wcstoul (CHR ''-'' # ds) =
      (if decimal ds > 4294967295 then 4294967295 else - word_of_nat (decimal ds), [])"
proof -
  obtain c cs where ds: "ds = c # cs" using assms(1) by (cases ds) auto
  have d: "is_digit c" "\<forall>x \<in> set cs. is_digit x" using assms(2) ds by (auto simp: list_all_iff)
  note N = no_digit_space_sign [OF d(1)]
  have m: "\<not> is_space (CHR ''-'')" "\<not> is_digit (CHR ''-'')" by (simp_all add: is_space_def is_digit_def)
  show "wcstoul ds = (if decimal ds > 4294967295 then 4294967295 else word_of_nat (decimal ds), [])"
    using d N ds by (simp add: wcstoul_def Let_def takeWhile_eq_all_conv [THEN iffD2]
        dropWhile_eq_Nil_conv [THEN iffD2])
  show "wcstoul (CHR ''-'' # ds) =
      (if decimal ds > 4294967295 then 4294967295 else - word_of_nat (decimal ds), [])"
    using d N ds m by (simp add: wcstoul_def Let_def takeWhile_eq_all_conv [THEN iffD2]
        dropWhile_eq_Nil_conv [THEN iffD2])
qed

text \<open>
  Reading a tuning variable. A text of one to 31 decimal digits gives its value, saturated at
  \<open>2\<^sup>3\<^sup>2 - 1\<close>; one that is unset, empty or longer than the buffer is ignored and the default stays.
  A negative number is not rejected: \<open>-v\<close> is taken as \<open>2\<^sup>3\<^sup>2 - v\<close>, so that for small \<open>v\<close> the
  clamp turns it into the largest permitted setting.
\<close>

theorem try_read_env_u32_outcome:
  assumes env: "getenv name = (len, buf)" and fits: "len < 32 \<Longrightarrow> length buf = len"
  shows "(len = 0 \<or> 32 \<le> len \<longrightarrow> try_read_env_u32 getenv name = None) \<and>
    (0 < len \<and> len < 32 \<and> list_all is_digit buf \<longrightarrow>
       (\<exists>v. try_read_env_u32 getenv name = Some v \<and> unat v = min (decimal buf) 4294967295)) \<and>
    (\<forall>ds. buf = CHR ''-'' # ds \<and> len < 32 \<and> ds \<noteq> [] \<and> list_all is_digit ds \<and>
       0 < decimal ds \<and> decimal ds \<le> 1000000 \<longrightarrow>
       map_option (\<lambda>v. clamp_u32 v 0 1000000) (try_read_env_u32 getenv name) = Some 1000000)"
proof (intro conjI allI impI)
  assume "len = 0 \<or> 32 \<le> len"
  then show "try_read_env_u32 getenv name = None" using env by (auto simp: try_read_env_u32_def)
next
  assume b: "0 < len \<and> len < 32 \<and> list_all is_digit buf"
  then have "buf \<noteq> []" using fits by auto
  then have "try_read_env_u32 getenv name =
      Some (if decimal buf > 4294967295 then 4294967295 else word_of_nat (decimal buf))"
    using b env wcstoul_digits(1) [of buf] by (simp add: try_read_env_u32_def)
  moreover have "unat (if decimal buf > 4294967295 then 4294967295 else word_of_nat (decimal buf) :: u32)
      = min (decimal buf) 4294967295"
    by (simp add: unat_of_nat)
  ultimately show "\<exists>v. try_read_env_u32 getenv name = Some v \<and> unat v = min (decimal buf) 4294967295"
    by blast
next
  fix ds
  assume b: "buf = CHR ''-'' # ds \<and> len < 32 \<and> ds \<noteq> [] \<and> list_all is_digit ds \<and>
    0 < decimal ds \<and> decimal ds \<le> 1000000"
  let ?v = "- word_of_nat (decimal ds) :: u32"
  have t: "try_read_env_u32 getenv name = Some ?v"
    using b env fits wcstoul_digits(2) [of ds] by (auto simp: try_read_env_u32_def)
  have e: "?v = word_of_nat (2 ^ 32 - decimal ds)" using b by (simp add: of_nat_diff)
  have "unat ?v = 2 ^ 32 - decimal ds"
    using b by (simp only: e unat_of_nat) simp
  moreover have "decimal ds \<le> 1000000" using b by blast
  ultimately have "1000000 < ?v" by (simp add: word_less_nat_alt)
  then show "map_option (\<lambda>v. clamp_u32 v 0 1000000) (try_read_env_u32 getenv name) = Some 1000000"
    using t by (simp add: clamp_u32_def)
qed

theorem try_read_env_u32_outcome_witness:
  "(\<exists>v. try_read_env_u32 (\<lambda>_. (3, ''250'')) ''SPSCRING_WIN32_WAIT_SPIN'' = Some v \<and> unat v = 250) \<and>
   map_option (\<lambda>v. clamp_u32 v 0 1000000)
     (try_read_env_u32 (\<lambda>_. (2, ''-1'')) ''SPSCRING_WIN32_WAIT_SPIN'') = Some 1000000"
  using try_read_env_u32_outcome [of "\<lambda>_. (3, ''250'')" "''SPSCRING_WIN32_WAIT_SPIN''" 3 "''250''"]
    try_read_env_u32_outcome [of "\<lambda>_. (2, ''-1'')" "''SPSCRING_WIN32_WAIT_SPIN''" 2 "''-1''"]
  by (simp add: is_digit_def decimal_def digit_value_def)

text \<open>
  C34: The native wait is used exactly when each of the three functions is exported by one of the
  two modules; the tuning is within its documented limits whatever the environment holds; and
  a time-out that fits an \<open>int\<close> reaches the system unchanged, as \<open>INFINITE\<close> exactly when it is negative.
\<close>

theorem win32_configuration:
  "has_native_wait_api get_module =
     list_all (\<lambda>p. exports get_module ''kernel32.dll'' p \<or> exports get_module ''KernelBase.dll'' p)
       [''WaitOnAddress'', ''WakeByAddressSingle'', ''WakeByAddressAll''] \<and>
   spin_count (native_wait_tuning getenv) \<le> 1000000 \<and>
   yield_count (native_wait_tuning getenv) \<le> 100000 \<and>
   wait_timeout_ms (native_wait_tuning getenv) \<le> 60000 \<and>
   polling_sleep_ms (native_wait_tuning getenv) \<le> 60000 \<and>
   (if t < 0 then win32_wait_ms t = infinite_ms
    else if t < 2 ^ 31 then win32_wait_ms t \<noteq> infinite_ms \<and> uint (win32_wait_ms t) = t
    else True)"
proof (intro conjI)
  show "has_native_wait_api get_module =
     list_all (\<lambda>p. exports get_module ''kernel32.dll'' p \<or> exports get_module ''KernelBase.dll'' p)
       [''WaitOnAddress'', ''WakeByAddressSingle'', ''WakeByAddressAll'']"
    by (cases "get_module ''kernel32.dll''"; cases "get_module ''KernelBase.dll''")
      (auto simp: has_native_wait_api_def load_wait_api_def exports_def Let_def or_else_def
        split: option.splits)
next
  have "t mod 4294967296 = t" if "0 \<le> t" "t < 2 ^ 31" using that by simp
  then show "if t < 0 then win32_wait_ms t = infinite_ms
    else if t < 2 ^ 31 then win32_wait_ms t \<noteq> infinite_ms \<and> uint (win32_wait_ms t) = t else True"
    by (auto simp: win32_wait_ms_def infinite_ms_def word_uint_eq_iff uint_word_of_int)
qed (simp_all add: native_wait_tuning_def wait_tuning_bounds)

end
