(* ===== verification/Platform_Config.thy ===== *)
theory Platform_Config
  imports Win32_Config
begin

text \<open>
  What the preprocessor decides: the compiler, architecture and pause hint
  (\<open>internal/platform.hpp\<close>), the Darwin tier (\<open>internal/atomic_wait_darwin.hpp\<close>) and the backend
  the dispatcher includes (\<open>atomic_wait.hpp\<close>). A build is the set of macros the compiler
  predefines or the user passes, the value of the deployment-target macro, and whether the
  compiler offers \<open>__builtin_available\<close>.
\<close>

record build =
  macros :: "string list"
  macos_min_required :: nat      \<comment> \<open>0 when the macro is undefined\<close>
  has_builtin_available :: bool

definition defined :: "build \<Rightarrow> string \<Rightarrow> bool" where
  "defined b m \<longleftrightarrow> m \<in> set (macros b)"

datatype compiler = clang | gcc | msvc

definition detect_compiler :: "build \<Rightarrow> compiler option" where
  "detect_compiler b =
     (if defined b ''__clang__'' then Some clang
      else if defined b ''__GNU__'' \<or> defined b ''__GNUC__'' then Some gcc
      else if defined b ''_MSC_VER'' then Some msvc
      else None)"

datatype arch = x86_64 | arm64 | x86 | arm

definition detect_arch :: "build \<Rightarrow> arch option" where
  "detect_arch b =
     (if defined b ''__x86_64__'' \<or> defined b ''_M_X64'' \<or> defined b ''__amd64__'' then Some x86_64
      else if defined b ''__aarch64__'' \<or> defined b ''_M_ARM64'' \<or> defined b ''__ARM_ARCH_8A''
      then Some arm64
      else if defined b ''__i386__'' \<or> defined b ''_M_IX86'' then Some x86
      else if defined b ''__arm__'' \<or> defined b ''_M_ARM'' then Some arm
      else None)"

datatype pause_hint = mm_pause | builtin_ia32_pause | intrin_yield | acle_yield | std_thread_yield

definition cpu_pause :: "build \<Rightarrow> pause_hint" where
  "cpu_pause b =
     (let a = detect_arch b
      in if a = Some x86_64 \<or> a = Some x86
         then (if defined b ''_MSC_VER'' then mm_pause else builtin_ia32_pause)
         else if a = Some arm64 \<or> a = Some arm
         then (if defined b ''_MSC_VER'' then intrin_yield else acle_yield)
         else std_thread_yield)"

text \<open>The tier, given whether the running system has \<open>os_sync\<close> (\<open>has_os_sync\<close>).\<close>

definition select_tier :: "build \<Rightarrow> bool \<Rightarrow> darwin_tier" where
  "select_tier b os_sync_present =
     (if 140400 \<le> macos_min_required b \<or> defined b ''SPSCRING_USE_OS_SYNC'' then tier1
      else if has_builtin_available b then tier1_runtime os_sync_present
      else tier2)"

definition select_platform ::
  "build \<Rightarrow> bool \<Rightarrow> (string \<Rightarrow> 'f module option) \<Rightarrow> getenv \<Rightarrow> platform" where
  "select_platform b os_sync_present get_module getenv =
     (if defined b ''__linux__'' then linux
      else if defined b ''_WIN32'' then win32_platform get_module getenv
      else if defined b ''__APPLE__'' then darwin (select_tier b os_sync_present)
      else portable)"


section \<open>Which builds rely on being woken\<close>

text \<open>
  Only the Linux build and the Darwin build with \<open>os_sync\<close> block without a time limit, and so rely on
  wakes alone: whatever the environment variables hold, the Win32 build gives \<open>WaitOnAddress\<close> a limit.
\<close>

theorem builds_without_limit:
  "(\<exists>c. untimed_call (select_platform b present get_module getenv) old = Some c \<and> call_limit c = None) \<longleftrightarrow>
   defined b ''__linux__'' \<or>
   \<not> defined b ''_WIN32'' \<and> defined b ''__APPLE__'' \<and> uses_os_sync (select_tier b present)"
proof -
  have "wait_timeout_ms (native_wait_tuning getenv) \<le> 60000"
    by (simp add: native_wait_tuning_def wait_tuning_bounds)
  then have "wait_timeout_ms (native_wait_tuning getenv) \<noteq> infinite_ms" by (auto simp: infinite_ms_def)
  then show ?thesis by (simp add: untimed_unlimited select_platform_def win32_platform_def)
qed

text \<open>A Darwin build calls \<open>os_sync\<close> only where the target or the running system has it.\<close>

theorem os_sync_only_when_available:
  assumes "uses_os_sync (select_tier b present)"
  shows "present \<or> 140400 \<le> macos_min_required b \<or> defined b ''SPSCRING_USE_OS_SYNC''"
  using assms by (auto simp: select_tier_def split: if_splits)

end
