(* ===== verification/Fill_Ratio.thy ===== *)
theory Fill_Ratio
  imports Ring_View Complex_Main
begin

text \<open>
  \<open>ring_view::fill_ratio\<close>: a quotient of two \<open>double\<close>s. The rounding of the floating-point unit is
  a parameter; what the results use of it is that it is monotone and exact on 0 and 1, as every
  IEEE rounding mode is.
\<close>

definition fill_ratio :: "(real \<Rightarrow> real) \<Rightarrow> segment \<Rightarrow> real" where
  "fill_ratio rnd s =
     (let cap = capacity s
      in if cap = 0 then 0
         else rnd (rnd (real (unat (used_bytes s))) / rnd (real (unat cap))))"

text \<open>
  The fill ratio is a number between 0 and 1 for every state of the header, also while the
  two fronts are being moved; it is 0 when nothing is in the ring and 1 when the ring is full.
\<close>

theorem fill_ratio_range:
  assumes "mono rnd" "rnd 0 = 0" "rnd 1 = 1"
  shows "0 \<le> fill_ratio rnd s \<and> fill_ratio rnd s \<le> 1 \<and>
    (used_bytes s = 0 \<longrightarrow> fill_ratio rnd s = 0) \<and>
    (used_bytes s = data_capacity (hdr s) \<and> data_capacity (hdr s) \<noteq> 0 \<longrightarrow> fill_ratio rnd s = 1)"
proof (cases "data_capacity (hdr s) = 0")
  case True
  then show ?thesis by (simp add: fill_ratio_def capacity_def)
next
  case False
  let ?u = "rnd (real (unat (used_bytes s)))" and ?c = "rnd (real (capacity_of s))"
  have "1 \<le> real (capacity_of s)"
    using False by (metis One_nat_def Suc_leI of_nat_1 of_nat_mono unat_gt_0)
  then have c: "1 \<le> ?c" using assms(1,3) by (metis monoD)
  have "used_bytes s \<le> data_capacity (hdr s)" by (rule used_bytes_le)
  then have "real (unat (used_bytes s)) \<le> real (capacity_of s)"
    by (metis of_nat_mono word_le_nat_alt)
  then have le: "?u \<le> ?c" using assms(1) by (rule monoD [rotated])
  have "0 \<le> ?u" using assms(1,2) by (metis monoD of_nat_0_le_iff)
  then have q: "0 \<le> ?u / ?c" "?u / ?c \<le> 1" using c le by simp_all
  have "0 \<le> rnd (?u / ?c)" using q(1) assms(1,2) by (metis monoD)
  moreover have "rnd (?u / ?c) \<le> 1" using q(2) assms(1,3) by (metis monoD)
  ultimately show ?thesis using False assms(2,3) c by (simp add: fill_ratio_def capacity_def)
qed

theorem fill_ratio_range_witness:
  "mono (\<lambda>x. real_of_int \<lfloor>x * 1024\<rfloor> / 1024) \<and>
   fill_ratio (\<lambda>x. real_of_int \<lfloor>x * 1024\<rfloor> / 1024) occupied_segment \<le> 1"
proof -
  let ?rnd = "\<lambda>x. real_of_int \<lfloor>x * 1024\<rfloor> / 1024"
  have m: "mono ?rnd" by (rule monoI) (simp add: divide_right_mono floor_mono)
  moreover have "fill_ratio ?rnd occupied_segment \<le> 1"
    using fill_ratio_range [OF m, of occupied_segment] by simp
  ultimately show ?thesis by blast
qed

end
