(* ===== verification/Fixed_Sequential.thy ===== *)
theory Fixed_Sequential
  imports Fixed_Concurrent
begin

text \<open>
  The fine-grained threads of \<open>Fixed_Concurrent\<close> and the whole operations of \<open>Fixed_Ring\<close> are the
  same program: a producer (or consumer) that runs without being interrupted does exactly
  what one call of \<open>write\<close> (or \<open>read\<close>) does, to every byte of the segment.
\<close>

lemma crun_append: "crun (as @ bs) s = Option.bind (crun as s) (crun bs)"
  by (induction as arbitrary: s) (auto split: option.splits)

text \<open>A step is kept as long as the write position stays below the wrap.\<close>

definition low :: "segment \<Rightarrow> bool" where
  "low s \<longleftrightarrow> wpos s < - u64_of_u32 (fixed_item_size (hdr s))"

lemma low_below:
  assumes "fixed_geometry s" "unat (wpos s) + item_of s < 2 ^ 64"
  shows "low s"
proof -
  have "fixed_item_size (hdr s) \<noteq> 0" using fixed_geometryD(1) [OF assms(1)] by (simp add: unat_gt_0)
  then have "u64_of_u32 (fixed_item_size (hdr s)) \<noteq> 0" by (simp add: word_unat_eq_iff)
  from above_minus [OF _ this] show ?thesis using assms(2) by (simp add: low_def)
qed

lemma crun_step: "capply a s = Some t \<Longrightarrow> low (seg t) \<Longrightarrow> crun (a # as) s = crun as t"
  by (simp add: low_def)

section \<open>The producer\<close>

lemma crun_copy:
  fixes s :: cstate
  assumes "ppc s = p_copy m k" "k \<le> length m" "low (seg s)"
    and "slot_index (seg s) (cpos (seg s)) + length m \<le> length (data_bytes (seg s))"
  shows "crun (replicate (length m - k) (run_producer r)) s =
    Some (s\<lparr>seg := (seg s)\<lparr>data_bytes := mem_write (data_bytes (seg s))
        (slot_index (seg s) (cpos (seg s)) + k) (drop k m)\<rparr>, ppc := p_copy m (length m)\<rparr>)"
  using assms
proof (induction "length m - k" arbitrary: k s)
  case 0
  then show ?case by (simp add: mem_write_def)
next
  case (Suc n)
  let ?i = "slot_index (seg s) (cpos (seg s))"
  let ?t = "s\<lparr>seg := poke (seg s) (?i + k) (m ! k), ppc := p_copy m (Suc k)\<rparr>"
  have k: "k < length m" using Suc.hyps(2) by simp
  have c: "capply (run_producer r) s = Some ?t" using Suc.prems(1) k by simp
  have t: "low (seg ?t)" "slot_index (seg ?t) (cpos (seg ?t)) = ?i"
    "length (data_bytes (seg ?t)) = length (data_bytes (seg s))"
    using Suc.prems(3,4) k by (simp_all add: low_def poke_def slot_index_def)
  have n: "n = length m - Suc k" using Suc.hyps(2) by simp
  have d: "drop k m = m ! k # drop (Suc k) m" using k by (simp add: Cons_nth_drop_Suc)
  have "crun (replicate (length m - k) (run_producer r)) s = crun (replicate n (run_producer r)) ?t"
    using crun_step [OF c t(1)] Suc.hyps(2) by (metis replicate_Suc)
  also have "\<dots> = Some (?t\<lparr>seg := (seg ?t)\<lparr>data_bytes := mem_write (data_bytes (seg ?t))
        (?i + Suc k) (drop (Suc k) m)\<rparr>, ppc := p_copy m (length m)\<rparr>)"
    unfolding n using Suc.hyps(1) [OF n, of ?t] k t Suc.prems(4) by simp
  also have "\<dots> = Some (s\<lparr>seg := (seg s)\<lparr>data_bytes := mem_write (data_bytes (seg s))
        (?i + k) (drop k m)\<rparr>, ppc := p_copy m (length m)\<rparr>)"
    using mem_write_step [of "?i + k" "drop (Suc k) m" "data_bytes (seg s)" "m ! k"] k Suc.prems(4)
    by (simp add: d poke_def)
  finally show ?case .
qed

lemma crun_fill:
  fixes s :: cstate
  assumes "ppc s = p_copy m 0" "low (seg s)"
    and "unat (cpos (seg s)) mod capacity_of (seg s) + length m \<le> length (data_bytes (seg s))"
  shows "crun (replicate (length m) (run_producer r)) s =
    Some (s\<lparr>seg := fill_slot (seg s) m, ppc := p_copy m (length m)\<rparr>)"
  using crun_copy [of s m 0 r] assms by (simp add: fill_slot_def)

text \<open>The steps of a whole call: the call, the load of \<open>read_pos\<close>, the bytes, and three more.\<close>

definition write_steps :: "u8 list \<Rightarrow> u64 \<Rightarrow> caction list" where
  "write_steps m r =
     call_write m # run_producer r # replicate (length m) (run_producer r) @
       [run_producer r, run_producer r, run_producer r]"

lemma crun_write:
  fixes s :: cstate
  assumes inv: "fixed_inv 1 (writer s) (seg s)" and idle: "ppc s = p_idle" "\<not> pending (writer s)"
    and m: "length m = item_of (seg s)"
    and r: "rpos (seg s) \<in> set (read_history s)" "seen_read s \<le> rpos (seg s)"
    and free: "unat (wpos (seg s)) \<noteq> unat (rpos (seg s)) + capacity_of (seg s)"
    and bound: "unat (wpos (seg s)) + 2 * item_of (seg s) < 2 ^ 64"
  shows "\<exists>u. crun (write_steps m (rpos (seg s))) s = Some u \<and>
    ppc u = p_idle \<and> writer u = (reserved_writer (writer s) (seg s))\<lparr>pending := False\<rparr> \<and>
    seg u = written_segment (writer s) (seg s) m \<and> sent u = sent s @ [m] \<and>
    cpc u = cpc s \<and> received u = received s"
proof -
  let ?R = "run_producer (rpos (seg s))"
  let ?w = "reserved_writer (writer s) (seg s)" and ?g = "reserved_segment (seg s)"
  note D = fixed_invD [OF inv]
  have geo: "fixed_geometry ?g" using D(1) by (simp add: fixed_geometry_def reserved_segment_def)
  have low0: "low (seg s)" using low_below [OF D(1)] bound by simp
  have "unat (wpos ?g) = unat (wpos (seg s)) + item_of (seg s)"
    using reserved_wpos [of 0 "writer s" "seg s"] inv by simp
  then have low1: "low ?g" using low_below [OF geo] bound by (simp add: reserved_segment_def)
  have cw: "unat (cpos (seg s)) = unat (wpos (seg s))" using D(7) idle(2) by simp
  have nf: "\<not> (wpos (seg s) mod data_capacity (hdr (seg s)) = rpos (seg s) mod data_capacity (hdr (seg s)) \<and>
      wpos (seg s) > rpos (seg s))" using full_test [OF inv] free by simp
  let ?s1 = "s\<lparr>ppc := p_load m\<rparr>"
  let ?s2 = "s\<lparr>seen_read := rpos (seg s), writer := ?w, seg := ?g, ppc := p_copy m 0\<rparr>"
  let ?s3 = "?s2\<lparr>seg := fill_slot ?g m, ppc := p_copy m (length m)\<rparr>"
  let ?s4 = "?s3\<lparr>ppc := p_publish m\<rparr>"
  let ?p = "update_meta (\<lambda>mt. mt\<lparr>commit_pos := reserved_end ?w\<rparr>) (fill_slot ?g m)"
  let ?s5 = "?s4\<lparr>seg := ?p, writer := ?w\<lparr>pending := False\<rparr>,
    commit_history := commit_history s @ [reserved_end ?w], sent := sent s @ [m], ppc := p_signal\<rparr>"
  let ?s6 = "?s5\<lparr>seg := signal_commit ?p, ppc := p_idle\<rparr>"
  have reg: "unat (cpos ?g) mod capacity_of ?g + length m \<le> length (data_bytes ?g)"
    using slot_in_region [OF D(1,4)] m by (simp add: reserved_segment_def)
  have lows: "low (fill_slot ?g m)" "low ?p" "low (signal_commit ?p)"
    using low1 by (simp_all add: low_def)
  have "crun (write_steps m (rpos (seg s))) s =
      crun (?R # replicate (length m) ?R @ [?R, ?R, ?R]) ?s1"
    unfolding write_steps_def using idle(1) m low0 by (intro crun_step) simp_all
  also have "\<dots> = crun (replicate (length m) ?R @ [?R, ?R, ?R]) ?s2"
    using nf r low1 by (intro crun_step) auto
  also have "\<dots> = crun [?R, ?R, ?R] ?s3"
    using crun_fill [of ?s2 m "rpos (seg s)"] low1 reg by (simp add: crun_append)
  also have "\<dots> = crun [?R, ?R] ?s4" using lows by (intro crun_step) simp_all
  also have "\<dots> = crun [?R] ?s5" using lows by (intro crun_step) simp_all
  also have "\<dots> = Some ?s6" using lows crun_step [of ?R ?s5 ?s6 "[]"] by simp
  finally show ?thesis
    by (intro exI [of _ ?s6]) (simp add: written_segment_def published_segment_def)
qed


section \<open>The consumer\<close>

lemma crun_fetch:
  fixes s :: cstate
  assumes "cpc s = c_copy (mem_read (data_bytes (seg s)) (slot_index (seg s) (rpos (seg s))) k)"
    and "k \<le> item_of (seg s)" "low (seg s)"
    and "slot_index (seg s) (rpos (seg s)) + item_of (seg s) \<le> length (data_bytes (seg s))"
  shows "crun (replicate (item_of (seg s) - k) (run_consumer c)) s =
    Some (s\<lparr>cpc := c_copy (mem_read (data_bytes (seg s)) (slot_index (seg s) (rpos (seg s)))
      (item_of (seg s)))\<rparr>)"
  using assms
proof (induction "item_of (seg s) - k" arbitrary: k s)
  case 0
  then show ?case by simp
next
  case (Suc n)
  let ?i = "slot_index (seg s) (rpos (seg s))"
  let ?buf = "mem_read (data_bytes (seg s)) ?i k"
  let ?t = "s\<lparr>cpc := c_copy (mem_read (data_bytes (seg s)) ?i (Suc k))\<rparr>"
  have k: "k < item_of (seg s)" using Suc.hyps(2) by simp
  have l: "length ?buf = k" using k Suc.prems(4) by (simp add: length_mem_read)
  have "mem_read (data_bytes (seg s)) ?i (Suc k) = ?buf @ [data_bytes (seg s) ! (?i + k)]"
    using k Suc.prems(4) by (simp add: mem_read_def take_Suc_conv_app_nth)
  then have c: "capply (run_consumer c) s = Some ?t" using Suc.prems(1) k l by simp
  have n: "n = item_of (seg ?t) - Suc k" using Suc.hyps(2) by simp
  have "crun (replicate (item_of (seg s) - k) (run_consumer c)) s = crun (replicate n (run_consumer c)) ?t"
    using crun_step [OF c] Suc.prems(3) Suc.hyps(2)
    by (metis replicate_Suc cstate.select_convs(1) cstate.surjective cstate.update_convs(5))
  also have "\<dots> = Some (?t\<lparr>cpc := c_copy (mem_read (data_bytes (seg s)) ?i (item_of (seg s)))\<rparr>)"
    unfolding n using Suc.hyps(1) [OF n] k Suc.prems(3,4) by simp
  finally show ?case by simp
qed

definition read_steps :: "nat \<Rightarrow> u64 \<Rightarrow> caction list" where
  "read_steps n c =
     run_consumer c # replicate n (run_consumer c) @ [run_consumer c, run_consumer c, run_consumer c]"

lemma crun_read:
  fixes s :: cstate
  assumes inv: "fixed_inv 1 (writer s) (seg s)" and idle: "cpc s = c_idle"
    and c: "cpos (seg s) \<in> set (commit_history s)" "seen_commit s \<le> cpos (seg s)"
    and ne: "fixed_contents (seg s) \<noteq> []"
  shows "\<exists>u. crun (read_steps (item_of (seg s)) (cpos (seg s))) s = Some u \<and>
    cpc u = c_idle \<and> writer u = writer s \<and> seg u = fixed_read_advance (seg s) 1 \<and>
    received u = received s @ [hd (fixed_contents (seg s))] \<and> ppc u = ppc s \<and> sent u = sent s"
proof -
  let ?C = "run_consumer (cpos (seg s))" and ?n = "item_of (seg s)"
  let ?i = "slot_index (seg s) (rpos (seg s))"
  let ?f = "mem_read (data_bytes (seg s)) ?i ?n"
  note D = fixed_invD [OF inv]
  have low: "low (seg s)" using low_below [OF D(1)] D(10) by simp
  have reg: "?i + ?n \<le> length (data_bytes (seg s))" using slot_in_region [OF D(1,3)] by simp
  have f: "?f = hd (fixed_contents (seg s))" using fixed_contents_hd [OF inv ne] by simp
  have lt: "rpos (seg s) < cpos (seg s)"
    using fixed_contents_empty_iff [OF inv] ne D(6) by (auto simp: word_less_nat_alt)
  let ?s1 = "s\<lparr>seen_commit := cpos (seg s), cpc := c_copy []\<rparr>"
  let ?s2 = "?s1\<lparr>cpc := c_copy ?f\<rparr>" and ?s3 = "?s1\<lparr>cpc := c_advance ?f\<rparr>"
  let ?r = "rpos (seg s) + u64_of_u32 (fixed_item_size (hdr (seg s)))"
  let ?g = "update_meta (\<lambda>mt. mt\<lparr>read_pos := ?r\<rparr>) (seg s)"
  let ?s4 = "?s3\<lparr>seg := ?g, read_history := read_history s @ [?r],
    received := received s @ [?f], cpc := c_signal\<rparr>"
  let ?s5 = "?s4\<lparr>seg := signal_read ?g, cpc := c_idle\<rparr>"
  have lows: "low ?g" "low (signal_read ?g)" using low by (simp_all add: low_def)
  have lf: "length ?f = ?n" using reg by (simp add: length_mem_read)
  have "crun (read_steps ?n (cpos (seg s))) s = crun (replicate ?n ?C @ [?C, ?C, ?C]) ?s1"
    unfolding read_steps_def using idle c lt low by (intro crun_step) auto
  also have "\<dots> = crun [?C, ?C, ?C] ?s2"
    using crun_fetch [of ?s1 0 "cpos (seg s)"] low reg by (simp add: crun_append mem_read_def)
  also have "\<dots> = crun [?C, ?C] ?s3" using low lf by (intro crun_step) simp_all
  also have "\<dots> = crun [?C] ?s4" using lows by (intro crun_step) simp_all
  also have "\<dots> = Some ?s5" using lows crun_step [of ?C ?s4 ?s5 "[]"] by simp
  finally show ?thesis
    using f by (intro exI [of _ ?s5]) (simp add: fixed_read_advance_def update_meta_def)
qed


section \<open>Whole operations in a reachable state\<close>

lemma creach_history:
  assumes "creach s0 s" "rpos (seg s0) \<in> set (read_history s0)" "cpos (seg s0) \<in> set (commit_history s0)"
  shows "rpos (seg s) \<in> set (read_history s) \<and> cpos (seg s) \<in> set (commit_history s)"
  using assms(1)
proof (induction rule: creach.induct)
  case start
  then show ?case using assms(2,3) by simp
next
  case (step s t)
  from step(2,4) show ?case
    by (cases rule: cstep.cases) (auto simp: poke_def reserved_segment_def)
qed

text \<open>
  The steps of the producer from its call to its return, and of the consumer, alone and loading the
  position \<open>p\<close>: a refused call ends with the load.
\<close>

definition write_call_steps :: "bool \<Rightarrow> u8 list \<Rightarrow> u64 \<Rightarrow> caction list" where
  "write_call_steps ok m p = (if ok then write_steps m p else [call_write m, run_producer p])"

definition read_call_steps :: "bool \<Rightarrow> nat \<Rightarrow> u64 \<Rightarrow> caction list" where
  "read_call_steps ok n p = (if ok then read_steps n p else [run_consumer p])"

lemma uninterrupted_write:
  fixes t :: cstate
  assumes inv: "conc_inv t" and h: "rpos (seg t) \<in> set (read_history t)"
    and idle: "ppc t = p_idle" and m: "length m = item_of (seg t)"
    and bound: "unat (wpos (seg t)) + 2 * item_of (seg t) < 2 ^ 64"
  shows "\<exists>u ok. crun (write_call_steps ok m (rpos (seg t))) t = Some u \<and> ppc u = p_idle \<and>
    fixed_write (writer t) (seg t) m (fixed_item_size (hdr (seg t))) = Inr (ok, writer u, seg u) \<and>
    sent u = sent t @ (if ok then [m] else [])"
proof -
  note D = conc_invD [OF inv]
  have np: "\<not> pending (writer t)" using D(2) idle by (simp add: producer_inv_def)
  have sr: "seen_read t \<le> rpos (seg t)" using D(5) by (simp add: word_le_nat_alt)
  have low: "low (seg t)" using low_below [OF fixed_invD(1) [OF D(1)]] bound by simp
  show ?thesis
  proof (cases "unat (wpos (seg t)) = unat (rpos (seg t)) + capacity_of (seg t)")
    case True
    let ?R = "run_producer (rpos (seg t))" and ?u = "t\<lparr>ppc := p_idle, seen_read := rpos (seg t)\<rparr>"
    have full: "wpos (seg t) mod data_capacity (hdr (seg t)) = rpos (seg t) mod data_capacity (hdr (seg t))"
      "wpos (seg t) > rpos (seg t)" using full_test [OF D(1)] True by auto
    have "crun [call_write m, ?R] t = crun [?R] (t\<lparr>ppc := p_load m\<rparr>)"
      using idle m low by (intro crun_step) simp_all
    also have "\<dots> = Some ?u"
      using full h sr low crun_step [of ?R "t\<lparr>ppc := p_load m\<rparr>" ?u "[]"] by simp
    finally show ?thesis
      using fixed_write_full [OF D(1) True]
      by (intro exI [of _ ?u] exI [of _ False]) (simp add: write_call_steps_def)
  next
    case False
    from crun_write [OF D(1) idle np m h sr False bound]
    obtain u where u: "crun (write_steps m (rpos (seg t))) t = Some u" "ppc u = p_idle"
      "writer u = (reserved_writer (writer t) (seg t))\<lparr>pending := False\<rparr>"
      "seg u = written_segment (writer t) (seg t) m" "sent u = sent t @ [m]" by blast
    have "fixed_inv (Suc 0) (writer t) (seg t)" using D(1) by simp
    from fixed_write_eq [OF this np False, of "fixed_item_size (hdr (seg t))" m] m
    have "fixed_write (writer t) (seg t) m (fixed_item_size (hdr (seg t))) = Inr (True, writer u, seg u)"
      by (simp add: u)
    with u(1,2,5) show ?thesis by (intro exI [of _ u] exI [of _ True]) (simp add: write_call_steps_def)
  qed
qed

lemma uninterrupted_read:
  fixes t :: cstate and r :: fixed_reader
  assumes inv: "conc_inv t" and h: "cpos (seg t) \<in> set (commit_history t)"
    and idle: "cpc t = c_idle" and r: "data_ptr r = sizeof_control_block"
    and out: "length out = item_of (seg t)"
  shows "\<exists>u ok out'. crun (read_call_steps ok (item_of (seg t)) (cpos (seg t))) t = Some u \<and> cpc u = c_idle \<and>
    fixed_read r (seg t) out (fixed_item_size (hdr (seg t))) = Inr (ok, out', seg u) \<and>
    received u = received t @ (if ok then [out'] else [])"
proof -
  note D = conc_invD [OF inv]
  have sc: "seen_commit t \<le> cpos (seg t)" using D(4) by (simp add: word_le_nat_alt)
  have low: "low (seg t)" using low_below [OF fixed_invD(1) [OF D(1)]] fixed_invD(10) [OF D(1)] by simp
  show ?thesis
  proof (cases "fixed_contents (seg t) = []")
    case True
    let ?C = "run_consumer (cpos (seg t))" and ?u = "t\<lparr>seen_commit := cpos (seg t)\<rparr>"
    have "cpos (seg t) \<le> rpos (seg t)"
      using True fixed_contents_empty_iff [OF D(1)] by (simp add: word_le_nat_alt)
    then have "crun [?C] t = Some ?u"
      using idle h sc low crun_step [of ?C t ?u "[]"] by simp
    then show ?thesis
      using fixed_read_empty [OF D(1) True] idle
      by (intro exI [of _ ?u] exI [of _ False] exI [of _ out]) (simp add: read_call_steps_def)
  next
    case False
    from crun_read [OF D(1) idle h sc False]
    obtain u where u: "crun (read_steps (item_of (seg t)) (cpos (seg t))) t = Some u" "cpc u = c_idle"
      "seg u = fixed_read_advance (seg t) 1" "received u = received t @ [hd (fixed_contents (seg t))]"
      by blast
    have "length (hd (fixed_contents (seg t))) = item_of (seg t)"
      using slot_in_region [OF fixed_invD(1,3) [OF D(1)]]
      by (simp add: fixed_contents_hd [OF D(1) False] length_mem_read)
    with fixed_read_eq [OF D(1) False r, of "fixed_item_size (hdr (seg t))" out] out
    have "fixed_read r (seg t) out (fixed_item_size (hdr (seg t))) =
        Inr (True, hd (fixed_contents (seg t)), seg u)" by (simp add: u)
    with u(1,2,4) show ?thesis
      by (intro exI [of _ u] exI [of _ True] exI [of _ "hd (fixed_contents (seg t))"]) (simp add: read_call_steps_def)
  qed
qed

text \<open>
  C12: The interleaved threads implement the operations. Take any state an interleaving can reach
  in which the producer is between calls; let it call \<open>write\<close> and run on alone, loading the current
  \<open>read_pos\<close>. If \<open>fixed_write\<close> succeeds, the steps from the call through the load, every byte, the
  store of \<open>commit_pos\<close> and the signal end in exactly the writer and the segment it computes; if it
  is refused, the call and the load alone do, and the thread is back. Likewise a consumer and
  \<open>read\<close>, found or empty, byte for byte. Frames have the item size, and the write position is two
  items below its wrap.
\<close>

theorem fixed_uninterrupted_equals_call:
  assumes "fixed_ring_open seg0 cap alignment item = Inr (Some (w, r, s))" "item \<noteq> 0"
    and "unat cap \<le> length (data_bytes seg0)" "creach (new_cstate w s) t"
  shows "(ppc t = p_idle \<and> length m = item_of (seg t) \<and>
      unat (wpos (seg t)) + 2 * item_of (seg t) < 2 ^ 64 \<longrightarrow>
      (\<exists>u ok. crun (write_call_steps ok m (rpos (seg t))) t = Some u \<and> ppc u = p_idle \<and>
        fixed_write (writer t) (seg t) m (fixed_item_size (hdr (seg t))) = Inr (ok, writer u, seg u) \<and>
        sent u = sent t @ (if ok then [m] else []))) \<and>
    (cpc t = c_idle \<and> length out = item_of (seg t) \<longrightarrow>
      (\<exists>u ok out'. crun (read_call_steps ok (item_of (seg t)) (cpos (seg t))) t = Some u \<and> cpc u = c_idle \<and>
        fixed_read r (seg t) out (fixed_item_size (hdr (seg t))) = Inr (ok, out', seg u) \<and>
        received u = received t @ (if ok then [out'] else [])))"
proof -
  have start: "conc_inv (new_cstate w s)" by (rule conc_inv_start [OF assms(1-3)])
  have inv: "conc_inv t" using creach_inv [OF assms(4) start] .
  have z: "rpos s = 0" "cpos s = 0" "data_ptr r = sizeof_control_block"
    by (rule fixed_ring_openD [OF assms(1,2)]; simp)+
  have h: "rpos (seg t) \<in> set (read_history t)" "cpos (seg t) \<in> set (commit_history t)"
    using creach_history [OF assms(4)] z by (auto simp: new_cstate_def)
  show ?thesis using uninterrupted_write [OF inv h(1)] uninterrupted_read [OF inv h(2) _ z(3)] by blast
qed

theorem fixed_uninterrupted_equals_call_witness:
  "\<exists>(t :: cstate) u ok. sent t = [] \<and> crun (write_call_steps ok [5] (rpos (seg t))) t = Some u \<and>
    fixed_write (writer t) (seg t) [5] (fixed_item_size (hdr (seg t))) = Inr (ok, writer u, seg u) \<and>
    sent u = (if ok then [[5]] else [])"
proof -
  have "is_valid_data_alignment 1" "(2 :: u64) mod u64_of_u32 1 = 0"
    by (simp_all add: is_valid_data_alignment_def u64_of_u32_def)
  then obtain w r s where o: "fixed_ring_open (fresh_segment 2) 2 1 1 = Inr (Some (w, r, s))"
    by (simp add: fixed_ring_open_cases)
  have "item_of s = 1" "wpos s = 0"
    by (rule fixed_ring_openD [OF o]; simp)+
  define t where "t = new_cstate w s"
  have t: "seg t = s" "ppc t = p_idle" "sent t = []" by (simp_all add: t_def new_cstate_def)
  have "creach (new_cstate w s) t" unfolding t_def by (rule creach.start)
  from fixed_uninterrupted_equals_call [OF o _ _ this, of "[5]" "[]"] t \<open>item_of s = 1\<close> \<open>wpos s = 0\<close>
  obtain u ok where u: "crun (write_call_steps ok [5] (rpos (seg t))) t = Some u"
    "fixed_write (writer t) (seg t) [5] (fixed_item_size (hdr (seg t))) = Inr (ok, writer u, seg u)"
    "sent u = sent t @ (if ok then [[5]] else [])"
    by (auto simp: fresh_segment_def)
  show ?thesis
    using u t(3) by (intro exI [of _ t] exI [of _ u] exI [of _ ok]) simp
qed

end
