(* ===== verification/Stream_Client.thy ===== *)
theory Stream_Client
  imports Atomic_Wait
begin

text \<open>
  What the threaded example (\<open>examples/thread_channel.cpp\<close>) does with a channel, independent of the
  ring behind it: a producer numbers its messages \<open>0, 1, \<dots>, n - 1\<close> and then raises a flag; a
  consumer counts what it takes, compares each number with its count, and leaves when it has
  found the channel empty and then sees the flag. This is the abstract machine both halves of the
  example refine.
\<close>

section \<open>The abstract machine\<close>

record stream =
  produced :: nat
  queue :: "nat list"    \<comment> \<open>numbers published and not yet taken\<close>
  taken :: nat
  errors :: nat
  closed :: bool         \<comment> \<open>the producer has raised its flag\<close>
  left :: bool           \<comment> \<open>the consumer has returned\<close>

definition new_stream :: stream where
  "new_stream = \<lparr>produced = 0, queue = [], taken = 0, errors = 0, closed = False, left = False\<rparr>"

text \<open>
  Leaving asks for the flag only: the empty channel that sent the consumer there was observed
  earlier.
\<close>

inductive stream_step :: "nat \<Rightarrow> stream \<Rightarrow> stream \<Rightarrow> bool" for n where
  internal: "stream_step n s s"
| put: "produced s < n \<Longrightarrow>
    stream_step n s (s\<lparr>queue := queue s @ [produced s], produced := Suc (produced s)\<rparr>)"
| get: "queue s = x # xs \<Longrightarrow> \<not> left s \<Longrightarrow>
    stream_step n s (s\<lparr>queue := xs, taken := Suc (taken s),
      errors := errors s + (if x = taken s then 0 else 1)\<rparr>)"
| close: "produced s = n \<Longrightarrow> stream_step n s (s\<lparr>closed := True\<rparr>)"
| leave: "closed s \<Longrightarrow> stream_step n s (s\<lparr>left := True\<rparr>)"

text \<open>The steps by their effect on the components.\<close>

lemma stream_putI:
  "produced s < n \<Longrightarrow> t = s\<lparr>queue := queue s @ [produced s], produced := Suc (produced s)\<rparr> \<Longrightarrow>
   stream_step n s t"
  by (simp only: stream_step.put)

lemma stream_getI:
  "queue s = x # xs \<Longrightarrow> \<not> left s \<Longrightarrow>
   t = s\<lparr>queue := xs, taken := Suc (taken s), errors := errors s + (if x = taken s then 0 else 1)\<rparr> \<Longrightarrow>
   stream_step n s t"
  using stream_step.get [of s x xs n] by simp

lemma stream_closeI: "produced s = n \<Longrightarrow> t = s\<lparr>closed := True\<rparr> \<Longrightarrow> stream_step n s t"
  by (simp only: stream_step.close)

lemma stream_leaveI: "closed s \<Longrightarrow> t = s\<lparr>left := True\<rparr> \<Longrightarrow> stream_step n s t"
  by (simp only: stream_step.leave)

text \<open>What is in the channel is exactly the numbers between the two counts.\<close>

definition stream_inv :: "nat \<Rightarrow> stream \<Rightarrow> bool" where
  "stream_inv n s \<longleftrightarrow>
     taken s \<le> produced s \<and> produced s \<le> n \<and> queue s = [taken s..<produced s] \<and> errors s = 0 \<and>
     (closed s \<longrightarrow> produced s = n) \<and> (left s \<longrightarrow> closed s)"

lemma stream_inv_start: "stream_inv n new_stream"
  by (simp add: stream_inv_def new_stream_def)

lemma Cons_eq_upt: "x # xs = [i..<j] \<longleftrightarrow> i < j \<and> x = i \<and> xs = [Suc i..<j]"
  by (metis Suc_eq_plus1 upt_eq_Cons_conv)

lemma stream_inv_step: "stream_step n s t \<Longrightarrow> stream_inv n s \<Longrightarrow> stream_inv n t"
  by (induction rule: stream_step.induct)
    (auto simp: stream_inv_def Cons_eq_upt)


text \<open>The programs count in 64-bit words; below a bound of that width a count does not wrap.\<close>

lemma unat_suc_u64: "x < (y :: u64) \<Longrightarrow> unat (x + 1) = Suc (unat x)"
  using unat_u64_lt [of y] by (simp add: unat_simps word_less_nat_alt)


section \<open>The waits of the example\<close>

text \<open>
  \<open>backoff.wait(word, old, 2)\<close>, taken as one step, with \<open>cur\<close> the word when the thread is scheduled.
  Where the platform honours time-outs it may return at any time; on the polling
  fallbacks (whose only look at the clock comes before the two milliseconds are over)
  it returns only when the word has changed. \<open>Wait_Timeouts\<close> proves both of the wait loops.
\<close>

definition wait_returns :: "platform \<Rightarrow> u32 \<Rightarrow> u32 \<Rightarrow> bool" where
  "wait_returns pf old cur \<longleftrightarrow> cur \<noteq> old \<or> honours_timeout pf"


section \<open>Refining it\<close>

datatype thread = producer | consumer

text \<open>
  A program of two threads, each a step function (the left summand is undefined behaviour),
  whose states map to the abstract machine.
\<close>

fun run_threads :: "('s \<Rightarrow> 's res) \<Rightarrow> ('s \<Rightarrow> 's res) \<Rightarrow> thread list \<Rightarrow> 's \<Rightarrow> 's res" where
  "run_threads pstep cstep [] s = Inr s"
| "run_threads pstep cstep (producer # ts) s = res_bind (pstep s) (run_threads pstep cstep ts)"
| "run_threads pstep cstep (consumer # ts) s = res_bind (cstep s) (run_threads pstep cstep ts)"

lemma run_threads_append:
  "run_threads pstep cstep (ts @ us) s =
     res_bind (run_threads pstep cstep ts s) (run_threads pstep cstep us)"
  by (induction pstep cstep ts s rule: run_threads.induct) (auto simp: res_bind_def split: sum.splits)

locale stream_refinement =
  fixes n :: nat
    and inv :: "'s \<Rightarrow> bool"
    and abs :: "'s \<Rightarrow> stream"
    and pstep :: "'s \<Rightarrow> 's res"
    and cstep :: "'s \<Rightarrow> 's res"
  assumes pstep_law: "inv s \<Longrightarrow> \<exists>t. pstep s = Inr t \<and> inv t \<and> stream_step n (abs s) (abs t)"
    and cstep_law: "inv s \<Longrightarrow> \<exists>t. cstep s = Inr t \<and> inv t \<and> stream_step n (abs s) (abs t)"
begin

lemma run_refines:
  assumes "inv s" "stream_inv n (abs s)"
  shows "\<exists>t. run_threads pstep cstep ts s = Inr t \<and> inv t \<and> stream_inv n (abs t)"
  using assms
proof (induction ts arbitrary: s)
  case Nil
  then show ?case by simp
next
  case (Cons th ts)
  show ?case
  proof (cases th)
    case producer
    with pstep_law [OF Cons.prems(1)] Cons.IH Cons.prems(2) stream_inv_step show ?thesis by fastforce
  next
    case consumer
    with cstep_law [OF Cons.prems(1)] Cons.IH Cons.prems(2) stream_inv_step show ?thesis by fastforce
  qed
qed

text \<open>
  From the start, whatever the schedule: no undefined behaviour, no mismatch, and every number
  produced so far has either been taken, in order, or is still in the channel.
\<close>

lemma run_in_order:
  assumes "inv s" "abs s = new_stream"
  shows "\<exists>t. run_threads pstep cstep ts s = Inr t \<and> errors (abs t) = 0 \<and>
    queue (abs t) = [taken (abs t)..<produced (abs t)] \<and> taken (abs t) \<le> produced (abs t) \<and>
    produced (abs t) \<le> n \<and> (left (abs t) \<longrightarrow> produced (abs t) = n)"
  using run_refines [OF assms(1), of ts] assms(2) stream_inv_start [of n]
  by (auto simp: stream_inv_def)

end

text \<open>
  A program that always finishes. At every moment one of the threads is the helpful one: each of
  its steps brings the program nearer to its end, by the work left or, if that stays, by the
  thread's own rank, while the other thread cannot undo this.
\<close>

primrec thread_step :: "('s \<Rightarrow> 's res) \<Rightarrow> ('s \<Rightarrow> 's res) \<Rightarrow> thread \<Rightarrow> 's \<Rightarrow> 's res" where
  "thread_step pstep cstep producer s = pstep s"
| "thread_step pstep cstep consumer s = cstep s"

lemma run_threads_Cons:
  "run_threads pstep cstep (th # ts) s = res_bind (thread_step pstep cstep th s) (run_threads pstep cstep ts)"
  by (cases th) simp_all

text \<open>Each thread is scheduled again and again.\<close>

definition fair :: "(nat \<Rightarrow> thread) \<Rightarrow> bool" where
  "fair f \<longleftrightarrow> (\<forall>k th. \<exists>j\<ge>k. f j = th)"

lemma fair_shift: "fair f \<Longrightarrow> fair (\<lambda>k. f (Suc k))"
  unfolding fair_def by (metis Suc_le_D Suc_le_mono)

definition alternating :: "nat \<Rightarrow> thread" where
  "alternating k = (if even k then producer else consumer)"

lemma fair_alternating: "fair alternating"
  unfolding fair_def
proof safe
  fix k th
  have "alternating (2 * k) = producer" "alternating (Suc (2 * k)) = consumer" by (simp_all add: alternating_def)
  then show "\<exists>j\<ge>k. alternating j = th" by (cases th) (metis le_SucI le_add1 mult_2)+
qed

lemma map_upt_shift: "map f [0..<Suc k] = f 0 # map (\<lambda>k. f (Suc k)) [0..<k]"
  by (simp add: upt_conv_Cons map_Suc_upt [symmetric] del: upt_Suc)

locale stream_fair = stream_refinement +
  fixes finished :: "'s \<Rightarrow> bool"
    and work :: "'s \<Rightarrow> nat"
    and helpful :: "'s \<Rightarrow> thread"
    and rank :: "'s \<Rightarrow> nat"
  assumes helped: "inv s \<Longrightarrow> \<not> finished s \<Longrightarrow> thread_step pstep cstep (helpful s) s = Inr t \<Longrightarrow>
      work t < work s \<or> work t = work s \<and> helpful t = helpful s \<and> rank t < rank s"
    and unhelped: "inv s \<Longrightarrow> \<not> finished s \<Longrightarrow> th \<noteq> helpful s \<Longrightarrow> thread_step pstep cstep th s = Inr t \<Longrightarrow>
      work t < work s \<or> work t = work s \<and> helpful t = helpful s \<and> rank t \<le> rank s"
begin

lemma step_inv: "inv s \<Longrightarrow> \<exists>t. thread_step pstep cstep th s = Inr t \<and> inv t"
  using pstep_law cstep_law by (cases th) force+

lemma fair_finishes_at:
  assumes "inv s" "fair f" "f j = helpful s"
  shows "\<exists>k t. run_threads pstep cstep (map f [0..<k]) s = Inr t \<and> finished t"
  using assms
proof (induction "(s, f, j)" arbitrary: s f j
    rule: wf_induct_rule [OF wf_measures [of "[\<lambda>(s, f, j). work s, \<lambda>(s, f, j). rank s, \<lambda>(s, f, j). j]"]])
  case (1 s f j)
  show ?case
  proof (cases "finished s")
    case True
    then have "run_threads pstep cstep (map f [0..<0]) s = Inr s \<and> finished s" by simp
    then show ?thesis by blast
  next
    case False
    obtain t where t: "thread_step pstep cstep (f 0) s = Inr t" "inv t" using step_inv [OF "1.prems"(1)] by blast
    let ?f = "\<lambda>k. f (Suc k)"
    have ff: "fair ?f" using "1.prems"(2) by (rule fair_shift)
    obtain i where i: "?f i = helpful t" "work t < work s \<or> work t = work s \<and> (rank t < rank s \<or> rank t = rank s \<and> i < j)"
    proof (cases "f 0 = helpful s")
      case True
      obtain i where "?f i = helpful t" using ff unfolding fair_def by blast
      then show thesis using that helped [OF "1.prems"(1) False] t(1) True by auto
    next
      case no: False
      note U = unhelped [OF "1.prems"(1) False no t(1)]
      show thesis
      proof (cases "work t < work s")
        case True
        obtain i where "?f i = helpful t" using ff unfolding fair_def by blast
        then show thesis using that True by blast
      next
        case False
        obtain i where "j = Suc i" using no "1.prems"(3) by (cases j) auto
        then show thesis using that [of i] U False "1.prems"(3) by (auto simp: le_less)
      qed
    qed
    have "((t, ?f, i), s, f, j) \<in> measures [\<lambda>(s, f, j). work s, \<lambda>(s, f, j). rank s, \<lambda>(s, f, j). j]"
      using i(2) by auto
    from "1.hyps" [OF this t(2) ff i(1)] obtain k u where
      "run_threads pstep cstep (map ?f [0..<k]) t = Inr u" "finished u" by blast
    then have "run_threads pstep cstep (map f [0..<Suc k]) s = Inr u \<and> finished u"
      using t(1) by (simp only: map_upt_shift run_threads_Cons) simp
    then show ?thesis by blast
  qed
qed

lemma fair_finishes:
  assumes "inv s" "fair f"
  shows "\<exists>k t. run_threads pstep cstep (map f [0..<k]) s = Inr t \<and> finished t"
proof -
  obtain j where "f j = helpful s" using assms(2) unfolding fair_def by blast
  with assms show ?thesis by (rule fair_finishes_at)
qed

end

end
