(* ===== verification/Fixed_Stream.thy ===== *)
theory Fixed_Stream
  imports Fixed_Ring Stream_Client
begin

text \<open>
  The fixed-ring half of \<open>examples/thread_channel.cpp\<close>: \<open>run_fixed_channel\<close> with its two threads,
  each call into the library one step (that single calls may be taken as units is the
  subject of \<open>Fixed_Concurrent\<close> and \<open>Fixed_Sequential\<close>). Whether \<open>backoff.wait\<close> returns is decided by the
  platform (\<open>wait_returns\<close>).
\<close>

section \<open>The program\<close>

definition kFrameSize :: u32 where "kFrameSize = 64"
definition kFrameCount :: u32 where "kFrameCount = 16"
definition kFixedMessages :: u64 where "kFixedMessages = 200000"

datatype producer_pc =
    pr_loop            \<comment> \<open>the loop condition and \<open>try_reserve\<close>\<close>
  | pr_full            \<comment> \<open>about to load \<open>read_wake_seq\<close>\<close>
  | pr_wait u32        \<comment> \<open>in \<open>backoff.wait\<close>\<close>
  | pr_fill nat        \<comment> \<open>about to fill the slot\<close>
  | pr_commit
  | pr_finish          \<comment> \<open>about to store \<open>producer_done\<close>\<close>
  | pr_exit

datatype consumer_pc =
    co_loop            \<comment> \<open>\<open>try_read\<close>\<close>
  | co_view nat        \<comment> \<open>about to examine the frame\<close>
  | co_advance
  | co_empty           \<comment> \<open>about to load \<open>producer_done\<close>\<close>
  | co_seq             \<comment> \<open>about to load \<open>commit_seq\<close>\<close>
  | co_wait u32        \<comment> \<open>in \<open>backoff.wait\<close>\<close>
  | co_exit

record fixed_client =
  fc_seg :: segment
  fc_writer :: fixed_writer
  fc_reader :: fixed_reader
  fc_i :: u64
  fc_ppc :: producer_pc
  fc_done :: bool
  fc_cpc :: consumer_pc
  fc_drained :: u64
  fc_mismatches :: u64

definition fixed_client_open :: "segment \<Rightarrow> u64 \<Rightarrow> u32 \<Rightarrow> fixed_client option res" where
  "fixed_client_open arena cap frame =
     res_bind (fixed_ring_open arena cap frame frame) (\<lambda>c.
       Inr (map_option (\<lambda>(w, r, s).
         \<lparr>fc_seg = s, fc_writer = w, fc_reader = r, fc_i = 0, fc_ppc = pr_loop, fc_done = False,
          fc_cpc = co_loop, fc_drained = 0, fc_mismatches = 0\<rparr>) c))"

definition run_fixed_channel :: "fixed_client option res" where
  "run_fixed_channel =
     (let kCapacity = kFrameSize * kFrameCount
      in fixed_client_open (fresh_segment (unat kCapacity)) (u64_of_u32 kCapacity) kFrameSize)"

definition fixed_producer_step :: "platform \<Rightarrow> u64 \<Rightarrow> fixed_client \<Rightarrow> fixed_client res" where
  "fixed_producer_step pf n s =
     (case fc_ppc s of
        pr_loop \<Rightarrow>
          if fc_i s < n then
            res_bind (fixed_try_reserve (fc_writer s) (fc_seg s)) (\<lambda>(slot, w, g).
              Inr (s\<lparr>fc_writer := w, fc_seg := g,
                     fc_ppc := (case slot of None \<Rightarrow> pr_full | Some p \<Rightarrow> pr_fill p)\<rparr>))
          else Inr (s\<lparr>fc_ppc := pr_finish\<rparr>)
      | pr_full \<Rightarrow> Inr (s\<lparr>fc_ppc := pr_wait (rwseq (fc_seg s))\<rparr>)
      | pr_wait wake \<Rightarrow>
          Inr (if wait_returns pf wake (rwseq (fc_seg s)) then s\<lparr>fc_ppc := pr_loop\<rparr> else s)
      | pr_fill p \<Rightarrow>
          res_bind (memcpy_in (fc_seg s) p (le_bytes 8 (unat (fc_i s))) 8) (\<lambda>g.
            Inr (s\<lparr>fc_seg := g, fc_ppc := pr_commit\<rparr>))
      | pr_commit \<Rightarrow>
          let (w, g) = fixed_commit (fc_writer s) (fc_seg s)
          in Inr (s\<lparr>fc_writer := w, fc_seg := g, fc_i := fc_i s + 1, fc_ppc := pr_loop\<rparr>)
      | pr_finish \<Rightarrow> Inr (s\<lparr>fc_done := True, fc_ppc := pr_exit\<rparr>)
      | pr_exit \<Rightarrow> Inr s)"

definition fixed_consumer_step :: "platform \<Rightarrow> fixed_client \<Rightarrow> fixed_client res" where
  "fixed_consumer_step pf s =
     (case fc_cpc s of
        co_loop \<Rightarrow>
          res_bind (fixed_try_read (fc_reader s) (fc_seg s)) (\<lambda>slot.
            Inr (s\<lparr>fc_cpc := (case slot of None \<Rightarrow> co_empty | Some (p, sz) \<Rightarrow> co_view p)\<rparr>))
      | co_view p \<Rightarrow>
          res_bind (load_bytes (fc_seg s) p 8) (\<lambda>b.
            let tag = word_of_nat (le_value b)
            in Inr (s\<lparr>fc_mismatches := fc_mismatches s + (if tag \<noteq> fc_drained s then 1 else 0),
                      fc_drained := fc_drained s + 1, fc_cpc := co_advance\<rparr>))
      | co_advance \<Rightarrow> Inr (s\<lparr>fc_seg := fixed_read_advance (fc_seg s) 1, fc_cpc := co_loop\<rparr>)
      | co_empty \<Rightarrow> Inr (s\<lparr>fc_cpc := (if fc_done s then co_exit else co_seq)\<rparr>)
      | co_seq \<Rightarrow> Inr (s\<lparr>fc_cpc := co_wait (cseq (fc_seg s))\<rparr>)
      | co_wait seq \<Rightarrow>
          Inr (if wait_returns pf seq (cseq (fc_seg s)) then s\<lparr>fc_cpc := co_loop\<rparr> else s)
      | co_exit \<Rightarrow> Inr s)"


section \<open>Abstraction and invariant\<close>

definition frame_tag :: "u8 list \<Rightarrow> nat" where
  "frame_tag f = le_value (take 8 f)"

text \<open>A frame whose number has been compared counts as taken although it is still in the ring.\<close>

definition fixed_client_queue :: "fixed_client \<Rightarrow> nat list" where
  "fixed_client_queue s =
     map frame_tag (if fc_cpc s = co_advance then tl (fixed_contents (fc_seg s))
                    else fixed_contents (fc_seg s))"

definition fixed_client_abs :: "fixed_client \<Rightarrow> stream" where
  "fixed_client_abs s =
     \<lparr>produced = unat (fc_i s), queue = fixed_client_queue s, taken = unat (fc_drained s),
      errors = unat (fc_mismatches s), closed = fc_done s, left = (fc_cpc s = co_exit)\<rparr>"

definition fixed_producer_inv :: "u64 \<Rightarrow> fixed_client \<Rightarrow> bool" where
  "fixed_producer_inv n s \<longleftrightarrow>
     fc_i s \<le> n \<and> (fc_done s \<longleftrightarrow> fc_ppc s = pr_exit) \<and>
     (case fc_ppc s of
        pr_fill p \<Rightarrow> pending (fc_writer s) \<and> fc_i s < n \<and>
          p = sizeof_control_block + unat (cpos (fc_seg s)) mod capacity_of (fc_seg s)
      | pr_commit \<Rightarrow> pending (fc_writer s) \<and> fc_i s < n \<and>
          mem_read (data_bytes (fc_seg s)) (unat (cpos (fc_seg s)) mod capacity_of (fc_seg s)) 8 =
            le_bytes 8 (unat (fc_i s))
      | pr_finish \<Rightarrow> \<not> pending (fc_writer s) \<and> fc_i s = n
      | pr_exit \<Rightarrow> \<not> pending (fc_writer s) \<and> fc_i s = n
      | _ \<Rightarrow> \<not> pending (fc_writer s))"

definition fixed_consumer_inv :: "fixed_client \<Rightarrow> bool" where
  "fixed_consumer_inv s \<longleftrightarrow>
     unat (fc_drained s) + length (fixed_client_queue s) = unat (fc_i s) \<and>
     unat (fc_mismatches s) \<le> unat (fc_drained s) \<and>
     (case fc_cpc s of
        co_view p \<Rightarrow> fixed_contents (fc_seg s) \<noteq> [] \<and>
          p = sizeof_control_block + unat (rpos (fc_seg s)) mod capacity_of (fc_seg s)
      | co_advance \<Rightarrow> fixed_contents (fc_seg s) \<noteq> []
      | co_exit \<Rightarrow> fc_done s
      | _ \<Rightarrow> True)"

definition fixed_client_inv :: "u64 \<Rightarrow> fixed_client \<Rightarrow> bool" where
  "fixed_client_inv n s \<longleftrightarrow>
     fixed_inv (unat n - unat (fc_i s) - (if pending (fc_writer s) then 1 else 0))
       (fc_writer s) (fc_seg s) \<and>
     data_ptr (fc_reader s) = sizeof_control_block \<and> 8 \<le> item_of (fc_seg s) \<and>
     fixed_producer_inv n s \<and> fixed_consumer_inv s"

lemmas fixed_client_defs = fixed_client_inv_def fixed_producer_inv_def fixed_consumer_inv_def
  fixed_client_abs_def fixed_client_queue_def

lemma fixed_client_invD:
  assumes "fixed_client_inv n s"
  shows "fixed_inv (unat n - unat (fc_i s) - (if pending (fc_writer s) then 1 else 0))
       (fc_writer s) (fc_seg s)" "data_ptr (fc_reader s) = sizeof_control_block"
    and "8 \<le> item_of (fc_seg s)" "fixed_producer_inv n s" "fixed_consumer_inv s"
  using assms by (auto simp: fixed_client_inv_def)

section \<open>The producer refines the abstract machine\<close>

lemma producer_loop:
  assumes inv: "fixed_client_inv n s" and pc: "fc_ppc s = pr_loop"
  shows "\<exists>t. fixed_producer_step pf n s = Inr t \<and> fixed_client_inv n t \<and>
    fixed_client_abs t = fixed_client_abs s"
proof (cases "fc_i s < n")
  case False
  then have "fc_i s = n" using inv pc by (auto simp: fixed_client_defs)
  then show ?thesis
    using inv pc by (auto simp: fixed_producer_step_def fixed_client_defs split: consumer_pc.splits)
next
  case True
  have idle: "\<not> pending (fc_writer s)" using inv pc by (auto simp: fixed_client_defs)
  obtain k where k: "unat n - unat (fc_i s) = Suc k"
    using True by (metis Suc_diff_Suc word_less_nat_alt)
  have F: "fixed_inv (Suc k) (fc_writer s) (fc_seg s)"
    using fixed_client_invD(1) [OF inv] idle k by simp
  show ?thesis
  proof (cases "unat (wpos (fc_seg s)) = unat (rpos (fc_seg s)) + capacity_of (fc_seg s)")
    case full: True
    then show ?thesis
      using inv pc True fixed_try_reserve_full [OF F full]
      by (auto simp: fixed_producer_step_def fixed_client_defs split: consumer_pc.splits)
  next
    case free: False
    let ?w = "reserved_writer (fc_writer s) (fc_seg s)" and ?g = "reserved_segment (fc_seg s)"
    let ?p = "sizeof_control_block + unat (cpos (fc_seg s)) mod capacity_of (fc_seg s)"
    have cw: "unat (cpos (fc_seg s)) = unat (wpos (fc_seg s))" using fixed_invD(7) [OF F] idle by simp
    have R: "fixed_try_reserve (fc_writer s) (fc_seg s) = Inr (Some ?p, ?w, ?g)"
      using fixed_try_reserve_free [OF F idle free] cw by simp
    have K: "fixed_inv k ?w ?g" by (rule reserve_keeps_inv [OF F idle free])
    have g: "cpos ?g = cpos (fc_seg s)" "rpos ?g = rpos (fc_seg s)" "pending ?w"
      "data_capacity (hdr ?g) = data_capacity (hdr (fc_seg s))"
      "fixed_item_size (hdr ?g) = fixed_item_size (hdr (fc_seg s))"
      by (simp_all add: reserved_segment_def reserved_writer_def)
    let ?t = "s\<lparr>fc_writer := ?w, fc_seg := ?g, fc_ppc := pr_fill ?p\<rparr>"
    have "fixed_producer_step pf n s = Inr ?t" using pc True R by (simp add: fixed_producer_step_def)
    moreover have "fixed_client_inv n ?t"
      using inv pc True K g k by (auto simp: fixed_client_defs split: consumer_pc.splits)
    moreover have "fixed_client_abs ?t = fixed_client_abs s" by (simp add: fixed_client_defs)
    ultimately show ?thesis by blast
  qed
qed

lemma producer_fill:
  assumes inv: "fixed_client_inv n s" and pc: "fc_ppc s = pr_fill p"
  shows "\<exists>t. fixed_producer_step pf n s = Inr t \<and> fixed_client_inv n t \<and>
    fixed_client_abs t = fixed_client_abs s"
proof -
  let ?i = "unat (cpos (fc_seg s)) mod capacity_of (fc_seg s)" and ?b = "le_bytes 8 (unat (fc_i s))"
  let ?g = "fill_slot (fc_seg s) ?b"
  note D = fixed_client_invD [OF inv]
  have P: "pending (fc_writer s)" "fc_i s < n" "p = sizeof_control_block + ?i"
    using D(4) pc by (auto simp: fixed_producer_inv_def)
  have reg: "?i + item_of (fc_seg s) \<le> length (data_bytes (fc_seg s))"
    using slot_in_region [OF fixed_invD(1,4) [OF D(1)]] .
  have M: "memcpy_in (fc_seg s) p ?b 8 = Inr ?g"
    using reg D(3) P(3) by (simp add: memcpy_in_data fill_slot_def)
  have K: "fixed_inv (unat n - unat (fc_i s) - 1) (fc_writer s) ?g"
    "fixed_contents ?g = fixed_contents (fc_seg s)"
    using fill_slot_keeps [OF D(1) P(1), of ?b] D(3) P(1) by simp_all
  have R: "mem_read (data_bytes ?g) ?i 8 = ?b"
    using mem_read_write_same [of ?i ?b "data_bytes (fc_seg s)"] reg D(3) by (simp add: fill_slot_def)
  let ?t = "s\<lparr>fc_seg := ?g, fc_ppc := pr_commit\<rparr>"
  have "fixed_producer_step pf n s = Inr ?t" using pc M by (simp add: fixed_producer_step_def)
  moreover have "fixed_client_inv n ?t"
    using inv pc P K R by (auto simp: fixed_client_defs split: consumer_pc.splits)
  moreover have "fixed_client_abs ?t = fixed_client_abs s" using K(2) by (simp add: fixed_client_defs)
  ultimately show ?thesis by blast
qed

lemma producer_commit:
  assumes inv: "fixed_client_inv n s" and pc: "fc_ppc s = pr_commit"
  shows "\<exists>t. fixed_producer_step pf n s = Inr t \<and> fixed_client_inv n t \<and>
    stream_step (unat n) (fixed_client_abs s) (fixed_client_abs t)"
proof -
  let ?i = "unat (cpos (fc_seg s)) mod capacity_of (fc_seg s)"
  let ?w = "(fc_writer s)\<lparr>pending := False\<rparr>" and ?g = "published_segment (fc_writer s) (fc_seg s)"
  let ?f = "mem_read (data_bytes (fc_seg s)) ?i (item_of (fc_seg s))"
  note D = fixed_client_invD [OF inv]
  have P: "pending (fc_writer s)" "fc_i s < n"
    and r: "mem_read (data_bytes (fc_seg s)) ?i 8 = le_bytes 8 (unat (fc_i s))"
    using D(4) pc by (auto simp: fixed_producer_inv_def)
  have "take 8 ?f = le_bytes 8 (unat (fc_i s))" using r D(3) by (simp add: min_def)
  then have tag: "frame_tag ?f = unat (fc_i s)" by (simp add: frame_tag_def)
  note K = publish_keeps_inv [OF D(1) P(1)] publish_contents [OF D(1) P(1)]
  let ?t = "s\<lparr>fc_writer := ?w, fc_seg := ?g, fc_i := fc_i s + 1, fc_ppc := pr_loop\<rparr>"
  have st: "fixed_producer_step pf n s = Inr ?t"
    using pc by (simp add: fixed_producer_step_def fixed_commit_eq [OF P(1)])
  have i: "unat (fc_i s + 1) = Suc (unat (fc_i s))" "unat (fc_i s) < unat n"
    using unat_suc_u64 [OF P(2)] P(2) by (simp_all add: word_less_nat_alt)
  have q: "fixed_client_queue ?t = fixed_client_queue s @ [unat (fc_i s)]"
    using K(2) tag D(5) by (auto simp: fixed_client_queue_def fixed_consumer_inv_def)
  have "fixed_inv (unat n - unat (fc_i s + 1)) ?w ?g" using K(1) i P(1) by simp
  moreover have "fixed_consumer_inv ?t"
    using D(5) q i K(2) unfolding fixed_consumer_inv_def
    by (auto split: consumer_pc.splits)
  moreover have "fixed_producer_inv n ?t"
    using D(4) pc i by (auto simp: fixed_producer_inv_def word_le_nat_alt)
  ultimately have "fixed_client_inv n ?t" using D(2,3) by (simp add: fixed_client_inv_def)
  moreover have "stream_step (unat n) (fixed_client_abs s) (fixed_client_abs ?t)"
    by (rule stream_putI) (use q i in \<open>simp_all add: fixed_client_abs_def\<close>)
  ultimately show ?thesis using st by blast
qed

lemma fixed_pstep_law:
  assumes inv: "fixed_client_inv n s"
  shows "\<exists>t. fixed_producer_step pf n s = Inr t \<and> fixed_client_inv n t \<and>
    stream_step (unat n) (fixed_client_abs s) (fixed_client_abs t)"
proof -
  have int: "\<exists>t. fixed_producer_step pf n s = Inr t \<and> fixed_client_inv n t \<and>
      stream_step (unat n) (fixed_client_abs s) (fixed_client_abs t)"
    if "\<exists>t. fixed_producer_step pf n s = Inr t \<and> fixed_client_inv n t \<and>
      fixed_client_abs t = fixed_client_abs s"
    using that by (metis stream_step.internal)
  show ?thesis
  proof (cases "fc_ppc s")
    case pr_loop
    show ?thesis by (rule int [OF producer_loop [OF inv pr_loop]])
  next
    case pr_full
    then show ?thesis
      using inv by (intro int)
        (auto simp: fixed_producer_step_def fixed_client_defs split: consumer_pc.splits)
  next
    case (pr_wait wake)
    then show ?thesis
      using inv by (intro int)
        (auto simp: fixed_producer_step_def fixed_client_defs split: consumer_pc.splits)
  next
    case (pr_fill p)
    show ?thesis by (rule int [OF producer_fill [OF inv pr_fill]])
  next
    case pr_commit
    show ?thesis by (rule producer_commit [OF inv pr_commit])
  next
    case pr_finish
    let ?t = "s\<lparr>fc_done := True, fc_ppc := pr_exit\<rparr>"
    have "stream_step (unat n) (fixed_client_abs s) (fixed_client_abs ?t)"
      by (rule stream_closeI) (use inv pr_finish in \<open>auto simp: fixed_client_defs\<close>)
    then show ?thesis
      using inv pr_finish
      by (auto simp: fixed_producer_step_def fixed_client_defs split: consumer_pc.splits)
  next
    case pr_exit
    then show ?thesis using inv by (intro int) (auto simp: fixed_producer_step_def)
  qed
qed



section \<open>The consumer refines the abstract machine\<close>

lemma consumer_loop:
  assumes inv: "fixed_client_inv n s" and pc: "fc_cpc s = co_loop"
  shows "\<exists>t. fixed_consumer_step pf s = Inr t \<and> fixed_client_inv n t \<and>
    fixed_client_abs t = fixed_client_abs s"
proof -
  note D = fixed_client_invD [OF inv]
  show ?thesis
  proof (cases "fixed_contents (fc_seg s) = []")
    case True
    then show ?thesis
      using inv pc fixed_try_read_empty [OF D(1) True]
      by (auto simp: fixed_consumer_step_def fixed_client_defs split: producer_pc.splits)
  next
    case False
    then show ?thesis
      using inv pc fixed_try_read_ready [OF D(1) False D(2)]
      by (auto simp: fixed_consumer_step_def fixed_client_defs split: producer_pc.splits)
  qed
qed

lemma le_value_less: "le_value bs < 256 ^ length bs"
proof (induction bs)
  case (Cons b bs)
  have "unat b < 256" using unsigned_less [of b] by simp
  with Cons show ?case by simp
qed simp

lemma frame_tag_u64: "unat (word_of_nat (frame_tag f) :: u64) = frame_tag f"
proof -
  have "frame_tag f < 256 ^ length (take 8 f)" unfolding frame_tag_def by (rule le_value_less)
  also have "\<dots> \<le> 256 ^ 8" by (intro power_increasing) auto
  finally show ?thesis by (simp add: unat_of_nat)
qed

lemma consumer_view:
  assumes inv: "fixed_client_inv n s" and pc: "fc_cpc s = co_view p"
  shows "\<exists>t. fixed_consumer_step pf s = Inr t \<and> fixed_client_inv n t \<and>
    stream_step (unat n) (fixed_client_abs s) (fixed_client_abs t)"
proof -
  let ?i = "unat (rpos (fc_seg s)) mod capacity_of (fc_seg s)"
  let ?f = "hd (fixed_contents (fc_seg s))"
  note D = fixed_client_invD [OF inv]
  have C: "fixed_contents (fc_seg s) \<noteq> []" "p = sizeof_control_block + ?i"
    using D(5) pc by (auto simp: fixed_consumer_inv_def)
  have reg: "?i + item_of (fc_seg s) \<le> length (data_bytes (fc_seg s))"
    using slot_in_region [OF fixed_invD(1,3) [OF D(1)]] .
  have "mem_read (data_bytes (fc_seg s)) ?i 8 = take 8 ?f"
    using D(3) by (simp add: fixed_contents_hd [OF D(1) C(1)] min_def)
  then have L: "load_bytes (fc_seg s) p 8 = Inr (take 8 ?f)"
    using C(2) reg D(3) by (simp add: checked_read_def)
  let ?tag = "word_of_nat (frame_tag ?f) :: u64"
  let ?t = "s\<lparr>fc_mismatches := fc_mismatches s + (if ?tag \<noteq> fc_drained s then 1 else 0),
    fc_drained := fc_drained s + 1, fc_cpc := co_advance\<rparr>"
  have st: "fixed_consumer_step pf s = Inr ?t"
    using pc L by (simp add: fixed_consumer_step_def frame_tag_def Let_def)
  have tag: "?tag = fc_drained s \<longleftrightarrow> frame_tag ?f = unat (fc_drained s)"
    by (simp add: word_unat_eq_iff frame_tag_u64)
  have q: "fixed_client_queue s = frame_tag ?f # fixed_client_queue ?t"
    using C(1) pc by (cases "fixed_contents (fc_seg s)") (simp_all add: fixed_client_queue_def)
  have dl: "fc_drained s < fc_i s"
    using D(5) q by (simp add: fixed_consumer_inv_def word_less_nat_alt)
  have ml: "fc_mismatches s < fc_i s"
    using D(5) dl by (simp add: fixed_consumer_inv_def word_less_nat_alt)
  note u = unat_suc_u64 [OF dl] unat_suc_u64 [OF ml]
  have "fixed_consumer_inv ?t"
    using D(5) q u C(1) pc by (auto simp: fixed_consumer_inv_def)
  moreover have "fixed_producer_inv n ?t" using D(4) by (simp add: fixed_producer_inv_def split: producer_pc.splits)
  ultimately have "fixed_client_inv n ?t" using D(1-3) by (simp add: fixed_client_inv_def)
  moreover have "stream_step (unat n) (fixed_client_abs s) (fixed_client_abs ?t)"
    by (rule stream_getI [of _ "frame_tag ?f" "fixed_client_queue ?t"])
      (use q u tag pc in \<open>auto simp: fixed_client_abs_def\<close>)
  ultimately show ?thesis using st by blast
qed

lemma consumer_advance:
  assumes inv: "fixed_client_inv n s" and pc: "fc_cpc s = co_advance"
  shows "\<exists>t. fixed_consumer_step pf s = Inr t \<and> fixed_client_inv n t \<and>
    fixed_client_abs t = fixed_client_abs s"
proof -
  let ?g = "fixed_read_advance (fc_seg s) 1"
  let ?t = "s\<lparr>fc_seg := ?g, fc_cpc := co_loop\<rparr>"
  note D = fixed_client_invD [OF inv]
  have ne: "fixed_contents (fc_seg s) \<noteq> []" using D(5) pc by (simp add: fixed_consumer_inv_def)
  note K = advance_one_keeps [OF D(1) ne]
  have g: "cpos ?g = cpos (fc_seg s)" "data_bytes ?g = data_bytes (fc_seg s)"
    "data_capacity (hdr ?g) = data_capacity (hdr (fc_seg s))"
    "fixed_item_size (hdr ?g) = fixed_item_size (hdr (fc_seg s))"
    by (simp_all add: fixed_read_advance_def)
  have q: "fixed_client_queue ?t = fixed_client_queue s"
    using K(2) pc by (simp add: fixed_client_queue_def)
  have "fixed_producer_inv n ?t"
    using D(4) g by (simp add: fixed_producer_inv_def split: producer_pc.splits)
  moreover have "fixed_consumer_inv ?t" using D(5) q pc by (simp add: fixed_consumer_inv_def)
  ultimately have "fixed_client_inv n ?t" using D(1-3) K(1) g by (simp add: fixed_client_inv_def)
  moreover have "fixed_client_abs ?t = fixed_client_abs s"
    using q pc by (simp add: fixed_client_abs_def)
  moreover have "fixed_consumer_step pf s = Inr ?t" using pc by (simp add: fixed_consumer_step_def)
  ultimately show ?thesis by blast
qed

lemma fixed_cstep_law:
  assumes inv: "fixed_client_inv n s"
  shows "\<exists>t. fixed_consumer_step pf s = Inr t \<and> fixed_client_inv n t \<and>
    stream_step (unat n) (fixed_client_abs s) (fixed_client_abs t)"
proof -
  have int: "\<exists>t. fixed_consumer_step pf s = Inr t \<and> fixed_client_inv n t \<and>
      stream_step (unat n) (fixed_client_abs s) (fixed_client_abs t)"
    if "\<exists>t. fixed_consumer_step pf s = Inr t \<and> fixed_client_inv n t \<and>
      fixed_client_abs t = fixed_client_abs s"
    using that by (metis stream_step.internal)
  show ?thesis
  proof (cases "fc_cpc s")
    case co_loop
    show ?thesis by (rule int [OF consumer_loop [OF inv co_loop]])
  next
    case (co_view p)
    show ?thesis by (rule consumer_view [OF inv co_view])
  next
    case co_advance
    show ?thesis by (rule int [OF consumer_advance [OF inv co_advance]])
  next
    case co_empty
    show ?thesis
    proof (cases "fc_done s")
      case True
      let ?t = "s\<lparr>fc_cpc := co_exit\<rparr>"
      have "stream_step (unat n) (fixed_client_abs s) (fixed_client_abs ?t)"
        by (rule stream_leaveI) (use co_empty True in \<open>auto simp: fixed_client_defs\<close>)
      then show ?thesis
        using inv True co_empty
        by (auto simp: fixed_consumer_step_def fixed_client_defs split: producer_pc.splits)
    next
      case False
      then show ?thesis
        using inv co_empty by (intro int)
          (auto simp: fixed_consumer_step_def fixed_client_defs split: producer_pc.splits)
    qed
  next
    case co_seq
    then show ?thesis
      using inv by (intro int)
        (auto simp: fixed_consumer_step_def fixed_client_defs split: producer_pc.splits)
  next
    case (co_wait seq)
    then show ?thesis
      using inv by (intro int)
        (auto simp: fixed_consumer_step_def fixed_client_defs split: producer_pc.splits)
  next
    case co_exit
    then show ?thesis using inv by (intro int) (auto simp: fixed_consumer_step_def)
  qed
qed



interpretation fixed_stream: stream_refinement
  "unat n" "fixed_client_inv n" fixed_client_abs "fixed_producer_step pf n" "fixed_consumer_step pf"
  for n :: u64 and pf :: platform
  by unfold_locales (rule fixed_pstep_law fixed_cstep_law, assumption)+


section \<open>Both threads finish\<close>

definition fixed_client_finished :: "fixed_client \<Rightarrow> bool" where
  "fixed_client_finished s \<longleftrightarrow> fc_ppc s = pr_exit \<and> fc_cpc s = co_exit"

text \<open>The work left: messages to be sent and to be taken, the flag, the consumer's return.\<close>

definition fixed_client_work :: "u64 \<Rightarrow> fixed_client \<Rightarrow> nat" where
  "fixed_client_work n s =
     4 * (unat n - unat (fc_i s)) + 2 * (unat n - unat (fc_drained s)) +
     (if fc_cpc s = co_advance then 1 else 0) + (if fc_done s then 0 else 1) +
     (if fc_cpc s = co_exit then 0 else 1)"

text \<open>
  The consumer helps while there is a frame to take and when the producer has returned; otherwise
  the ring is empty and the producer helps.
\<close>

definition frames_left :: "fixed_client \<Rightarrow> bool" where
  "frames_left s \<longleftrightarrow> fc_drained s < fc_i s \<or> fc_cpc s = co_advance"

definition fixed_helpful :: "fixed_client \<Rightarrow> thread" where
  "fixed_helpful s = (if frames_left s \<or> fc_ppc s = pr_exit then consumer else producer)"

primrec producer_left :: "producer_pc \<Rightarrow> nat" where
  "producer_left pr_full = 5" | "producer_left (pr_wait x) = 4" | "producer_left pr_loop = 3"
| "producer_left (pr_fill p) = 2" | "producer_left pr_commit = 1" | "producer_left pr_finish = 0"
| "producer_left pr_exit = 0"

primrec consumer_left :: "bool \<Rightarrow> consumer_pc \<Rightarrow> nat" where
  "consumer_left some co_empty = (if some then 4 else 0)"
| "consumer_left some co_seq = 3"
| "consumer_left some (co_wait x) = 2"
| "consumer_left some co_loop = 1"
| "consumer_left some (co_view p) = 0"
| "consumer_left some co_advance = 0"
| "consumer_left some co_exit = 0"

definition fixed_client_rank :: "fixed_client \<Rightarrow> nat" where
  "fixed_client_rank s =
     (case fixed_helpful s of
        producer \<Rightarrow> producer_left (fc_ppc s)
      | consumer \<Rightarrow> consumer_left (frames_left s) (fc_cpc s))"

lemma fixed_client_counts:
  assumes "fixed_client_inv n s"
  shows "frames_left s \<longleftrightarrow> fixed_contents (fc_seg s) \<noteq> []"
    and "unat (fc_i s) \<le> unat n" "unat (fc_drained s) \<le> unat (fc_i s)"
proof -
  have q: "unat (fc_drained s) + length (fixed_client_queue s) = unat (fc_i s)" "fc_i s \<le> n"
    using fixed_client_invD(4,5) [OF assms] by (simp_all add: fixed_consumer_inv_def fixed_producer_inv_def)
  then show "unat (fc_i s) \<le> unat n" "unat (fc_drained s) \<le> unat (fc_i s)" by (simp_all add: word_le_nat_alt)
  have "fc_drained s < fc_i s \<longleftrightarrow> fixed_client_queue s \<noteq> []" using q(1) by (cases "fixed_client_queue s") (simp_all add: word_less_nat_alt)
  then show "frames_left s \<longleftrightarrow> fixed_contents (fc_seg s) \<noteq> []"
    using fixed_client_invD(5) [OF assms]
    by (auto simp: frames_left_def fixed_client_queue_def fixed_consumer_inv_def)
qed

text \<open>A step of the producer: it sends or closes, or nothing the consumer counts changes.\<close>

lemma fixed_producer_moves:
  assumes pf: "honours_timeout pf" and inv: "fixed_client_inv n s" and t: "fixed_producer_step pf n s = Inr t"
  shows "fixed_client_work n t < fixed_client_work n s \<or>
    fc_i t = fc_i s \<and> fc_drained t = fc_drained s \<and> fc_cpc t = fc_cpc s \<and> fc_done t = fc_done s \<and>
    (fc_ppc t = pr_exit \<longleftrightarrow> fc_ppc s = pr_exit) \<and>
    (fc_ppc s \<noteq> pr_exit \<and> \<not> frames_left s \<longrightarrow> producer_left (fc_ppc t) < producer_left (fc_ppc s))"
proof -
  note D = fixed_client_invD [OF inv] and C = fixed_client_counts [OF inv]
  show ?thesis
  proof (cases "fc_ppc s")
    case pr_loop
    have idle: "\<not> pending (fc_writer s)" using D(4) pr_loop by (simp add: fixed_producer_inv_def)
    have "unat (wpos (fc_seg s)) \<noteq> unat (rpos (fc_seg s)) + capacity_of (fc_seg s)" if "\<not> frames_left s"
    proof -
      have "unat (cpos (fc_seg s)) = unat (rpos (fc_seg s))"
        using that C(1) fixed_contents_empty_iff [OF D(1)] by simp
      then show ?thesis using fixed_invD(7) [OF D(1)] idle fixed_geometryD(2) [OF fixed_invD(1) [OF D(1)]] by simp
    qed
    then have free: "\<not> frames_left s \<Longrightarrow> \<exists>p w g. fixed_try_reserve (fc_writer s) (fc_seg s) = Inr (Some p, w, g)"
      using fixed_try_reserve_free [OF D(1) idle] by blast
    show ?thesis
    proof (cases "fc_i s < n")
      case True
      then obtain slot w g where r: "fixed_try_reserve (fc_writer s) (fc_seg s) = Inr (slot, w, g)"
        "t = s\<lparr>fc_writer := w, fc_seg := g, fc_ppc := (case slot of None \<Rightarrow> pr_full | Some p \<Rightarrow> pr_fill p)\<rparr>"
        using t pr_loop by (auto simp: fixed_producer_step_def res_bind_eq_Inr)
      then show ?thesis using free pr_loop by (auto split: option.splits)
    qed (use t pr_loop in \<open>auto simp: fixed_producer_step_def\<close>)
  next
    case pr_commit
    then have P: "pending (fc_writer s)" "fc_i s < n" using D(4) by (auto simp: fixed_producer_inv_def)
    have "unat (fc_i s + 1) = Suc (unat (fc_i s))" "unat (fc_i s) < unat n"
      using unat_suc_u64 [OF P(2)] P(2) by (simp_all add: word_less_nat_alt)
    then show ?thesis
      using t pr_commit by (auto simp: fixed_producer_step_def fixed_client_work_def fixed_commit_eq [OF P(1)])
  next
    case pr_finish
    then have "\<not> fc_done s" using D(4) by (simp add: fixed_producer_inv_def)
    then show ?thesis using t pr_finish by (auto simp: fixed_producer_step_def fixed_client_work_def)
  qed (use t pf in \<open>auto simp: fixed_producer_step_def wait_returns_def res_bind_eq_Inr\<close>)
qed

text \<open>A step of the consumer: it takes, releases or returns, or only its own place changes.\<close>

lemma fixed_consumer_moves:
  assumes pf: "honours_timeout pf" and inv: "fixed_client_inv n s" and t: "fixed_consumer_step pf s = Inr t"
  shows "fixed_client_work n t < fixed_client_work n s \<or>
    fc_i t = fc_i s \<and> fc_drained t = fc_drained s \<and> fc_ppc t = fc_ppc s \<and> fc_done t = fc_done s \<and>
    fc_cpc s \<noteq> co_advance \<and> fc_cpc t \<noteq> co_advance \<and> (fc_cpc t = co_exit \<longleftrightarrow> fc_cpc s = co_exit) \<and>
    ((frames_left s \<or> fc_done s) \<and> fc_cpc s \<noteq> co_exit \<longrightarrow>
      consumer_left (frames_left s) (fc_cpc t) < consumer_left (frames_left s) (fc_cpc s))"
proof -
  note D = fixed_client_invD [OF inv] and C = fixed_client_counts [OF inv]
  show ?thesis
  proof (cases "fc_cpc s")
    case co_loop
    show ?thesis
    proof (cases "fixed_contents (fc_seg s) = []")
      case True
      then show ?thesis
        using t co_loop C(1) fixed_try_read_empty [OF D(1) True] by (auto simp: fixed_consumer_step_def)
    next
      case False
      then show ?thesis
        using t co_loop C(1) fixed_try_read_ready [OF D(1) False D(2)] by (auto simp: fixed_consumer_step_def)
    qed
  next
    case (co_view p)
    then have "fixed_contents (fc_seg s) \<noteq> []" using D(5) by (simp add: fixed_consumer_inv_def)
    then have dl: "fc_drained s < fc_i s" using C(1) co_view by (simp add: frames_left_def)
    then have "unat (fc_drained s) < unat n" using C(2) by (simp add: word_less_nat_alt)
    then show ?thesis
      using t co_view unat_suc_u64 [OF dl]
      by (auto simp: fixed_consumer_step_def fixed_client_work_def Let_def res_bind_eq_Inr)
  qed (use t pf in \<open>auto simp: fixed_consumer_step_def wait_returns_def fixed_client_work_def split: if_splits\<close>)
qed

lemma fixed_fair_law:
  assumes pf: "honours_timeout pf" and inv: "fixed_client_inv n s" and go: "\<not> fixed_client_finished s"
    and t: "thread_step (fixed_producer_step pf n) (fixed_consumer_step pf) th s = Inr t"
  shows "fixed_client_work n t < fixed_client_work n s \<or>
    fixed_client_work n t = fixed_client_work n s \<and> fixed_helpful t = fixed_helpful s \<and>
    (if th = fixed_helpful s then fixed_client_rank t < fixed_client_rank s
     else fixed_client_rank t \<le> fixed_client_rank s)"
proof (cases th)
  case producer
  then have st: "fixed_producer_step pf n s = Inr t" using t by simp
  from fixed_producer_moves [OF pf inv st] show ?thesis
  proof (elim disjE, goal_cases)
    case 2
    then have "frames_left t = frames_left s" "fixed_helpful t = fixed_helpful s" "fixed_client_work n t = fixed_client_work n s"
      by (simp_all add: frames_left_def fixed_helpful_def fixed_client_work_def)
    with 2 producer show ?case by (auto simp: fixed_client_rank_def fixed_helpful_def)
  qed simp_all
next
  case consumer
  have e: "fc_done s \<longleftrightarrow> fc_ppc s = pr_exit" "fc_cpc s = co_exit \<Longrightarrow> fc_done s"
    using fixed_client_invD(4,5) [OF inv] by (simp_all add: fixed_producer_inv_def fixed_consumer_inv_def)
  from consumer have st: "fixed_consumer_step pf s = Inr t" using t by simp
  from fixed_consumer_moves [OF pf inv st] show ?thesis
  proof (elim disjE, goal_cases)
    case 2
    then have "frames_left t = frames_left s" "fixed_client_work n t = fixed_client_work n s"
      by (simp_all add: frames_left_def fixed_client_work_def)
    moreover from 2 this(1) have "fixed_helpful t = fixed_helpful s" by (simp add: fixed_helpful_def)
    moreover have "fc_cpc s \<noteq> co_exit" using e go by (auto simp: fixed_client_finished_def)
    ultimately show ?case using 2 e(1) consumer by (auto simp: fixed_client_rank_def fixed_helpful_def)
  qed simp_all
qed

interpretation fixed_progress: stream_fair
  "unat n" "\<lambda>s. honours_timeout pf \<and> fixed_client_inv n s" fixed_client_abs
  "fixed_producer_step pf n" "fixed_consumer_step pf"
  fixed_client_finished "fixed_client_work n" fixed_helpful fixed_client_rank for n :: u64 and pf :: platform
proof unfold_locales
  fix s t :: fixed_client and th :: thread
  assume inv: "honours_timeout pf \<and> fixed_client_inv n s"
  show "\<exists>t. fixed_producer_step pf n s = Inr t \<and> (honours_timeout pf \<and> fixed_client_inv n t) \<and>
      stream_step (unat n) (fixed_client_abs s) (fixed_client_abs t)" using fixed_stream.pstep_law inv by blast
  show "\<exists>t. fixed_consumer_step pf s = Inr t \<and> (honours_timeout pf \<and> fixed_client_inv n t) \<and>
      stream_step (unat n) (fixed_client_abs s) (fixed_client_abs t)" using fixed_stream.cstep_law inv by blast
  assume go: "\<not> fixed_client_finished s"
  note law = fixed_fair_law [OF conjunct1 [OF inv] conjunct2 [OF inv] go]
  show "fixed_client_work n t < fixed_client_work n s \<or> fixed_client_work n t = fixed_client_work n s \<and>
      fixed_helpful t = fixed_helpful s \<and> fixed_client_rank t < fixed_client_rank s"
    if "thread_step (fixed_producer_step pf n) (fixed_consumer_step pf) (fixed_helpful s) s = Inr t"
    using law [OF that] by simp
  show "fixed_client_work n t < fixed_client_work n s \<or> fixed_client_work n t = fixed_client_work n s \<and>
      fixed_helpful t = fixed_helpful s \<and> fixed_client_rank t \<le> fixed_client_rank s"
    if "th \<noteq> fixed_helpful s" "thread_step (fixed_producer_step pf n) (fixed_consumer_step pf) th s = Inr t"
    using law [OF that(2)] that(1) by simp
qed


section \<open>Properties\<close>

lemma fixed_client_open_start:
  assumes "fixed_client_open arena cap frame = Inr (Some s)" "8 \<le> frame"
    and "unat cap \<le> length (data_bytes arena)" "unat n * unat frame < 2 ^ 64"
  shows "fixed_client_inv n s" "fixed_client_abs s = new_stream"
proof -
  obtain w r g where o: "fixed_ring_open arena cap frame frame = Inr (Some (w, r, g))"
    and s: "s = \<lparr>fc_seg = g, fc_writer = w, fc_reader = r, fc_i = 0, fc_ppc = pr_loop,
      fc_done = False, fc_cpc = co_loop, fc_drained = 0, fc_mismatches = 0\<rparr>"
    using assms(1) by (auto simp: fixed_client_open_def)
  have f: "frame \<noteq> 0" "8 \<le> unat frame" using assms(2) by (auto simp: word_le_nat_alt)
  have I: "fixed_inv (unat n) w g" "fixed_contents g = []" "\<not> pending w" "item_of g = unat frame"
    "data_ptr r = sizeof_control_block"
    using fixed_ring_open_inv [OF o f(1) assms(3,4)]
    by (auto simp: fixed_chan_inv_def fixed_chan_contents_def)
  show "fixed_client_inv n s" "fixed_client_abs s = new_stream"
    using I f by (auto simp: s fixed_client_defs new_stream_def)
qed

text \<open>
  C15: The threaded fixed-ring example: for any message count, capacity and frame size the library
  accepts, any platform and any schedule of the two threads, no call meets undefined behaviour, no frame
  number is ever found out of order, and every frame sent so far has either been drained or
  is still in the ring, in order. When the consumer has returned, all messages had been sent.
\<close>

theorem fixed_stream_in_order:
  assumes "fixed_client_open arena cap frame = Inr (Some s)" "8 \<le> frame"
    and "unat cap \<le> length (data_bytes arena)" "unat n * unat frame < 2 ^ 64"
  shows "\<exists>t. run_threads (fixed_producer_step pf n) (fixed_consumer_step pf) ts s = Inr t \<and>
    fc_mismatches t = 0 \<and> fixed_client_queue t = [unat (fc_drained t)..<unat (fc_i t)] \<and>
    fc_drained t \<le> fc_i t \<and> fc_i t \<le> n \<and> (fc_cpc t = co_exit \<longrightarrow> fc_i t = n)"
  using fixed_stream.run_in_order [OF fixed_client_open_start [OF assms], of pf ts]
  by (auto simp: fixed_client_abs_def word_le_nat_alt word_unat_eq_iff)

lemma fixed_example_client:
  obtains s where "run_fixed_channel = Inr (Some s)"
    and "fixed_client_open (fresh_segment 1024) 1024 64 = Inr (Some s)"
proof -
  have "is_valid_data_alignment 64" "(1024 :: u64) mod u64_of_u32 64 = 0"
    by (simp_all add: is_valid_data_alignment_def u64_of_u32_def)
  then obtain s where s: "fixed_client_open (fresh_segment 1024) 1024 64 = Inr (Some s)"
    by (simp add: fixed_client_open_def fixed_ring_open_cases)
  moreover have "run_fixed_channel = fixed_client_open (fresh_segment 1024) 1024 64"
    by (simp add: run_fixed_channel_def kFrameSize_def kFrameCount_def u64_of_u32_def Let_def)
  ultimately show thesis using that by simp
qed

theorem fixed_stream_in_order_witness:
  "\<exists>s t. run_fixed_channel = Inr (Some s) \<and>
    run_threads (fixed_producer_step linux kFixedMessages) (fixed_consumer_step linux)
      [producer, consumer, producer, producer, consumer] s = Inr t \<and> fc_mismatches t = 0"
proof -
  obtain s where s: "run_fixed_channel = Inr (Some s)"
    "fixed_client_open (fresh_segment 1024) 1024 64 = Inr (Some s)" by (rule fixed_example_client)
  from fixed_stream_in_order [OF s(2), of kFixedMessages linux "[producer, consumer, producer, producer, consumer]"]
  show ?thesis using s(1) by (auto simp: fresh_segment_def kFixedMessages_def)
qed

text \<open>
  C17: On a platform whose timed wait honours its time-out (Linux, Win32 with \<open>WaitOnAddress\<close>, Darwin), the
  threaded fixed-ring example finishes: under every schedule that runs each thread
  again and again, both threads return after finitely many steps, with everything sent. No
  combination of a full or empty ring with the two waits keeps them going round for ever.
\<close>

theorem fixed_stream_finishes:
  assumes "fixed_client_open arena cap frame = Inr (Some s)" "8 \<le> frame"
    and "unat cap \<le> length (data_bytes arena)" "unat n * unat frame < 2 ^ 64"
    and "honours_timeout pf" "fair f"
  shows "\<exists>k t. run_threads (fixed_producer_step pf n) (fixed_consumer_step pf) (map f [0..<k]) s = Inr t \<and>
    fc_ppc t = pr_exit \<and> fc_cpc t = co_exit \<and> fc_i t = n"
proof -
  note S = fixed_client_open_start [OF assms(1-4)]
  obtain k t where t: "run_threads (fixed_producer_step pf n) (fixed_consumer_step pf) (map f [0..<k]) s = Inr t"
    "fixed_client_finished t" using fixed_progress.fair_finishes [OF conjI [OF assms(5) S(1)] assms(6)] by blast
  have "fixed_client_inv n t"
    using fixed_stream.run_refines [OF S(1), of pf "map f [0..<k]"] S(2) t(1) by (auto simp: stream_inv_start)
  then have "fc_i t = n"
    using t(2) by (auto simp: fixed_client_finished_def fixed_client_inv_def fixed_producer_inv_def)
  with t show ?thesis by (auto simp: fixed_client_finished_def)
qed

theorem fixed_stream_finishes_witness:
  "\<exists>s k t. run_fixed_channel = Inr (Some s) \<and>
    run_threads (fixed_producer_step linux kFixedMessages) (fixed_consumer_step linux) (map alternating [0..<k]) s =
      Inr t \<and>
    fc_ppc t = pr_exit \<and> fc_cpc t = co_exit \<and> fc_i t = 200000"
proof -
  obtain s where s: "run_fixed_channel = Inr (Some s)"
    "fixed_client_open (fresh_segment 1024) 1024 64 = Inr (Some s)" by (rule fixed_example_client)
  from fixed_stream_finishes [OF s(2) _ _ _ _ fair_alternating, of kFixedMessages linux] show ?thesis
    using s(1) by (auto simp: fresh_segment_def kFixedMessages_def honours_timeout_def)
qed

text \<open>One message sent, and one taken, without interruption.\<close>

lemma producer_sends:
  assumes inv: "fixed_client_inv n s" and pc: "fc_ppc s = pr_loop" "fc_i s < n"
    and room: "unat (wpos (fc_seg s)) \<noteq> unat (rpos (fc_seg s)) + capacity_of (fc_seg s)"
  shows "\<exists>t. run_threads (fixed_producer_step pf n) (fixed_consumer_step pf) [producer, producer, producer] s = Inr t \<and>
    fixed_client_inv n t \<and> fc_ppc t = pr_loop \<and> fc_i t = fc_i s + 1 \<and>
    fc_cpc t = fc_cpc s \<and> fc_drained t = fc_drained s"
proof -
  note D = fixed_client_invD [OF inv]
  have idle: "\<not> pending (fc_writer s)" using D(4) pc by (simp add: fixed_producer_inv_def)
  obtain a where a: "fixed_producer_step pf n s = Inr a" "fixed_client_inv n a"
    using fixed_pstep_law [OF inv] by blast
  obtain p where A: "fc_ppc a = pr_fill p" "fc_i a = fc_i s" "fc_cpc a = fc_cpc s"
    "fc_drained a = fc_drained s"
    using a(1) pc fixed_try_reserve_free [OF D(1) idle room] by (auto simp: fixed_producer_step_def)
  obtain b where b: "fixed_producer_step pf n a = Inr b" "fixed_client_inv n b"
    using fixed_pstep_law [OF a(2)] by blast
  have B: "fc_ppc b = pr_commit" "fc_i b = fc_i s" "fc_cpc b = fc_cpc s" "fc_drained b = fc_drained s"
    using b(1) A by (auto simp: fixed_producer_step_def)
  obtain t where t: "fixed_producer_step pf n b = Inr t" "fixed_client_inv n t"
    using fixed_pstep_law [OF b(2)] by blast
  have "fc_ppc t = pr_loop" "fc_i t = fc_i s + 1" "fc_cpc t = fc_cpc s" "fc_drained t = fc_drained s"
    using t(1) B by (auto simp: fixed_producer_step_def split: prod.splits)
  with a b t show ?thesis by simp
qed

lemma consumer_takes:
  assumes inv: "fixed_client_inv n s" and pc: "fc_cpc s = co_loop" "fixed_client_queue s \<noteq> []"
  shows "\<exists>t. run_threads (fixed_producer_step pf n) (fixed_consumer_step pf) [consumer, consumer, consumer] s = Inr t \<and>
    fixed_client_inv n t \<and> fc_cpc t = co_loop \<and> fc_drained t = fc_drained s + 1 \<and>
    fc_ppc t = fc_ppc s \<and> fc_i t = fc_i s"
proof -
  note D = fixed_client_invD [OF inv]
  have ne: "fixed_contents (fc_seg s) \<noteq> []" using pc by (auto simp: fixed_client_queue_def)
  obtain a where a: "fixed_consumer_step pf s = Inr a" "fixed_client_inv n a"
    using fixed_cstep_law [OF inv] by blast
  obtain p where A: "fc_cpc a = co_view p" "fc_i a = fc_i s" "fc_ppc a = fc_ppc s"
    "fc_drained a = fc_drained s"
    using a(1) pc fixed_try_read_ready [OF D(1) ne D(2)] by (auto simp: fixed_consumer_step_def)
  obtain b where b: "fixed_consumer_step pf a = Inr b" "fixed_client_inv n b"
    using fixed_cstep_law [OF a(2)] by blast
  have B: "fc_cpc b = co_advance" "fc_i b = fc_i s" "fc_ppc b = fc_ppc s" "fc_drained b = fc_drained s + 1"
    using b(1) A by (auto simp: fixed_consumer_step_def Let_def)
  obtain t where t: "fixed_consumer_step pf b = Inr t" "fixed_client_inv n t"
    using fixed_cstep_law [OF b(2)] by blast
  have "fc_cpc t = co_loop" "fc_i t = fc_i s" "fc_ppc t = fc_ppc s" "fc_drained t = fc_drained s + 1"
    using t(1) B by (auto simp: fixed_consumer_step_def)
  with a b t show ?thesis by simp
qed

text \<open>A state between rounds: both threads at the top of their loops, \<open>k\<close> sent and \<open>k\<close> taken.\<close>

definition between_rounds :: "u64 \<Rightarrow> nat \<Rightarrow> fixed_client \<Rightarrow> bool" where
  "between_rounds n k s \<longleftrightarrow> fixed_client_inv n s \<and> fc_ppc s = pr_loop \<and> fc_cpc s = co_loop \<and>
     unat (fc_i s) = k \<and> unat (fc_drained s) = k"

lemma drained_ring:
  assumes "between_rounds n k s"
  shows "fixed_contents (fc_seg s) = []"
    and "unat (wpos (fc_seg s)) \<noteq> unat (rpos (fc_seg s)) + capacity_of (fc_seg s)"
proof -
  have inv: "fixed_client_inv n s" using assms by (simp add: between_rounds_def)
  note D = fixed_client_invD [OF inv]
  show e: "fixed_contents (fc_seg s) = []"
    using D(5) assms by (auto simp: fixed_consumer_inv_def fixed_client_queue_def between_rounds_def)
  have "\<not> pending (fc_writer s)" using D(4) assms by (simp add: fixed_producer_inv_def between_rounds_def)
  then show "unat (wpos (fc_seg s)) \<noteq> unat (rpos (fc_seg s)) + capacity_of (fc_seg s)"
    using e fixed_contents_empty_iff [OF D(1)] fixed_invD(7) [OF D(1)]
      fixed_geometryD(2) [OF fixed_invD(1) [OF D(1)]] by simp
qed

lemma one_round:
  assumes s: "between_rounds n k s" and k: "k < unat n"
  shows "\<exists>t. run_threads (fixed_producer_step pf n) (fixed_consumer_step pf)
      ([producer, producer, producer] @ [consumer, consumer, consumer]) s = Inr t \<and> between_rounds n (Suc k) t"
proof -
  have S: "fixed_client_inv n s" "fc_ppc s = pr_loop" "fc_i s < n" "fc_cpc s = co_loop"
    using s k by (auto simp: between_rounds_def word_less_nat_alt)
  obtain a where a: "run_threads (fixed_producer_step pf n) (fixed_consumer_step pf) [producer, producer, producer] s = Inr a"
    "fixed_client_inv n a" "fc_ppc a = pr_loop" "fc_i a = fc_i s + 1" "fc_cpc a = co_loop"
    "fc_drained a = fc_drained s"
    using producer_sends [OF S(1-3) drained_ring(2) [OF s], of pf] S(4) by auto
  have i: "unat (fc_i a) = Suc k" using a(4) unat_suc_u64 [OF S(3)] s by (simp add: between_rounds_def)
  have "unat (fc_drained a) + length (fixed_client_queue a) = unat (fc_i a)"
    using fixed_client_invD(5) [OF a(2)] by (simp add: fixed_consumer_inv_def)
  then have "fixed_client_queue a \<noteq> []" using i a(6) s by (auto simp: between_rounds_def)
  from consumer_takes [OF a(2,5) this, of pf]
  obtain t where t: "run_threads (fixed_producer_step pf n) (fixed_consumer_step pf) [consumer, consumer, consumer] a = Inr t"
    "fixed_client_inv n t" "fc_cpc t = co_loop" "fc_drained t = fc_drained a + 1" "fc_ppc t = fc_ppc a"
    "fc_i t = fc_i a" by blast
  have "fc_drained s < fc_i a" using i s by (simp add: between_rounds_def word_less_nat_alt)
  then have "unat (fc_drained t) = Suc k"
    using t(4) a(6) unat_suc_u64 s by (simp add: between_rounds_def)
  then have "between_rounds n (Suc k) t" using t a(3) i by (simp add: between_rounds_def)
  then show ?thesis using a(1) t(1) by (simp only: run_threads_append res_bind_simps) blast
qed

lemma lock_step:
  assumes "between_rounds n 0 s" "k \<le> unat n"
  shows "\<exists>ts t. run_threads (fixed_producer_step pf n) (fixed_consumer_step pf) ts s = Inr t \<and> between_rounds n k t"
  using assms(2)
proof (induction k)
  case 0
  have "run_threads (fixed_producer_step pf n) (fixed_consumer_step pf) [] s = Inr s" by simp
  with assms(1) show ?case by blast
next
  case (Suc k)
  then obtain ts t where t: "run_threads (fixed_producer_step pf n) (fixed_consumer_step pf) ts s = Inr t"
    "between_rounds n k t" by auto
  obtain u where "run_threads (fixed_producer_step pf n) (fixed_consumer_step pf)
      ([producer, producer, producer] @ [consumer, consumer, consumer]) t = Inr u" "between_rounds n (Suc k) u"
    using one_round [OF t(2), of pf] Suc.prems by auto
  with t(1) have "run_threads (fixed_producer_step pf n) (fixed_consumer_step pf)
      (ts @ ([producer, producer, producer] @ [consumer, consumer, consumer])) s = Inr u"
    by (simp only: run_threads_append res_bind_simps)
  with \<open>between_rounds n (Suc k) u\<close> show ?case by blast
qed

text \<open>
  The consumer finds the ring empty, the producer sends its last message and raises the flag, the
  consumer sees the flag.
\<close>

lemma last_message_dropped:
  assumes s: "between_rounds n k s" and n: "unat n = Suc k"
  shows "\<exists>t. run_threads (fixed_producer_step pf n) (fixed_consumer_step pf)
      ([consumer] @ [producer, producer, producer] @ [producer, producer, consumer]) s = Inr t \<and>
    fixed_client_inv n t \<and> fc_ppc t = pr_exit \<and> fc_cpc t = co_exit \<and> unat (fc_drained t) = k"
proof -
  have S: "fixed_client_inv n s" "fc_ppc s = pr_loop" "fc_cpc s = co_loop" "fc_i s < n"
    using s n by (auto simp: between_rounds_def word_less_nat_alt)
  let ?a = "s\<lparr>fc_cpc := co_empty\<rparr>"
  have a: "fixed_consumer_step pf s = Inr ?a"
    using S(3) fixed_try_read_empty [OF fixed_client_invD(1) [OF S(1)] drained_ring(1) [OF s]]
    by (simp add: fixed_consumer_step_def)
  then have ia: "fixed_client_inv n ?a" using fixed_cstep_law [OF S(1), of pf] by simp
  from producer_sends [OF ia, of pf] S drained_ring(2) [OF s]
  obtain b where b: "run_threads (fixed_producer_step pf n) (fixed_consumer_step pf) [producer, producer, producer] ?a = Inr b"
    "fixed_client_inv n b" "fc_ppc b = pr_loop" "fc_i b = fc_i s + 1" "fc_cpc b = co_empty"
    "fc_drained b = fc_drained s" by auto
  have i: "fc_i b = n"
    using b(4) unat_suc_u64 [OF S(4)] s n by (simp add: between_rounds_def word_unat_eq_iff)
  let ?t = "b\<lparr>fc_done := True, fc_ppc := pr_exit, fc_cpc := co_exit\<rparr>"
  have r: "run_threads (fixed_producer_step pf n) (fixed_consumer_step pf) [producer, producer, consumer] b = Inr ?t"
    using b i by (simp add: fixed_producer_step_def fixed_consumer_step_def)
  have "fixed_client_inv n ?t"
    using fixed_pstep_law [OF b(2), of pf] fixed_client_invD [OF b(2)] b i
    by (simp add: fixed_client_inv_def fixed_producer_inv_def fixed_consumer_inv_def fixed_client_queue_def)
  moreover have "run_threads (fixed_producer_step pf n) (fixed_consumer_step pf)
      ([consumer] @ [producer, producer, producer] @ [producer, producer, consumer]) s = Inr ?t"
    using a b(1) r by (simp only: run_threads_append run_threads.simps res_bind_simps)
  ultimately show ?thesis using b(6) s by (auto simp: between_rounds_def)
qed

text \<open>
  C37: The end-of-stream race: on every platform and for every positive message count there is a schedule after which
  both threads have returned and the last frame is still in the ring, never drained. The
  consumer finds the ring empty, the producer then sends the last frame and raises its flag, and
  the consumer, which now sees the flag, leaves without looking at the ring again.
\<close>

theorem fixed_stream_drops_last:
  assumes "fixed_client_open arena cap frame = Inr (Some s)" "8 \<le> frame"
    and "unat cap \<le> length (data_bytes arena)" "unat n * unat frame < 2 ^ 64" "n \<noteq> 0"
  shows "\<exists>ts t. run_threads (fixed_producer_step pf n) (fixed_consumer_step pf) ts s = Inr t \<and>
    fc_ppc t = pr_exit \<and> fc_cpc t = co_exit \<and> unat (fc_drained t) = unat n - 1 \<and>
    fixed_client_queue t = [unat n - 1]"
proof -
  note S = fixed_client_open_start [OF assms(1-4)]
  have "fc_ppc s = pr_loop" "fc_cpc s = co_loop" "fc_i s = 0" "fc_drained s = 0"
    using assms(1) by (auto simp: fixed_client_open_def)
  then have b0: "between_rounds n 0 s" using S(1) by (simp add: between_rounds_def)
  obtain k where k: "unat n = Suc k" using assms(5) by (metis not0_implies_Suc unat_eq_zero)
  obtain ts a where a: "run_threads (fixed_producer_step pf n) (fixed_consumer_step pf) ts s = Inr a"
    "between_rounds n k a" using lock_step [OF b0, of k pf] k by auto
  obtain us t where t: "run_threads (fixed_producer_step pf n) (fixed_consumer_step pf) us a = Inr t"
    "fc_ppc t = pr_exit" "fc_cpc t = co_exit" "unat (fc_drained t) = k" "fixed_client_inv n t"
    using last_message_dropped [OF a(2) k, of pf] by blast
  have run: "run_threads (fixed_producer_step pf n) (fixed_consumer_step pf) (ts @ us) s = Inr t"
    using a(1) t(1) by (simp only: run_threads_append res_bind_simps)
  have "stream_inv (unat n) (fixed_client_abs t)"
    using fixed_stream.run_refines [OF S(1), of pf "ts @ us"] S(2) run by (auto simp: stream_inv_start)
  moreover have "fc_i t = n" using t(2,5) by (simp add: fixed_client_inv_def fixed_producer_inv_def)
  ultimately have "fixed_client_queue t = [k..<Suc k]"
    using t(4) k by (simp add: stream_inv_def fixed_client_abs_def)
  then show ?thesis using run t k by auto
qed

theorem fixed_stream_drops_last_witness:
  "\<exists>s ts t. run_fixed_channel = Inr (Some s) \<and>
    run_threads (fixed_producer_step linux kFixedMessages) (fixed_consumer_step linux) ts s = Inr t \<and>
    fc_ppc t = pr_exit \<and> fc_cpc t = co_exit \<and> unat (fc_drained t) = 199999"
proof -
  obtain s where s: "run_fixed_channel = Inr (Some s)"
    "fixed_client_open (fresh_segment 1024) 1024 64 = Inr (Some s)" by (rule fixed_example_client)
  from fixed_stream_drops_last [OF s(2), of kFixedMessages linux] show ?thesis
    using s(1) by (auto simp: fresh_segment_def kFixedMessages_def)
qed

text \<open>
  C38: On the polling fallbacks the example can hang. For every message count there is a schedule
  after which the producer has returned, all frames have been drained, and the consumer is in a
  wait that no further step of either thread ends: it found the ring empty before the producer
  raised its flag, and the word it waits on is only changed by a commit, of which there are no more.
\<close>

theorem fixed_stream_hangs:
  assumes "fixed_client_open arena cap frame = Inr (Some s)" "8 \<le> frame"
    and "unat cap \<le> length (data_bytes arena)" "unat n * unat frame < 2 ^ 64" "\<not> honours_timeout pf"
  shows "\<exists>ts t. run_threads (fixed_producer_step pf n) (fixed_consumer_step pf) ts s = Inr t \<and>
    fc_ppc t = pr_exit \<and> fc_done t \<and> fc_drained t = n \<and> (\<exists>seq. fc_cpc t = co_wait seq) \<and>
    (\<forall>us. run_threads (fixed_producer_step pf n) (fixed_consumer_step pf) us t = Inr t)"
proof -
  have "between_rounds n 0 s"
    using fixed_client_open_start(1) [OF assms(1-4)] assms(1) by (auto simp: between_rounds_def fixed_client_open_def)
  then obtain ts a where a: "run_threads (fixed_producer_step pf n) (fixed_consumer_step pf) ts s = Inr a"
    "between_rounds n (unat n) a" using lock_step [of n s "unat n"] by blast
  let ?seq = "cseq (fc_seg a)"
  let ?t = "a\<lparr>fc_done := True, fc_ppc := pr_exit, fc_cpc := co_wait ?seq\<rparr>"
  have A: "fc_ppc a = pr_loop" "fc_cpc a = co_loop" "fc_i a = n" "fc_drained a = n" "fixed_client_inv n a"
    using a(2) by (auto simp: between_rounds_def word_unat_eq_iff)
  then have "\<not> fc_done a" by (simp add: fixed_client_inv_def fixed_producer_inv_def)
  then have r: "run_threads (fixed_producer_step pf n) (fixed_consumer_step pf)
      [consumer, consumer, consumer, producer, producer] a = Inr ?t"
    using A fixed_try_read_empty [OF fixed_client_invD(1) [OF A(5)] drained_ring(1) [OF a(2)]]
    by (simp add: fixed_producer_step_def fixed_consumer_step_def)
  have st: "fixed_producer_step pf n ?t = Inr ?t" "fixed_consumer_step pf ?t = Inr ?t"
    using assms(5) by (simp_all add: fixed_producer_step_def fixed_consumer_step_def wait_returns_def)
  have "run_threads (fixed_producer_step pf n) (fixed_consumer_step pf) us ?t = Inr ?t" for us
  proof (induction us)
    case (Cons th us)
    then show ?case using st by (cases th) simp_all
  qed simp
  moreover have "run_threads (fixed_producer_step pf n) (fixed_consumer_step pf)
      (ts @ [consumer, consumer, consumer, producer, producer]) s = Inr ?t"
    using a(1) r by (simp only: run_threads_append res_bind_simps)
  ultimately show ?thesis
    using A(4) by (intro exI [of _ "ts @ [consumer, consumer, consumer, producer, producer]"] exI [of _ ?t]) simp
qed

theorem fixed_stream_hangs_witness:
  "\<exists>s ts t. run_fixed_channel = Inr (Some s) \<and>
    run_threads (fixed_producer_step portable kFixedMessages) (fixed_consumer_step portable) ts s = Inr t \<and>
    fc_ppc t = pr_exit \<and> fc_drained t = 200000 \<and>
    (\<forall>us. run_threads (fixed_producer_step portable kFixedMessages) (fixed_consumer_step portable) us t = Inr t)"
proof -
  obtain s where s: "run_fixed_channel = Inr (Some s)"
    "fixed_client_open (fresh_segment 1024) 1024 64 = Inr (Some s)" by (rule fixed_example_client)
  from fixed_stream_hangs [OF s(2), of kFixedMessages portable] show ?thesis
    using s(1) by (fastforce simp: fresh_segment_def kFixedMessages_def honours_timeout_def)
qed

end
