(* ===== verification/Varlen_Stream.thy ===== *)
theory Varlen_Stream
  imports Varlen_Limits Stream_Client
begin

text \<open>
  The variable-length half of \<open>examples/thread_channel.cpp\<close>: \<open>run_varlen_channel\<close> with its two
  threads, each call into the library one step. Whether \<open>backoff.wait\<close> returns is decided by the platform
  (\<open>wait_returns\<close>).
\<close>

section \<open>What a read leaves alone\<close>

definition same_ring :: "segment \<Rightarrow> segment \<Rightarrow> bool" where
  "same_ring s t \<longleftrightarrow> data_bytes t = data_bytes s \<and> cpos t = cpos s \<and> wpos t = wpos s \<and>
     data_capacity (hdr t) = data_capacity (hdr s) \<and> data_alignment (hdr t) = data_alignment (hdr s)"

lemma same_ring_refl [simp]: "same_ring s s"
  by (simp add: same_ring_def)

lemma advance_same_ring: "same_ring s (advance_read s v)"
  by (simp add: same_ring_def advance_read_def)

lemma same_ring_trans: "same_ring s t \<Longrightarrow> same_ring t u \<Longrightarrow> same_ring s u"
  by (simp add: same_ring_def)

lemma varlen_read_same_ring:
  "varlen_read handler r h s = Inr (ok, h', t) \<Longrightarrow> same_ring s t"
proof (induction handler r h s arbitrary: ok h' t rule: varlen_read.induct)
  case (1 handler r h s)
  note step = "1.IH" [OF refl refl refl]
  from "1.prems" show ?case
    by (subst (asm) varlen_read.simps)
      (auto simp: Let_def advance_same_ring split: if_splits sum.splits
        intro: same_ring_trans [OF advance_same_ring step])
qed


section \<open>The program\<close>

definition kVarCapacity :: u32 where "kVarCapacity = 4096"
definition kVarMessages :: u64 where "kVarMessages = 100000"

text \<open>Message \<open>i\<close>: its length, metadata and bytes.\<close>

definition stream_len :: "u64 \<Rightarrow> u32" where "stream_len i = u32_of_u64 (1 + i mod 31)"
definition stream_meta :: "u64 \<Rightarrow> message_meta" where "stream_meta i = default_meta\<lparr>user_data := i\<rparr>"
definition stream_bytes :: "u64 \<Rightarrow> u8 list" where
  "stream_bytes i = replicate (unat (stream_len i)) (word_of_nat (97 + unat (i mod 26)))"

datatype vproducer_pc =
    vp_loop                \<comment> \<open>the loop condition and \<open>try_reserve\<close>\<close>
  | vp_full                \<comment> \<open>about to load \<open>read_wake_seq\<close>\<close>
  | vp_wait u32            \<comment> \<open>in \<open>backoff.wait\<close>\<close>
  | vp_fill "nat option" u64  \<comment> \<open>about to fill the payload\<close>
  | vp_commit u64
  | vp_finish              \<comment> \<open>about to store \<open>producer_done\<close>\<close>
  | vp_exit

datatype vconsumer_pc =
    vc_loop                \<comment> \<open>\<open>read\<close> and the comparison\<close>
  | vc_empty               \<comment> \<open>about to load \<open>producer_done\<close>\<close>
  | vc_seq                 \<comment> \<open>about to load \<open>commit_seq\<close>\<close>
  | vc_wait u32            \<comment> \<open>in \<open>backoff.wait\<close>\<close>
  | vc_exit

record varlen_client =
  vs_seg :: segment
  vs_writer :: varlen_writer
  vs_reader :: varlen_reader
  vs_i :: u64
  vs_ppc :: vproducer_pc
  vs_done :: bool
  vs_cpc :: vconsumer_pc
  vs_drained :: u64
  vs_mismatches :: u64
  vs_buffer :: "u8 list"

definition varlen_client_open :: "segment \<Rightarrow> u64 \<Rightarrow> u32 \<Rightarrow> varlen_client option" where
  "varlen_client_open arena cap alignment =
     map_option (\<lambda>(w, r, s).
       \<lparr>vs_seg = s, vs_writer = w, vs_reader = r, vs_i = 0, vs_ppc = vp_loop, vs_done = False,
        vs_cpc = vc_loop, vs_drained = 0, vs_mismatches = 0, vs_buffer = replicate 512 0\<rparr>)
       (varlen_ring_open arena cap alignment)"

definition run_varlen_channel :: "varlen_client option" where
  "run_varlen_channel =
     varlen_client_open (fresh_segment (unat kVarCapacity)) (u64_of_u32 kVarCapacity) 8"

definition varlen_producer_step :: "platform \<Rightarrow> u64 \<Rightarrow> varlen_client \<Rightarrow> varlen_client res" where
  "varlen_producer_step pf n s =
     (case vs_ppc s of
        vp_loop \<Rightarrow>
          if vs_i s < n then
            (case varlen_try_reserve (vs_writer s) (vs_seg s) (stream_len (vs_i s)) (stream_meta (vs_i s)) of
               None \<Rightarrow> Inl diverged
             | Some x \<Rightarrow> res_bind x (\<lambda>(res, w, g).
                 Inr (s\<lparr>vs_writer := w, vs_seg := g,
                        vs_ppc := (if status res = rs_full then vp_full
                          else if status res \<noteq> rs_ok then vp_finish
                          else vp_fill (payload res) (position res))\<rparr>)))
          else Inr (s\<lparr>vs_ppc := vp_finish\<rparr>)
      | vp_full \<Rightarrow> Inr (s\<lparr>vs_ppc := vp_wait (rwseq (vs_seg s))\<rparr>)
      | vp_wait wake \<Rightarrow>
          Inr (if wait_returns pf wake (rwseq (vs_seg s)) then s\<lparr>vs_ppc := vp_loop\<rparr> else s)
      | vp_fill p pos \<Rightarrow>
          (case p of
             None \<Rightarrow> Inl out_of_bounds
           | Some p \<Rightarrow> res_bind (store_bytes (vs_seg s) p (stream_bytes (vs_i s))) (\<lambda>g.
               Inr (s\<lparr>vs_seg := g, vs_ppc := vp_commit pos\<rparr>)))
      | vp_commit pos \<Rightarrow>
          res_bind (varlen_commit (vs_writer s) (vs_seg s) pos) (\<lambda>(w, g).
            Inr (s\<lparr>vs_writer := w, vs_seg := g, vs_i := vs_i s + 1, vs_ppc := vp_loop\<rparr>))
      | vp_finish \<Rightarrow> Inr (s\<lparr>vs_done := True, vs_ppc := vp_exit\<rparr>)
      | vp_exit \<Rightarrow> Inr s)"

definition varlen_consumer_step :: "platform \<Rightarrow> varlen_client \<Rightarrow> varlen_client res" where
  "varlen_consumer_step pf s =
     (case vs_cpc s of
        vc_loop \<Rightarrow>
          res_bind (varlen_read_copy (vs_reader s) (vs_seg s) 512
              \<lparr>out_buf = Some (vs_buffer s), out_size = Some 0, out_meta = Some default_meta\<rparr>)
            (\<lambda>(ok, out, g).
              let s' = s\<lparr>vs_seg := g, vs_buffer := the (out_buf out)\<rparr>
              in Inr (if ok
                 then s'\<lparr>vs_mismatches := vs_mismatches s +
                            (if user_data (the (out_meta out)) \<noteq> vs_drained s then 1 else 0),
                         vs_drained := vs_drained s + 1\<rparr>
                 else s'\<lparr>vs_cpc := vc_empty\<rparr>))
      | vc_empty \<Rightarrow> Inr (s\<lparr>vs_cpc := (if vs_done s then vc_exit else vc_seq)\<rparr>)
      | vc_seq \<Rightarrow> Inr (s\<lparr>vs_cpc := vc_wait (cseq (vs_seg s))\<rparr>)
      | vc_wait seq \<Rightarrow>
          Inr (if wait_returns pf seq (cseq (vs_seg s)) then s\<lparr>vs_cpc := vc_loop\<rparr> else s)
      | vc_exit \<Rightarrow> Inr s)"


section \<open>Abstraction and invariant\<close>

definition varlen_client_queue :: "varlen_client \<Rightarrow> nat list" where
  "varlen_client_queue s = map (\<lambda>m. unat (user_data (snd m))) (varlen_contents (vs_seg s))"

definition varlen_client_abs :: "varlen_client \<Rightarrow> stream" where
  "varlen_client_abs s =
     \<lparr>produced = unat (vs_i s), queue = varlen_client_queue s, taken = unat (vs_drained s),
      errors = unat (vs_mismatches s), closed = vs_done s, left = (vs_cpc s = vc_exit)\<rparr>"

text \<open>
  Every message takes at most one lap of padding and one slot. The potential below does not grow
  when padding is committed, so it bounds \<open>write_pos\<close> whatever the number of refused attempts.
\<close>

definition potential :: "segment \<Rightarrow> nat" where
  "potential s = unat (wpos s) + (if unat (wpos s) mod capacity_of s = 0 then 0 else capacity_of s)"

text \<open>The messages in the ring are whole and are the ones the producer made.\<close>

definition stream_message :: "u64 \<Rightarrow> varlen_message" where
  "stream_message i = (stream_bytes i, stream_meta i)"

definition genuine :: "varlen_message \<Rightarrow> bool" where
  "genuine m \<longleftrightarrow> m = stream_message (user_data (snd m))"

definition vproducer_inv :: "u64 \<Rightarrow> varlen_client \<Rightarrow> bool" where
  "vproducer_inv n s \<longleftrightarrow>
     vs_i s \<le> n \<and> (vs_done s \<longleftrightarrow> vs_ppc s = vp_exit) \<and>
     potential (vs_seg s) \<le> (unat (vs_i s) + (if vpending (vs_writer s) then 1 else 0)) * (2 * capacity_of (vs_seg s)) \<and>
     (case vs_ppc s of
        vp_fill p pos \<Rightarrow> vs_i s < n \<and> pos = cpos (vs_seg s) \<and>
          p = Some (sizeof_control_block + (unat (cpos (vs_seg s)) mod capacity_of (vs_seg s) + 32)) \<and>
          reserved_state (needed_bytes (stream_len (vs_i s)) (vs_seg s)) (stream_len (vs_i s))
            (stream_meta (vs_i s)) (varlen_slots (vs_seg s)) 0 (vs_writer s) (vs_seg s)
      | vp_commit pos \<Rightarrow> vs_i s < n \<and> pos = cpos (vs_seg s) \<and>
          reserved_payload (stream_len (vs_i s)) (vs_seg s) = stream_bytes (vs_i s) \<and>
          reserved_state (needed_bytes (stream_len (vs_i s)) (vs_seg s)) (stream_len (vs_i s))
            (stream_meta (vs_i s)) (varlen_slots (vs_seg s)) 0 (vs_writer s) (vs_seg s)
      | vp_finish \<Rightarrow> \<not> vpending (vs_writer s) \<and> vs_i s = n
      | vp_exit \<Rightarrow> \<not> vpending (vs_writer s) \<and> vs_i s = n
      | _ \<Rightarrow> \<not> vpending (vs_writer s))"

definition vconsumer_inv :: "varlen_client \<Rightarrow> bool" where
  "vconsumer_inv s \<longleftrightarrow>
     unat (vs_drained s) + length (varlen_contents (vs_seg s)) = unat (vs_i s) \<and>
     unat (vs_mismatches s) \<le> unat (vs_drained s) \<and> length (vs_buffer s) = 512 \<and>
     list_all genuine (varlen_contents (vs_seg s)) \<and> (vs_cpc s = vc_exit \<longrightarrow> vs_done s)"

definition varlen_client_inv :: "u64 \<Rightarrow> varlen_client \<Rightarrow> bool" where
  "varlen_client_inv n s \<longleftrightarrow>
     varlen_inv 0 (vs_writer s) (vs_seg s) \<and> data_ptr (vs_reader s) = sizeof_control_block \<and>
     128 \<le> capacity_of (vs_seg s) \<and> (unat n + 1) * (2 * capacity_of (vs_seg s)) < 2 ^ 64 \<and>
     vproducer_inv n s \<and> vconsumer_inv s"

lemmas varlen_client_defs = varlen_client_inv_def vproducer_inv_def vconsumer_inv_def
  varlen_client_abs_def varlen_client_queue_def

lemma varlen_client_invD:
  assumes "varlen_client_inv n s"
  shows "varlen_inv 0 (vs_writer s) (vs_seg s)" "data_ptr (vs_reader s) = sizeof_control_block"
    and "128 \<le> capacity_of (vs_seg s)" "(unat n + 1) * (2 * capacity_of (vs_seg s)) < 2 ^ 64"
    and "vproducer_inv n s" "vconsumer_inv s"
  using assms by (auto simp: varlen_client_inv_def)

lemma stream_len_bounds: "1 \<le> unat (stream_len i)" "unat (stream_len i) \<le> 31"
proof -
  have "unat (i mod 31) < 31" by (simp add: unat_mod)
  then have "unat (1 + i mod 31) = Suc (unat (i mod 31))" by (subst unat_add_u64) simp_all
  moreover have "unat (i mod 31) \<le> 30" using \<open>unat (i mod 31) < 31\<close> by simp
  ultimately show "1 \<le> unat (stream_len i)" "unat (stream_len i) \<le> 31"
    by (simp_all add: stream_len_def unat_u32_of_u64_small)
qed

lemma varlen_inv_boundI: "varlen_inv 0 w s \<Longrightarrow> unat (wpos s) + b < 2 ^ 64 \<Longrightarrow> varlen_inv b w s"
  by (simp add: varlen_inv_def)


section \<open>Reserving within the potential\<close>

lemma potential_base:
  assumes inv: "varlen_inv (b + capacity_of s) w s" and n: "unat (n :: u32) \<le> capacity_of s"
  shows "potential (reserve_base (unat n) s) \<le> potential s"
proof (cases "capacity_of s - unat (wpos s) mod capacity_of s < unat n")
  case True
  have "unat (wpos s) mod capacity_of s \<noteq> 0" using True n by (cases "unat (wpos s) mod capacity_of s = 0") auto
  then show ?thesis
    using True padded_wpos [OF inv] by (simp add: potential_def reserve_base_def)
qed (simp add: reserve_base_def)

lemma reserve_within:
  fixes psize :: u32
  assumes inv: "varlen_inv (2 * capacity_of s) w s" and idle: "\<not> vpending w"
    and psize: "32 + unat psize + align_of s \<le> 2 ^ 32"
    and n: "unat (needed_bytes psize s) \<le> capacity_of s"
  obtains (full) res s' where "varlen_try_reserve w s psize mt = Some (Inr (res, w, s'))"
      and "status res = rs_full" "varlen_inv 0 w s'" "varlen_contents s' = varlen_contents s"
      and "potential s' \<le> potential s"
      and "data_capacity (hdr s') = data_capacity (hdr s)" "data_alignment (hdr s') = data_alignment (hdr s)"
  | (ok) res w' s' where "varlen_try_reserve w s psize mt = Some (Inr (res, w', s'))"
      and "status res = rs_ok" "varlen_contents s' = varlen_contents s"
      and "potential s' \<le> potential s + 2 * capacity_of s"
      and "data_capacity (hdr s') = data_capacity (hdr s)" "data_alignment (hdr s') = data_alignment (hdr s)"
      and "reserved_state (needed_bytes psize s) psize mt (varlen_slots s') 0 w' s'"
      and "position res = cpos s'"
      and "payload res = Some (sizeof_control_block + (unat (cpos s') mod capacity_of s + 32))"
proof -
  let ?n = "needed_bytes psize s"
  let ?s1 = "reserve_base (unat ?n) s"
  have inv0: "varlen_inv (0 + 2 * capacity_of s) w s" using inv by simp
  have inv1: "varlen_inv (capacity_of s + capacity_of s) w s" using inv by (simp add: mult_2)
  have inv2: "varlen_inv (0 + capacity_of s) w s"
    using varlen_inv_less [OF inv1] by simp
  note E = varlen_try_reserve_eq [OF inv0 idle, of psize mt]
  note P = potential_base [OF inv1 n]
  consider (A) "capacity_of s < unat (wpos s) - unat (rpos s) + unat ?n"
    | (B) "unat (wpos s) - unat (rpos s) + unat ?n \<le> capacity_of s"
      "capacity_of s < unat (wpos ?s1) - unat (rpos s) + unat ?n"
    | (C) "unat (wpos s) - unat (rpos s) + unat ?n \<le> capacity_of s"
      "unat (wpos ?s1) - unat (rpos s) + unat ?n \<le> capacity_of s" by linarith
  then show thesis
  proof cases
    case A
    then show thesis
      using full [of "reserve_failed rs_full" s] E n varlen_inv_less [of 0 _ w s] inv
      by (simp add: reserve_failed_def)
  next
    case B
    show thesis
      using full [of "reserve_failed rs_full" ?s1] E n B P reserve_base_keeps [OF inv2 idle B(1)]
      by (simp add: reserve_failed_def)
  next
    case C
    let ?g = "headed_segment ?n psize mt ?s1"
    note R = varlen_reserved_state [OF inv0 idle psize C]
    have cw: "cpos ?s1 = wpos ?s1" by (rule reserve_base_idle [OF inv1 idle])
    have i1: "varlen_inv (0 + capacity_of ?s1) w ?s1"
      using reserve_base_keeps(1) [OF inv1 idle C(1)] by simp
    have "unat (wpos ?g) = unat (wpos ?s1) + unat ?n" using headed_wpos [OF i1] n by simp
    then have "potential ?g \<le> potential ?s1 + 2 * capacity_of s" using n by (simp add: potential_def)
    then show thesis
      using ok [of "headed_result ?s1" "headed_writer w ?s1" ?g] E n C P R cw
      by (simp add: headed_result_def reserved_state_def varlen_contents_def)
  qed
qed


section \<open>The producer refines the abstract machine\<close>

text \<open>What an attempt needs: room for two laps below the wrap, and a slot that fits the ring.\<close>

lemma stream_slot:
  assumes inv: "varlen_client_inv n s" and idle: "\<not> vpending (vs_writer s)" and lt: "vs_i s < n"
  shows "varlen_inv (2 * capacity_of (vs_seg s)) (vs_writer s) (vs_seg s)"
    and "32 + unat (stream_len i) + align_of (vs_seg s) \<le> 2 ^ 32"
    and "unat (needed_bytes (stream_len i) (vs_seg s)) \<le> capacity_of (vs_seg s)"
proof -
  let ?c = "capacity_of (vs_seg s)"
  note D = varlen_client_invD [OF inv]
  have "unat (wpos (vs_seg s)) \<le> unat (vs_i s) * (2 * ?c)"
    using D(5) idle by (simp add: vproducer_inv_def potential_def split: if_splits)
  moreover have "(unat (vs_i s) + 1) * (2 * ?c) \<le> (unat n + 1) * (2 * ?c)"
    using lt by (intro mult_right_mono) (simp_all add: word_less_nat_alt)
  then have "unat (vs_i s) * (2 * ?c) + 2 * ?c \<le> (unat n + 1) * (2 * ?c)"
    by (simp only: add_mult_distrib mult_1)
  ultimately have "unat (wpos (vs_seg s)) + 2 * ?c < 2 ^ 64"
    using D(4) by linarith
  with D(1) show "varlen_inv (2 * ?c) (vs_writer s) (vs_seg s)" by (rule varlen_inv_boundI)
  have g: "varlen_geometry (vs_seg s)" using varlen_invD(1) [OF D(1)] .
  note a = align_of_le [OF g] stream_len_bounds(2) [of i]
  then show p: "32 + unat (stream_len i) + align_of (vs_seg s) \<le> 2 ^ 32" by simp
  show "unat (needed_bytes (stream_len i) (vs_seg s)) \<le> ?c"
    using needed_bytes_bounds(2) [OF g p] a D(3) by linarith
qed

lemma vproducer_loop:
  assumes inv: "varlen_client_inv n s" and pc: "vs_ppc s = vp_loop"
  shows "\<exists>t. varlen_producer_step pf n s = Inr t \<and> varlen_client_inv n t \<and>
    varlen_client_abs t = varlen_client_abs s"
proof (cases "vs_i s < n")
  case False
  then have "vs_i s = n" using inv pc by (auto simp: varlen_client_defs)
  then show ?thesis
    using inv pc by (auto simp: varlen_producer_step_def varlen_client_defs)
next
  case True
  note D = varlen_client_invD [OF inv]
  have idle: "\<not> vpending (vs_writer s)" using D(5) pc by (simp add: vproducer_inv_def)
  note S = stream_slot(1) [OF inv idle True] stream_slot(2,3) [OF inv idle True, of "vs_i s"]
  show ?thesis
  proof (cases rule: reserve_within [OF S(1) idle S(2,3), of "stream_meta (vs_i s)", case_names full ok])
    case (full res g)
    let ?t = "s\<lparr>vs_seg := g, vs_ppc := vp_full\<rparr>"
    have "varlen_producer_step pf n s = Inr ?t"
      using pc True full(1,2) by (simp add: varlen_producer_step_def)
    moreover have "varlen_client_inv n ?t"
      using inv pc idle full by (auto simp: varlen_client_defs)
    moreover have "varlen_client_abs ?t = varlen_client_abs s" using full by (simp add: varlen_client_defs)
    ultimately show ?thesis by blast
  next
    case (ok res w g)
    let ?t = "s\<lparr>vs_writer := w, vs_seg := g, vs_ppc := vp_fill (payload res) (position res)\<rparr>"
    have v: "vpending w" "varlen_inv 0 w g" using ok(7) by (auto simp: reserved_state_def)
    have nb: "needed_bytes (stream_len (vs_i s)) g = needed_bytes (stream_len (vs_i s)) (vs_seg s)"
      using ok(6) by (simp add: needed_bytes_def)
    have "potential (vs_seg s) \<le> unat (vs_i s) * (2 * capacity_of (vs_seg s))"
      using D(5) idle by (simp add: vproducer_inv_def)
    then have "vproducer_inv n ?t"
      using D(5) pc True ok v nb by (simp add: vproducer_inv_def)
    moreover have "vconsumer_inv ?t" using D(6) ok(3) by (simp add: vconsumer_inv_def)
    ultimately have "varlen_client_inv n ?t"
      using D(2-4) v(2) ok(5) by (simp add: varlen_client_inv_def)
    moreover have "varlen_producer_step pf n s = Inr ?t"
      using pc True ok(1,2) by (simp add: varlen_producer_step_def)
    moreover have "varlen_client_abs ?t = varlen_client_abs s" using ok by (simp add: varlen_client_defs)
    ultimately show ?thesis by blast
  qed
qed

lemma vproducer_fill:
  assumes inv: "varlen_client_inv n s" and pc: "vs_ppc s = vp_fill p pos"
  shows "\<exists>t. varlen_producer_step pf n s = Inr t \<and> varlen_client_inv n t \<and>
    varlen_client_abs t = varlen_client_abs s"
proof -
  let ?l = "stream_len (vs_i s)" and ?b = "stream_bytes (vs_i s)"
  let ?i = "unat (cpos (vs_seg s)) mod capacity_of (vs_seg s) + 32"
  let ?g = "fill_payload (vs_seg s) ?b"
  note D = varlen_client_invD [OF inv]
  have P: "vs_i s < n" "pos = cpos (vs_seg s)" "p = Some (sizeof_control_block + ?i)"
    and R: "reserved_state (needed_bytes ?l (vs_seg s)) ?l (stream_meta (vs_i s))
      (varlen_slots (vs_seg s)) 0 (vs_writer s) (vs_seg s)"
    using D(5) pc by (auto simp: vproducer_inv_def)
  have lb: "length ?b = unat ?l" by (simp add: stream_bytes_def)
  note F = fill_payload_keeps [OF R, of ?b]
  have v: "vpending (vs_writer s)" using R by (simp add: reserved_state_def)
  have len: "?i + unat ?l \<le> length (data_bytes (vs_seg s))"
    using R varlen_geometryD(6) [OF varlen_invD(1) [OF D(1)]] by (simp add: reserved_state_def)
  have st: "store_bytes (vs_seg s) (sizeof_control_block + ?i) ?b = Inr ?g"
    using len lb by (simp add: fill_payload_def)
  have rp: "reserved_payload ?l ?g = ?b"
    using F(2) lb len by (simp add: reserved_payload_def length_mem_read)
  have nb: "needed_bytes ?l ?g = needed_bytes ?l (vs_seg s)" by (simp add: needed_bytes_def)
  have F1: "reserved_state (needed_bytes ?l (vs_seg s)) ?l (stream_meta (vs_i s))
      (varlen_slots (vs_seg s)) 0 (vs_writer s) ?g" using F(1) lb by simp
  then have sl: "varlen_slots ?g = varlen_slots (vs_seg s)" "varlen_inv 0 (vs_writer s) ?g"
    by (auto simp: reserved_state_def)
  let ?t = "s\<lparr>vs_seg := ?g, vs_ppc := vp_commit pos\<rparr>"
  have pot: "potential ?g = potential (vs_seg s)" by (simp add: potential_def)
  have "vproducer_inv n ?t"
    using D(5) pc P F1 sl rp nb pot by (simp add: vproducer_inv_def)
  moreover have "vconsumer_inv ?t" using D(6) sl(1) by (simp add: vconsumer_inv_def varlen_contents_def)
  ultimately have "varlen_client_inv n ?t" using D(2-4) sl(2) by (simp add: varlen_client_inv_def)
  moreover have "varlen_producer_step pf n s = Inr ?t" using pc P(3) st by (simp add: varlen_producer_step_def)
  moreover have "varlen_client_abs ?t = varlen_client_abs s"
    using sl(1) by (simp add: varlen_client_abs_def varlen_client_queue_def varlen_contents_def)
  ultimately show ?thesis by blast
qed

lemma vproducer_commit:
  assumes inv: "varlen_client_inv n s" and pc: "vs_ppc s = vp_commit pos"
  shows "\<exists>t. varlen_producer_step pf n s = Inr t \<and> varlen_client_inv n t \<and>
    stream_step (unat n) (varlen_client_abs s) (varlen_client_abs t)"
proof -
  let ?l = "stream_len (vs_i s)" and ?m = "stream_message (vs_i s)"
  let ?w = "(vs_writer s)\<lparr>vpending := False\<rparr>"
  let ?g = "committed_segment (needed_bytes ?l (vs_seg s)) (vs_seg s)"
  note D = varlen_client_invD [OF inv]
  have P: "vs_i s < n" "pos = cpos (vs_seg s)" "reserved_payload ?l (vs_seg s) = stream_bytes (vs_i s)"
    and R: "reserved_state (needed_bytes ?l (vs_seg s)) ?l (stream_meta (vs_i s))
      (varlen_slots (vs_seg s)) 0 (vs_writer s) (vs_seg s)"
    using D(5) pc by (auto simp: vproducer_inv_def)
  have v: "vpending (vs_writer s)" using R by (simp add: reserved_state_def)
  have l0: "?l \<noteq> 0" using stream_len_bounds(1) [of "vs_i s"] by auto
  note C = varlen_commit_eq [OF R]
  have ct: "varlen_contents ?g = varlen_contents (vs_seg s) @ [?m]"
    using C(3) l0 P(3) by (simp add: varlen_contents_def stream_message_def)
  let ?t = "s\<lparr>vs_writer := ?w, vs_seg := ?g, vs_i := vs_i s + 1, vs_ppc := vp_loop\<rparr>"
  have st: "varlen_producer_step pf n s = Inr ?t"
    using pc P(2) C(1) by (simp add: varlen_producer_step_def)
  have i: "unat (vs_i s + 1) = Suc (unat (vs_i s))" "unat (vs_i s) < unat n"
    using P(1) unat_u64_lt [of n] by (simp_all add: unat_simps word_less_nat_alt)
  have pot: "potential ?g = potential (vs_seg s)" by (simp add: potential_def)
  have "vproducer_inv n ?t"
    using D(5) pc i v pot by (auto simp: vproducer_inv_def word_le_nat_alt)
  moreover have "genuine ?m" by (simp add: genuine_def stream_message_def stream_meta_def)
  then have "vconsumer_inv ?t" using D(5,6) pc ct i by (auto simp: vconsumer_inv_def vproducer_inv_def)
  ultimately have "varlen_client_inv n ?t" using D(2-4) C(2) by (simp add: varlen_client_inv_def)
  moreover have "user_data (snd ?m) = vs_i s" by (simp add: stream_message_def stream_meta_def)
  then have "stream_step (unat n) (varlen_client_abs s) (varlen_client_abs ?t)"
    using ct i
    by (intro stream_putI) (simp_all add: varlen_client_abs_def varlen_client_queue_def)
  ultimately show ?thesis using st by blast
qed

lemma varlen_pstep_law:
  assumes inv: "varlen_client_inv n s"
  shows "\<exists>t. varlen_producer_step pf n s = Inr t \<and> varlen_client_inv n t \<and>
    stream_step (unat n) (varlen_client_abs s) (varlen_client_abs t)"
proof -
  have int: "\<exists>t. varlen_producer_step pf n s = Inr t \<and> varlen_client_inv n t \<and>
      stream_step (unat n) (varlen_client_abs s) (varlen_client_abs t)"
    if "\<exists>t. varlen_producer_step pf n s = Inr t \<and> varlen_client_inv n t \<and>
      varlen_client_abs t = varlen_client_abs s"
    using that by (metis stream_step.internal)
  show ?thesis
  proof (cases "vs_ppc s")
    case vp_loop
    show ?thesis by (rule int [OF vproducer_loop [OF inv vp_loop]])
  next
    case vp_full
    then show ?thesis
      using inv by (intro int) (auto simp: varlen_producer_step_def varlen_client_defs)
  next
    case (vp_wait wake)
    then show ?thesis
      using inv by (intro int) (auto simp: varlen_producer_step_def varlen_client_defs)
  next
    case (vp_fill p pos)
    show ?thesis by (rule int [OF vproducer_fill [OF inv vp_fill]])
  next
    case (vp_commit pos)
    show ?thesis by (rule vproducer_commit [OF inv vp_commit])
  next
    case vp_finish
    let ?t = "s\<lparr>vs_done := True, vs_ppc := vp_exit\<rparr>"
    have "stream_step (unat n) (varlen_client_abs s) (varlen_client_abs ?t)"
      by (rule stream_closeI) (use inv vp_finish in \<open>auto simp: varlen_client_defs\<close>)
    then show ?thesis
      using inv vp_finish by (auto simp: varlen_producer_step_def varlen_client_defs)
  next
    case vp_exit
    then show ?thesis using inv by (intro int) (auto simp: varlen_producer_step_def)
  qed
qed


section \<open>The consumer refines the abstract machine\<close>

lemma same_ring_producer:
  assumes "same_ring (vs_seg s) g" "vproducer_inv n s" "varlen_inv 0 (vs_writer s) g"
    and "vs_i t = vs_i s" "vs_ppc t = vs_ppc s" "vs_done t = vs_done s" "vs_writer t = vs_writer s" "vs_seg t = g"
  shows "vproducer_inv n t"
proof -
  have "potential g = potential (vs_seg s)" using assms(1) by (simp add: potential_def same_ring_def)
  moreover have "needed_bytes l g = needed_bytes l (vs_seg s)" for l
    using assms(1) by (simp add: needed_bytes_def same_ring_def)
  moreover have "reserved_payload l g = reserved_payload l (vs_seg s)" for l
    using assms(1) by (simp add: reserved_payload_def same_ring_def)
  ultimately show ?thesis
    using assms unfolding vproducer_inv_def
    by (auto simp: same_ring_def reserved_state_def split: vproducer_pc.splits)
qed

lemma genuine_length: "genuine (pl, mt) \<Longrightarrow> length pl \<le> 31"
  using stream_len_bounds(2) by (auto simp: genuine_def stream_message_def stream_bytes_def)

text \<open>The arguments of the example's call of \<open>read\<close>.\<close>

abbreviation stream_out :: "varlen_client \<Rightarrow> read_out" where
  "stream_out s \<equiv> \<lparr>out_buf = Some (vs_buffer s), out_size = Some 0, out_meta = Some default_meta\<rparr>"

lemma stream_read:
  assumes inv: "varlen_client_inv n s"
  obtains (none) g where "varlen_read_copy (vs_reader s) (vs_seg s) 512 (stream_out s) = Inr (False, stream_out s, g)"
      and "varlen_contents (vs_seg s) = []" "varlen_contents g = []"
      and "same_ring (vs_seg s) g" "varlen_inv 0 (vs_writer s) g"
  | (some) g pl mt ms where "varlen_read_copy (vs_reader s) (vs_seg s) 512 (stream_out s) =
        Inr (True, \<lparr>out_buf = Some (pl @ drop (length pl) (vs_buffer s)),
          out_size = Some (word_of_nat (length pl)), out_meta = Some mt\<rparr>, g)"
      and "varlen_contents (vs_seg s) = (pl, mt) # ms" "varlen_contents g = ms" "length pl \<le> 31"
      and "same_ring (vs_seg s) g" "varlen_inv 0 (vs_writer s) g"
proof -
  note D = varlen_client_invD [OF inv]
  have b: "unat (512 :: u32) \<le> length (vs_buffer s)" using D(6) by (simp add: vconsumer_inv_def)
  obtain g where g: "varlen_inv 0 (vs_writer s) g"
    and G: "case varlen_contents (vs_seg s) of
       [] \<Rightarrow> varlen_read_copy (vs_reader s) (vs_seg s) 512 (stream_out s) = Inr (False, stream_out s, g) \<and>
         varlen_contents g = []
     | (pl, mt) # ms \<Rightarrow>
         if length pl \<le> unat (512 :: u32)
         then varlen_read_copy (vs_reader s) (vs_seg s) 512 (stream_out s) =
             Inr (True, \<lparr>out_buf = Some (pl @ drop (length pl) (vs_buffer s)),
               out_size = Some (word_of_nat (length pl)), out_meta = Some mt\<rparr>, g) \<and>
           varlen_contents g = ms
         else varlen_read_copy (vs_reader s) (vs_seg s) 512 (stream_out s) =
             Inr (False, \<lparr>out_buf = Some (vs_buffer s),
               out_size = Some (word_of_nat (length pl)), out_meta = Some mt\<rparr>, g) \<and>
           varlen_contents g = varlen_contents (vs_seg s)"
    using varlen_read_copy_law [OF D(1,2) b refl, of 0 default_meta] by blast
  show thesis
  proof (cases "varlen_contents (vs_seg s)")
    case Nil
    with G have r: "varlen_read_copy (vs_reader s) (vs_seg s) 512 (stream_out s) = Inr (False, stream_out s, g)"
      "varlen_contents g = []" by simp_all
    show thesis
      by (rule none [OF r(1) Nil r(2) varlen_read_same_ring [OF r(1) [unfolded varlen_read_copy_def]] g])
  next
    case (Cons m ms)
    obtain pl mt where m: "m = (pl, mt)" by fastforce
    have l: "length pl \<le> 31"
      using D(6) Cons m genuine_length by (auto simp: vconsumer_inv_def)
    with G Cons m have r: "varlen_read_copy (vs_reader s) (vs_seg s) 512 (stream_out s) =
        Inr (True, \<lparr>out_buf = Some (pl @ drop (length pl) (vs_buffer s)),
          out_size = Some (word_of_nat (length pl)), out_meta = Some mt\<rparr>, g)"
      "varlen_contents g = ms" by simp_all
    show thesis
      by (rule some [OF r(1) Cons [unfolded m] r(2) l varlen_read_same_ring [OF r(1) [unfolded varlen_read_copy_def]] g])
  qed
qed

lemma same_ring_capacity: "same_ring s g \<Longrightarrow> capacity_of g = capacity_of s"
  by (simp add: same_ring_def)

lemma vconsumer_loop:
  assumes inv: "varlen_client_inv n s" and pc: "vs_cpc s = vc_loop"
  shows "\<exists>t. varlen_consumer_step pf s = Inr t \<and> varlen_client_inv n t \<and>
    stream_step (unat n) (varlen_client_abs s) (varlen_client_abs t)"
proof (cases rule: stream_read [OF inv, case_names none some])
  case (none g)
  note D = varlen_client_invD [OF inv]
  let ?t = "s\<lparr>vs_seg := g, vs_cpc := vc_empty\<rparr>"
  have "varlen_consumer_step pf s = Inr ?t" using pc none(1) by (simp add: varlen_consumer_step_def)
  moreover have "vproducer_inv n ?t" by (rule same_ring_producer [OF none(4) D(5) none(5)]) simp_all
  moreover have "vconsumer_inv ?t" using D(6) none pc by (simp add: vconsumer_inv_def)
  ultimately show ?thesis
    using D(2-4) none pc same_ring_capacity [OF none(4)]
    by (auto simp: varlen_client_inv_def varlen_client_abs_def varlen_client_queue_def intro: stream_step.internal)
next
  case (some g pl mt ms)
  note D = varlen_client_invD [OF inv]
  let ?t = "s\<lparr>vs_seg := g, vs_buffer := pl @ drop (length pl) (vs_buffer s),
    vs_mismatches := vs_mismatches s + (if user_data mt \<noteq> vs_drained s then 1 else 0),
    vs_drained := vs_drained s + 1\<rparr>"
  have st: "varlen_consumer_step pf s = Inr ?t" using pc some(1) by (simp add: varlen_consumer_step_def)
  have dl: "vs_drained s < vs_i s" "vs_mismatches s < vs_i s"
    using D(6) some(2) by (simp_all add: vconsumer_inv_def word_less_nat_alt)
  note u = unat_suc_u64 [OF dl(1)] unat_suc_u64 [OF dl(2)]
  have "vproducer_inv n ?t" by (rule same_ring_producer [OF some(5) D(5) some(6)]) simp_all
  moreover have "vconsumer_inv ?t"
    using D(6) some(2-4) u by (auto simp: vconsumer_inv_def)
  ultimately have "varlen_client_inv n ?t"
    using D(2-4) some(6) same_ring_capacity [OF some(5)] by (simp add: varlen_client_inv_def)
  moreover have "stream_step (unat n) (varlen_client_abs s) (varlen_client_abs ?t)"
    by (rule stream_getI [of _ "unat (user_data mt)" "varlen_client_queue ?t"])
      (use some(2,3) u pc in \<open>auto simp: varlen_client_abs_def varlen_client_queue_def word_unat_eq_iff\<close>)
  ultimately show ?thesis using st by blast
qed

lemma varlen_cstep_law:
  assumes inv: "varlen_client_inv n s"
  shows "\<exists>t. varlen_consumer_step pf s = Inr t \<and> varlen_client_inv n t \<and>
    stream_step (unat n) (varlen_client_abs s) (varlen_client_abs t)"
proof (cases "vs_cpc s")
  case vc_loop
  show ?thesis by (rule vconsumer_loop [OF inv vc_loop])
next
  case vc_empty
  show ?thesis
  proof (cases "vs_done s")
    case True
    let ?t = "s\<lparr>vs_cpc := vc_exit\<rparr>"
    have "stream_step (unat n) (varlen_client_abs s) (varlen_client_abs ?t)"
      by (rule stream_leaveI) (use True in \<open>simp_all add: varlen_client_abs_def varlen_client_queue_def\<close>)
    then show ?thesis
      using inv vc_empty True by (auto simp: varlen_consumer_step_def varlen_client_defs split: vproducer_pc.splits)
  next
    case False
    then show ?thesis
      using inv vc_empty stream_step.internal
      by (auto simp: varlen_consumer_step_def varlen_client_defs split: vproducer_pc.splits)
  qed
qed (use inv stream_step.internal in
    \<open>auto simp: varlen_consumer_step_def varlen_client_defs split: vproducer_pc.splits\<close>)


interpretation varlen_stream: stream_refinement
  "unat n" "varlen_client_inv n" varlen_client_abs "varlen_producer_step pf n" "varlen_consumer_step pf"
  for n :: u64 and pf :: platform
  by unfold_locales (rule varlen_pstep_law varlen_cstep_law, assumption)+


section \<open>Both threads finish\<close>

text \<open>A read moves the consumer front, and moves it on whenever it hands out or skips a slot.\<close>

lemma varlen_read_advances:
  assumes "varlen_published s" "data_ptr r = sizeof_control_block"
    and "varlen_read handler r h s = Inr (ok, h', t)"
  shows "unat (rpos s) \<le> unat (rpos t) \<and>
    (varlen_slots s \<noteq> [] \<and> (ok \<or> varlen_contents s = []) \<longrightarrow> unat (rpos s) < unat (rpos t))"
  using assms
proof (induction "varlen_slots s" arbitrary: s)
  case Nil
  then show ?case using varlen_read_none [OF Nil.prems(1) Nil.hyps [symmetric], of handler r h] by auto
next
  case (Cons v vs)
  note vs = Cons.hyps(2) [symmetric] and K = skipped_published [OF Cons.prems(1) Cons.hyps(2) [symmetric]]
  have "slot_at (data_bytes s) (capacity_of s) (unat (rpos s)) v"
    using varlen_publishedD(2) [OF Cons.prems(1)] vs by simp
  note pos = slot_at_sizes(1) [OF this]
  show ?case
  proof (cases v)
    case (Pad k)
    have "varlen_read handler r h (skipped_segment (vsize v) s) = Inr (ok, h', t)"
      using Cons.prems(3) varlen_read_pad [OF Cons.prems(1) vs [unfolded Pad] Cons.prems(2), of handler h] Pad by simp
    from Cons.hyps(1) [OF K(2) [symmetric] K(1) Cons.prems(2) this] show ?thesis using K(4) pos by simp
  next
    case (Msg k pl mt)
    then have "varlen_contents s \<noteq> []" using vs by (simp add: varlen_contents_def)
    moreover have "t = (if ok then skipped_segment (vsize v) s else s)"
      using Cons.prems(3) varlen_read_msg [OF Cons.prems(1) vs [unfolded Msg] Cons.prems(2), of handler h] Msg
      by (auto simp: res_bind_eq_Inr)
    ultimately show ?thesis using K(4) pos by simp
  qed
qed

definition varlen_client_finished :: "varlen_client \<Rightarrow> bool" where
  "varlen_client_finished s \<longleftrightarrow> vs_ppc s = vp_exit \<and> vs_cpc s = vc_exit"

text \<open>
  The three fronts only move forward and stay below a bound fixed by the number of messages; the
  work left is what they can still move, the flag and the consumer's return.
\<close>

definition front_bound :: "u64 \<Rightarrow> varlen_client \<Rightarrow> nat" where
  "front_bound n s = (unat n + 1) * (2 * capacity_of (vs_seg s))"

definition varlen_client_work :: "u64 \<Rightarrow> varlen_client \<Rightarrow> nat" where
  "varlen_client_work n s =
     (front_bound n s - unat (rpos (vs_seg s))) + (front_bound n s - unat (cpos (vs_seg s))) +
     (front_bound n s - unat (wpos (vs_seg s))) + (if vs_done s then 0 else 1) +
     (if vs_cpc s = vc_exit then 0 else 1)"

definition unread :: "varlen_client \<Rightarrow> bool" where
  "unread s \<longleftrightarrow> rpos (vs_seg s) \<noteq> cpos (vs_seg s)"

definition varlen_helpful :: "varlen_client \<Rightarrow> thread" where
  "varlen_helpful s = (if unread s \<or> vs_ppc s = vp_exit then consumer else producer)"

primrec vproducer_left :: "vproducer_pc \<Rightarrow> nat" where
  "vproducer_left vp_full = 5" | "vproducer_left (vp_wait x) = 4" | "vproducer_left vp_loop = 3"
| "vproducer_left (vp_fill p pos) = 2" | "vproducer_left (vp_commit pos) = 1" | "vproducer_left vp_finish = 0"
| "vproducer_left vp_exit = 0"

primrec vconsumer_left :: "bool \<Rightarrow> vconsumer_pc \<Rightarrow> nat" where
  "vconsumer_left some vc_empty = (if some then 4 else 0)"
| "vconsumer_left some vc_seq = 3"
| "vconsumer_left some (vc_wait x) = 2"
| "vconsumer_left some vc_loop = 1"
| "vconsumer_left some vc_exit = 0"

definition varlen_client_rank :: "varlen_client \<Rightarrow> nat" where
  "varlen_client_rank s =
     (case varlen_helpful s of
        producer \<Rightarrow> vproducer_left (vs_ppc s)
      | consumer \<Rightarrow> vconsumer_left (unread s) (vs_cpc s))"

lemma varlen_client_fronts:
  assumes "varlen_client_inv n s"
  shows "unat (rpos (vs_seg s)) \<le> unat (cpos (vs_seg s))" "unat (cpos (vs_seg s)) \<le> unat (wpos (vs_seg s))"
    and "unat (wpos (vs_seg s)) \<le> front_bound n s"
proof -
  note D = varlen_client_invD [OF assms]
  let ?c = "2 * capacity_of (vs_seg s)" and ?k = "unat (vs_i s) + (if vpending (vs_writer s) then 1 else 0)"
  show "unat (rpos (vs_seg s)) \<le> unat (cpos (vs_seg s))" "unat (cpos (vs_seg s)) \<le> unat (wpos (vs_seg s))"
    using varlen_invD(5,6) [OF D(1)] .
  have "unat (wpos (vs_seg s)) \<le> ?k * ?c" "?k \<le> unat n + 1"
    using D(5) by (auto simp: vproducer_inv_def potential_def word_le_nat_alt split: if_splits)
  moreover from this(2) have "?k * ?c \<le> (unat n + 1) * ?c" by (rule mult_right_mono) simp
  ultimately show "unat (wpos (vs_seg s)) \<le> front_bound n s" unfolding front_bound_def by linarith
qed

text \<open>A step that moves a front is progress.\<close>

lemma varlen_work_less:
  assumes s: "varlen_client_inv n s" and t: "varlen_client_inv n t"
    and "data_capacity (hdr (vs_seg t)) = data_capacity (hdr (vs_seg s))"
    and "vs_done s = vs_done t" "vs_cpc s = vc_exit \<longleftrightarrow> vs_cpc t = vc_exit"
    and "unat (rpos (vs_seg s)) \<le> unat (rpos (vs_seg t))" "unat (cpos (vs_seg s)) \<le> unat (cpos (vs_seg t))"
    and "unat (wpos (vs_seg s)) \<le> unat (wpos (vs_seg t))"
    and "unat (rpos (vs_seg s)) + unat (cpos (vs_seg s)) + unat (wpos (vs_seg s)) <
      unat (rpos (vs_seg t)) + unat (cpos (vs_seg t)) + unat (wpos (vs_seg t))"
  shows "varlen_client_work n t < varlen_client_work n s"
proof -
  have "front_bound n t = front_bound n s" using assms(3) by (simp add: front_bound_def)
  then show ?thesis
    using varlen_client_fronts [OF t] assms(4-9) unfolding varlen_client_work_def by auto
qed

lemma varlen_reserve_moves:
  assumes inv: "varlen_client_inv n s" and pc: "vs_ppc s = vp_loop" and lt: "vs_i s < n"
    and st: "varlen_producer_step pf n s = Inr t"
  shows "varlen_client_work n t < varlen_client_work n s \<or> unread s \<and> t = s\<lparr>vs_ppc := vp_full\<rparr>"
proof -
  let ?g = "vs_seg s" and ?w = "vs_writer s" and ?l = "stream_len (vs_i s)"
  let ?n = "needed_bytes ?l ?g" and ?c = "capacity_of (vs_seg s)"
  let ?b = "reserve_base (unat ?n) ?g"
  have it: "varlen_client_inv n t" using varlen_pstep_law [OF inv, of pf] st by auto
  have idle: "\<not> vpending ?w" using varlen_client_invD(5) [OF inv] pc by (simp add: vproducer_inv_def)
  note S = stream_slot(1) [OF inv idle lt] stream_slot(2,3) [OF inv idle lt, of "vs_i s"]
  have I: "varlen_inv (0 + 2 * ?c) ?w ?g" "varlen_inv (?c + ?c) ?w ?g" using S(1) by (simp_all add: mult_2)
  note E = varlen_try_reserve_eq [OF I(1) idle, of ?l "stream_meta (vs_i s)"]
  note W = varlen_invD(9) [OF I(1) idle] and F = varlen_client_fronts [OF inv]
  have cb: "cpos ?b = wpos ?b" by (rule reserve_base_idle [OF I(2) idle])
  have wb: "unat (wpos ?g) \<le> unat (wpos ?b)" using padded_wpos(1) [OF I(2)] by (simp add: reserve_base_def)
  consider (A) "?c < unat (wpos ?g) - unat (rpos ?g) + unat ?n"
    | (B) "unat (wpos ?g) - unat (rpos ?g) + unat ?n \<le> ?c" "?c < unat (wpos ?b) - unat (rpos ?g) + unat ?n"
    | (C) "unat (wpos ?g) - unat (rpos ?g) + unat ?n \<le> ?c" "unat (wpos ?b) - unat (rpos ?g) + unat ?n \<le> ?c"
    by linarith
  then show ?thesis
  proof cases
    case A
    with S(3) E have "varlen_try_reserve ?w ?g ?l (stream_meta (vs_i s)) = Some (Inr (reserve_failed rs_full, ?w, ?g))"
      by (simp only: not_less [symmetric] if_False if_True)
    then have "t = s\<lparr>vs_ppc := vp_full\<rparr>"
      using st pc lt by (simp add: varlen_producer_step_def reserve_failed_def)
    moreover have "unread s" using A S(3) W by (auto simp: unread_def)
    ultimately show ?thesis by simp
  next
    case B
    with S(3) E have "varlen_try_reserve ?w ?g ?l (stream_meta (vs_i s)) = Some (Inr (reserve_failed rs_full, ?w, ?b))"
      by (simp only: not_less [symmetric] if_False if_True)
    then have t: "t = s\<lparr>vs_seg := ?b, vs_ppc := vp_full\<rparr>"
      using st pc lt by (simp add: varlen_producer_step_def reserve_failed_def)
    have "varlen_client_work n t < varlen_client_work n s"
      by (rule varlen_work_less [OF inv it]) (use B cb wb W in \<open>simp_all add: t\<close>)
    then show ?thesis by simp
  next
    case C
    let ?h = "headed_segment ?n ?l (stream_meta (vs_i s)) ?b"
    have t: "t = s\<lparr>vs_writer := headed_writer ?w ?b, vs_seg := ?h,
        vs_ppc := vp_fill (payload (headed_result ?b)) (position (headed_result ?b))\<rparr>"
      using st pc lt E S(3) C by (simp add: varlen_producer_step_def headed_result_def)
    have i1: "varlen_inv (0 + capacity_of ?b) ?w ?b"
      using reserve_base_keeps(1) [OF I(2) idle C(1)] by simp
    have wh: "unat (wpos ?h) = unat (wpos ?b) + unat ?n" using headed_wpos [OF i1] S(3) by simp
    have n: "0 < unat ?n" using needed_bytes_bounds(1) [OF varlen_invD(1) [OF I(1)] S(2)] by simp
    have "varlen_client_work n t < varlen_client_work n s"
      by (rule varlen_work_less [OF inv it]) (use cb wb wh n W in \<open>simp_all add: t\<close>)
    then show ?thesis by simp
  qed
qed

lemma store_bytes_fronts:
  assumes "store_bytes g p bs = Inr g'"
  shows "rpos g' = rpos g" "cpos g' = cpos g" "wpos g' = wpos g" "hdr g' = hdr g"
  using assms by (auto simp: store_bytes_def split: if_splits)

lemma varlen_producer_moves:
  assumes pf: "honours_timeout pf" and inv: "varlen_client_inv n s" and st: "varlen_producer_step pf n s = Inr t"
  shows "varlen_client_work n t < varlen_client_work n s \<or>
    varlen_client_work n t = varlen_client_work n s \<and> unread t = unread s \<and> vs_cpc t = vs_cpc s \<and>
    (vs_ppc t = vp_exit \<longleftrightarrow> vs_ppc s = vp_exit) \<and>
    (vs_ppc s \<noteq> vp_exit \<and> \<not> unread s \<longrightarrow> vproducer_left (vs_ppc t) < vproducer_left (vs_ppc s))"
proof -
  note D = varlen_client_invD [OF inv]
  have it: "varlen_client_inv n t" using varlen_pstep_law [OF inv, of pf] st by auto
  show ?thesis
  proof (cases "vs_ppc s")
    case vp_loop
    show ?thesis
    proof (cases "vs_i s < n")
      case True
      from varlen_reserve_moves [OF inv vp_loop True st] show ?thesis
        by (auto simp: varlen_client_work_def front_bound_def unread_def vp_loop)
    qed (use st vp_loop in \<open>auto simp: varlen_producer_step_def varlen_client_work_def front_bound_def unread_def\<close>)
  next
    case (vp_fill p pos)
    then show ?thesis
      using st by (auto simp: varlen_producer_step_def res_bind_eq_Inr varlen_client_work_def front_bound_def
        unread_def store_bytes_fronts split: option.splits)
  next
    case (vp_commit pos)
    let ?l = "stream_len (vs_i s)" and ?w = "(vs_writer s)\<lparr>vpending := False\<rparr>"
    let ?n = "needed_bytes ?l (vs_seg s)"
    have P: "pos = cpos (vs_seg s)" and R: "reserved_state ?n ?l (stream_meta (vs_i s))
        (varlen_slots (vs_seg s)) 0 (vs_writer s) (vs_seg s)"
      using D(5) vp_commit by (auto simp: vproducer_inv_def)
    note C = varlen_commit_eq [OF R]
    have t: "t = s\<lparr>vs_writer := ?w, vs_seg := committed_segment ?n (vs_seg s), vs_i := vs_i s + 1, vs_ppc := vp_loop\<rparr>"
      using st vp_commit P C(1) by (simp add: varlen_producer_step_def)
    have "unat (cpos (vs_seg s)) < unat (wpos (vs_seg s))" using R by (simp add: reserved_state_def)
    then have "varlen_client_work n t < varlen_client_work n s"
      by (intro varlen_work_less [OF inv it]) (use varlen_invD(9) [OF C(2)] in \<open>simp_all add: t\<close>)
    then show ?thesis by simp
  next
    case vp_finish
    then have "\<not> vs_done s" using D(5) by (simp add: vproducer_inv_def)
    then show ?thesis
      using st vp_finish by (auto simp: varlen_producer_step_def varlen_client_work_def front_bound_def)
  qed (use st pf in \<open>auto simp: varlen_producer_step_def wait_returns_def varlen_client_work_def front_bound_def
    unread_def\<close>)
qed

lemma unread_slots:
  assumes "varlen_client_inv n s"
  shows "unread s \<longleftrightarrow> varlen_slots (vs_seg s) \<noteq> []"
proof -
  note P = varlen_inv_published [OF varlen_client_invD(1) [OF assms]]
  show ?thesis
  proof (cases "varlen_slots (vs_seg s)")
    case Nil
    then show ?thesis using varlen_publishedD(2) [OF P] by (simp add: unread_def word_unat_eq_iff)
  next
    case (Cons v vs)
    have "slot_at (data_bytes (vs_seg s)) (capacity_of (vs_seg s)) (unat (rpos (vs_seg s))) v"
      using varlen_publishedD(2) [OF P] Cons by simp
    then show ?thesis using skipped_published(3) [OF P Cons] slot_at_sizes(1) Cons by (fastforce simp: unread_def)
  qed
qed

lemma varlen_take_moves:
  assumes inv: "varlen_client_inv n s" and pc: "vs_cpc s = vc_loop" and st: "varlen_consumer_step pf s = Inr t"
  shows "varlen_client_work n t < varlen_client_work n s \<or> \<not> unread s \<and> t = s\<lparr>vs_cpc := vc_empty\<rparr>"
proof -
  have it: "varlen_client_inv n t" using varlen_cstep_law [OF inv, of pf] st by auto
  note P = varlen_inv_published [OF varlen_client_invD(1) [OF inv]] and R = varlen_client_invD(2) [OF inv]
  show ?thesis
  proof (cases "unread s")
    case False
    then have "varlen_read_copy (vs_reader s) (vs_seg s) 512 (stream_out s) = Inr (False, stream_out s, vs_seg s)"
      using varlen_read_none [OF P] unread_slots [OF inv] by (simp add: varlen_read_copy_def)
    with False show ?thesis using st pc by (simp add: varlen_consumer_step_def)
  next
    case True
    then have v: "varlen_slots (vs_seg s) \<noteq> []" using unread_slots [OF inv] by simp
    note A = varlen_read_advances [OF P R]
    have "varlen_client_work n t < varlen_client_work n s"
    proof (cases rule: stream_read [OF inv, case_names none some])
      case (none g)
      have "t = s\<lparr>vs_seg := g, vs_cpc := vc_empty\<rparr>" using st pc none(1) by (simp add: varlen_consumer_step_def)
      then show ?thesis
        using A [OF none(1) [unfolded varlen_read_copy_def]] v none(2,4) pc
        by (intro varlen_work_less [OF inv it]) (simp_all add: same_ring_def)
    next
      case (some g pl mt ms)
      have "vs_seg t = g" "vs_cpc t = vc_loop" "vs_done t = vs_done s"
        using st pc some(1) by (auto simp: varlen_consumer_step_def)
      then show ?thesis
        using A [OF some(1) [unfolded varlen_read_copy_def]] v some(5) pc
        by (intro varlen_work_less [OF inv it]) (simp_all add: same_ring_def)
    qed
    then show ?thesis by simp
  qed
qed

lemma varlen_consumer_moves:
  assumes pf: "honours_timeout pf" and inv: "varlen_client_inv n s" and st: "varlen_consumer_step pf s = Inr t"
  shows "varlen_client_work n t < varlen_client_work n s \<or>
    varlen_client_work n t = varlen_client_work n s \<and> unread t = unread s \<and> vs_ppc t = vs_ppc s \<and>
    ((unread s \<or> vs_done s) \<and> vs_cpc s \<noteq> vc_exit \<longrightarrow>
      vconsumer_left (unread s) (vs_cpc t) < vconsumer_left (unread s) (vs_cpc s))"
proof (cases "vs_cpc s")
  case vc_loop
  from varlen_take_moves [OF inv vc_loop st] show ?thesis
    by (auto simp: varlen_client_work_def front_bound_def unread_def vc_loop)
qed (use st pf in \<open>auto simp: varlen_consumer_step_def wait_returns_def varlen_client_work_def front_bound_def
  unread_def\<close>)

lemma varlen_fair_law:
  assumes pf: "honours_timeout pf" and inv: "varlen_client_inv n s" and go: "\<not> varlen_client_finished s"
    and t: "thread_step (varlen_producer_step pf n) (varlen_consumer_step pf) th s = Inr t"
  shows "varlen_client_work n t < varlen_client_work n s \<or>
    varlen_client_work n t = varlen_client_work n s \<and> varlen_helpful t = varlen_helpful s \<and>
    (if th = varlen_helpful s then varlen_client_rank t < varlen_client_rank s
     else varlen_client_rank t \<le> varlen_client_rank s)"
proof -
  have e: "vs_done s \<longleftrightarrow> vs_ppc s = vp_exit" "vs_cpc s = vc_exit \<Longrightarrow> vs_done s"
    using varlen_client_invD(5,6) [OF inv] by (simp_all add: vproducer_inv_def vconsumer_inv_def)
  show ?thesis
  proof (cases th)
    case producer
    then have st: "varlen_producer_step pf n s = Inr t" using t by simp
    from varlen_producer_moves [OF pf inv st] producer show ?thesis
      by (auto simp: varlen_client_rank_def varlen_helpful_def)
  next
    case consumer
    then have st: "varlen_consumer_step pf s = Inr t" using t by simp
    have "vs_cpc s \<noteq> vc_exit" using e go by (auto simp: varlen_client_finished_def)
    with varlen_consumer_moves [OF pf inv st] consumer e(1) show ?thesis
      by (auto simp: varlen_client_rank_def varlen_helpful_def)
  qed
qed

interpretation varlen_progress: stream_fair
  "unat n" "\<lambda>s. honours_timeout pf \<and> varlen_client_inv n s" varlen_client_abs
  "varlen_producer_step pf n" "varlen_consumer_step pf"
  varlen_client_finished "varlen_client_work n" varlen_helpful varlen_client_rank for n :: u64 and pf :: platform
proof unfold_locales
  fix s t :: varlen_client and th :: thread
  assume inv: "honours_timeout pf \<and> varlen_client_inv n s"
  show "\<exists>t. varlen_producer_step pf n s = Inr t \<and> (honours_timeout pf \<and> varlen_client_inv n t) \<and>
      stream_step (unat n) (varlen_client_abs s) (varlen_client_abs t)" using varlen_stream.pstep_law inv by blast
  show "\<exists>t. varlen_consumer_step pf s = Inr t \<and> (honours_timeout pf \<and> varlen_client_inv n t) \<and>
      stream_step (unat n) (varlen_client_abs s) (varlen_client_abs t)" using varlen_stream.cstep_law inv by blast
  assume go: "\<not> varlen_client_finished s"
  note law = varlen_fair_law [OF conjunct1 [OF inv] conjunct2 [OF inv] go]
  show "varlen_client_work n t < varlen_client_work n s \<or> varlen_client_work n t = varlen_client_work n s \<and>
      varlen_helpful t = varlen_helpful s \<and> varlen_client_rank t < varlen_client_rank s"
    if "thread_step (varlen_producer_step pf n) (varlen_consumer_step pf) (varlen_helpful s) s = Inr t"
    using law [OF that] by simp
  show "varlen_client_work n t < varlen_client_work n s \<or> varlen_client_work n t = varlen_client_work n s \<and>
      varlen_helpful t = varlen_helpful s \<and> varlen_client_rank t \<le> varlen_client_rank s"
    if "th \<noteq> varlen_helpful s" "thread_step (varlen_producer_step pf n) (varlen_consumer_step pf) th s = Inr t"
    using law [OF that(2)] that(1) by simp
qed


section \<open>Delivery in order\<close>

lemma varlen_client_open_start:
  assumes op: "varlen_client_open arena cap alignment = Some s" and al: "8 \<le> alignment" and c: "128 \<le> cap"
    and len: "unat cap \<le> length (data_bytes arena)"
      "unat cap + 32 \<le> length (data_bytes arena) + unat alignment"
    and n: "(unat n + 1) * (2 * unat cap) < 2 ^ 64"
  shows "varlen_client_inv n s" "varlen_client_abs s = new_stream"
proof -
  obtain w r g where o: "varlen_ring_open arena cap alignment = Some (w, r, g)"
    and s: "s = \<lparr>vs_seg = g, vs_writer = w, vs_reader = r, vs_i = 0, vs_ppc = vp_loop, vs_done = False,
        vs_cpc = vc_loop, vs_drained = 0, vs_mismatches = 0, vs_buffer = replicate 512 0\<rparr>"
    using op by (auto simp: varlen_client_open_def)
  note I = varlen_ring_open_inv(1) [OF o al len, of 0 512] varlen_ring_open_inv(2) [OF o al len, of 0]
  have g: "data_capacity (hdr g) = cap" "wpos g = 0"
    using o by (auto simp: varlen_ring_open_def init_control_block_def Let_def split: if_splits)
  have "varlen_contents g = []" using I(2) by (simp add: varlen_chan_contents_def)
  moreover have "varlen_inv 0 w g" "\<not> vpending w" "data_ptr r = sizeof_control_block"
    using I(1) by (simp_all add: varlen_chan_inv_def)
  moreover have "128 \<le> unat cap" using c by (simp add: word_le_nat_alt)
  ultimately show "varlen_client_inv n s" "varlen_client_abs s = new_stream"
    using n g by (simp_all add: s varlen_client_defs potential_def new_stream_def)
qed

text \<open>Whole messages, not only their numbers.\<close>

lemma genuine_contents:
  assumes "list_all genuine ms" "map (\<lambda>m. unat (user_data (snd m))) ms = ks"
  shows "ms = map (\<lambda>k. stream_message (word_of_nat k)) ks"
proof -
  have "map (\<lambda>k. stream_message (word_of_nat k)) ks = map (\<lambda>m. stream_message (user_data (snd m))) ms"
    using assms(2) by (auto simp: o_def)
  also have "\<dots> = map (\<lambda>m. m) ms"
    using assms(1) by (intro map_cong) (auto simp: list_all_iff genuine_def)
  finally show ?thesis by simp
qed

text \<open>
  C16: The example's variable-length channel under every schedule of its two threads and on every platform, on an arena
  that leaves room for a padding header at the end: no access is out of bounds, no mismatch is
  ever counted, the ring holds exactly the messages sent and not yet drained, in order and
  byte for byte with their metadata, and the consumer leaves only after the producer has sent
  everything. The bound on \<open>n\<close> keeps the 64-bit positions from wrapping.
\<close>

theorem varlen_stream_in_order:
  assumes "varlen_client_open arena cap alignment = Some s" "8 \<le> alignment" "128 \<le> cap"
    and "unat cap \<le> length (data_bytes arena)"
    and "unat cap + 32 \<le> length (data_bytes arena) + unat alignment"
    and "(unat n + 1) * (2 * unat cap) < 2 ^ 64"
  shows "\<exists>t. run_threads (varlen_producer_step pf n) (varlen_consumer_step pf) ts s = Inr t \<and>
    vs_mismatches t = 0 \<and> vs_drained t \<le> vs_i t \<and> vs_i t \<le> n \<and>
    varlen_contents (vs_seg t) =
      map (\<lambda>k. stream_message (word_of_nat k)) [unat (vs_drained t)..<unat (vs_i t)] \<and>
    (vs_cpc t = vc_exit \<longrightarrow> vs_i t = n)"
proof -
  note S = varlen_client_open_start [OF assms]
  obtain t where t: "run_threads (varlen_producer_step pf n) (varlen_consumer_step pf) ts s = Inr t"
    "varlen_client_inv n t" "stream_inv (unat n) (varlen_client_abs t)"
    using varlen_stream.run_refines [OF S(1), of pf ts] S(2) by (auto simp: stream_inv_start)
  note D = varlen_client_invD [OF t(2)]
  have "varlen_contents (vs_seg t) =
      map (\<lambda>k. stream_message (word_of_nat k)) [unat (vs_drained t)..<unat (vs_i t)]"
    using D(6) t(3)
    by (intro genuine_contents) (simp_all add: vconsumer_inv_def stream_inv_def varlen_client_abs_def varlen_client_queue_def)
  moreover have "vs_i t = n" if "vs_cpc t = vc_exit"
    using D(5,6) that by (auto simp: vconsumer_inv_def vproducer_inv_def)
  moreover have "vs_mismatches t = 0" "vs_drained t \<le> vs_i t"
    using t(3) by (simp_all add: stream_inv_def varlen_client_abs_def word_le_nat_alt unat_eq_zero)
  moreover have "vs_i t \<le> n" using D(5) by (simp add: vproducer_inv_def)
  ultimately show ?thesis using t(1) by blast
qed

lemma varlen_open_4096:
  obtains w and r :: varlen_reader and g where "varlen_ring_open (fresh_segment k) 4096 8 = Some (w, r, g)"
    and "\<not> vpending w" "data_ptr w = sizeof_control_block" "data_ptr r = sizeof_control_block"
    and "data_capacity (hdr g) = 4096" "data_alignment (hdr g) = 8" "length (data_bytes g) = k"
    and "wpos g = 0" "cpos g = 0" "rpos g = 0"
proof -
  let ?g = "(fresh_segment k)\<lparr>hdr := snd (init_control_block (hdr (fresh_segment k)) 4096 layout_varlen 8 0)\<rparr>"
  have v: "is_valid_data_alignment 8" "(4096 :: u64) mod u64_of_u32 8 = 0"
    by (simp_all add: is_valid_data_alignment_def u64_of_u32_def)
  then have o: "varlen_ring_open (fresh_segment k) 4096 8 = Some (new_varlen_writer ?g, new_ring_view ?g, ?g)"
    by (simp add: varlen_ring_open_def init_control_block_def Let_def)
  show thesis
    by (rule that [OF o])
      (use v in \<open>simp_all add: init_control_block_def new_varlen_writer_def new_ring_view_def
        fresh_segment_def sizeof_control_block_def\<close>)
qed

theorem varlen_stream_in_order_witness:
  "\<exists>s t. varlen_client_open (fresh_segment 4120) 4096 8 = Some s \<and>
    run_threads (varlen_producer_step linux kVarMessages) (varlen_consumer_step linux)
      (concat (replicate 1000 [producer, consumer, producer, producer])) s = Inr t \<and>
    vs_mismatches t = 0 \<and>
    varlen_contents (vs_seg t) =
      map (\<lambda>k. stream_message (word_of_nat k)) [unat (vs_drained t)..<unat (vs_i t)]"
proof -
  obtain w and r :: varlen_reader and g where "varlen_ring_open (fresh_segment 4120) 4096 8 = Some (w, r, g)"
    by (rule varlen_open_4096)
  then obtain s where s: "varlen_client_open (fresh_segment 4120) 4096 8 = Some s"
    by (simp add: varlen_client_open_def)
  from varlen_stream_in_order [OF s, of kVarMessages linux "concat (replicate 1000 [producer, consumer, producer, producer])"]
  show ?thesis using s by (auto simp: fresh_segment_def kVarMessages_def)
qed

text \<open>
  C18: On a platform whose timed wait honours its time-out, and on an arena that leaves room for a
  padding header at the end (which the arena the example allocates does not, see the last section), the
  example's variable-length channel finishes: under every schedule that runs each
  thread again and again, both threads return after finitely many steps, with every message
  sent. In particular a message that only fits after the end of the
  ring has been padded gets in, although the first attempt commits the padding and reports a full
  ring.
\<close>

theorem varlen_stream_finishes:
  assumes "varlen_client_open arena cap alignment = Some s" "8 \<le> alignment" "128 \<le> cap"
    and "unat cap \<le> length (data_bytes arena)"
    and "unat cap + 32 \<le> length (data_bytes arena) + unat alignment"
    and "(unat n + 1) * (2 * unat cap) < 2 ^ 64"
    and "honours_timeout pf" "fair f"
  shows "\<exists>k t. run_threads (varlen_producer_step pf n) (varlen_consumer_step pf) (map f [0..<k]) s = Inr t \<and>
    vs_ppc t = vp_exit \<and> vs_cpc t = vc_exit \<and> vs_i t = n"
proof -
  note S = varlen_client_open_start [OF assms(1-6)]
  obtain k t where t: "run_threads (varlen_producer_step pf n) (varlen_consumer_step pf) (map f [0..<k]) s = Inr t"
    "varlen_client_finished t"
    using varlen_progress.fair_finishes [OF conjI [OF assms(7) S(1)] assms(8)] by blast
  have "vs_i t = n"
    using varlen_stream.run_in_order [OF S, of pf "map f [0..<k]"] t
    by (auto simp: varlen_client_finished_def varlen_client_abs_def word_unat_eq_iff)
  with t show ?thesis by (auto simp: varlen_client_finished_def)
qed

theorem varlen_stream_finishes_witness:
  "\<exists>s k t. varlen_client_open (fresh_segment 4120) 4096 8 = Some s \<and>
    run_threads (varlen_producer_step linux kVarMessages) (varlen_consumer_step linux) (map alternating [0..<k]) s = Inr t \<and>
    vs_ppc t = vp_exit \<and> vs_cpc t = vc_exit \<and> vs_i t = kVarMessages"
proof -
  obtain w and r :: varlen_reader and g where "varlen_ring_open (fresh_segment 4120) 4096 8 = Some (w, r, g)"
    by (rule varlen_open_4096)
  then obtain s where s: "varlen_client_open (fresh_segment 4120) 4096 8 = Some s"
    by (simp add: varlen_client_open_def)
  from varlen_stream_finishes [OF s _ _ _ _ _ _ fair_alternating, of kVarMessages linux]
  show ?thesis using s by (auto simp: fresh_segment_def kVarMessages_def honours_timeout_def)
qed


section \<open>The shipped arena\<close>

text \<open>
  \<open>run_varlen_channel\<close> allocates exactly \<open>kVarCapacity\<close> data bytes and asks for 8-byte alignment,
  so the envelope of the theorem above does not cover it. The slots of the first lap, in bytes:
\<close>

definition lap_slot :: "nat \<Rightarrow> nat" where
  "lap_slot i = (40 + i mod 31) div 8 * 8"

definition lap_front :: "nat \<Rightarrow> nat" where
  "lap_front i = sum_list (map lap_slot [0..<i])"

lemma lap_front_Suc [simp]: "lap_front (Suc i) = lap_front i + lap_slot i"
  by (simp add: lap_front_def)

lemma lap_front_mono: "i \<le> j \<Longrightarrow> lap_front i \<le> lap_front j"
  by (rule lift_Suc_mono_le) simp_all

lemma lap_front_81: "lap_front 81 = 4072"
  by code_simp

lemma lap_slot_needed:
  assumes "i < 82"
  shows "32 + unat (stream_len (word_of_nat i)) \<le> lap_slot i"
    and "data_alignment (hdr s) = 8 \<Longrightarrow> unat (needed_bytes (stream_len (word_of_nat i)) s) = lap_slot i"
proof -
  have "list_all (\<lambda>i. 32 + unat (stream_len (word_of_nat i)) \<le> lap_slot i \<and>
      unat (align_up_u32 (varlen_slot_header_size + stream_len (word_of_nat i)) 8) = lap_slot i) [0..<82]"
    by code_simp
  then show "32 + unat (stream_len (word_of_nat i)) \<le> lap_slot i"
    and "data_alignment (hdr s) = 8 \<Longrightarrow> unat (needed_bytes (stream_len (word_of_nat i)) s) = lap_slot i"
    using assms by (simp_all add: list_all_iff needed_bytes_def)
qed

lemma lap_front_word:
  assumes "unat n = lap_slot k"
  shows "word_of_nat (lap_front k) + u64_of_u32 n = (word_of_nat (lap_front (Suc k)) :: u64)"
proof -
  have "u64_of_u32 n = word_of_nat (unat n)"
    by (simp add: u64_of_u32_def)
  then show ?thesis using assms by simp
qed

definition lap_state :: "nat \<Rightarrow> varlen_client \<Rightarrow> bool" where
  "lap_state k s \<longleftrightarrow>
     vs_ppc s = vp_loop \<and> vs_i s = word_of_nat k \<and> \<not> vpending (vs_writer s) \<and>
     data_ptr (vs_writer s) = sizeof_control_block \<and>
     data_capacity (hdr (vs_seg s)) = 4096 \<and> data_alignment (hdr (vs_seg s)) = 8 \<and>
     length (data_bytes (vs_seg s)) = 4096 \<and>
     wpos (vs_seg s) = word_of_nat (lap_front k) \<and> cpos (vs_seg s) = wpos (vs_seg s) \<and>
     rpos (vs_seg s) = 40"

text \<open>While the slot fits before the end, the producer goes from one message to the next.\<close>

lemma lap_reserve:
  assumes s: "lap_state k s" and k: "0 < k" "k < 81"
  defines "n \<equiv> needed_bytes (stream_len (word_of_nat k)) (vs_seg s)"
  defines "mt \<equiv> stream_meta (word_of_nat k)"
  shows "\<exists>g. varlen_try_reserve (vs_writer s) (vs_seg s) (stream_len (word_of_nat k)) mt =
      Some (Inr (\<lparr>status = rs_ok, payload = Some (sizeof_control_block + lap_front k + 32),
        position = wpos (vs_seg s)\<rparr>, (vs_writer s)\<lparr>vpending := True, last_position := wpos (vs_seg s)\<rparr>, g)) \<and>
    wpos g = word_of_nat (lap_front (Suc k)) \<and> cpos g = cpos (vs_seg s) \<and> rpos g = 40 \<and>
    data_capacity (hdr g) = 4096 \<and> data_alignment (hdr g) = 8 \<and> length (data_bytes g) = 4096 \<and>
    mem_read (data_bytes g) (lap_front k) 32 =
      encode_header \<lparr>slot_size = n, payload_size = stream_len (word_of_nat k), slot_meta = mt\<rparr>"
proof -
  let ?g = "vs_seg s" and ?p = "lap_front k"
  note S = s [unfolded lap_state_def]
  have n: "unat n = lap_slot k" using lap_slot_needed(2) [of k ?g] k S by (simp add: n_def)
  have "lap_front (Suc k) \<le> 4072" using lap_front_mono [of "Suc k" 81] k lap_front_81 by simp
  then have p: "?p + lap_slot k \<le> 4072" by simp
  have "40 \<le> ?p" using lap_front_mono [of 1 k] k by (simp add: lap_front_def lap_slot_def)
  have w: "unat (wpos ?g) = ?p" using S p by (simp add: unat_of_nat)
  have u: "unat (wpos ?g - rpos ?g) = ?p - 40"
    using S w \<open>40 \<le> ?p\<close> by (simp add: unat_sub word_le_nat_alt)
  have 0: "\<not> u64_of_u32 n > data_capacity (hdr ?g)"
    and 1: "\<not> wpos ?g - rpos ?g + u64_of_u32 n > data_capacity (hdr ?g)"
    using S n p u by (simp_all add: word_less_nat_alt unat_word_ariths)
  have m: "unat (wpos ?g mod data_capacity (hdr ?g)) = ?p" using S w p by (simp add: unat_mod)
  have 2: "\<not> data_capacity (hdr ?g) - wpos ?g mod data_capacity (hdr ?g) < u64_of_u32 n"
    using S w p n by (simp add: word_less_nat_alt unat_sub word_le_nat_alt unat_mod)
  have 3: "?p + 32 \<le> length (data_bytes ?g)" using p S by (simp add: lap_slot_def)
  let ?h = "encode_header \<lparr>slot_size = n, payload_size = stream_len (word_of_nat k), slot_meta = mt\<rparr>"
  have "mem_read (mem_write (data_bytes ?g) ?p ?h) ?p 32 = ?h"
    using mem_read_write_same [of ?p ?h "data_bytes ?g"] 3 by simp
  moreover have "length (mem_write (data_bytes ?g) ?p ?h) = 4096" using S 3 by simp
  moreover have "word_of_nat ?p + u64_of_u32 n = (word_of_nat (lap_front (Suc k)) :: u64)"
    by (rule lap_front_word [OF n])
  ultimately show ?thesis
    using 0 1 2 3 S m
    by (simp add: varlen_try_reserve_def n_def [symmetric] varlen_reserve_loop.simps Let_def store_header_def
        varlen_slot_header_size_def)
qed

lemma lap_round:
  assumes s: "lap_state k s" and k: "0 < k" "k < 81" and m: "81 \<le> unat m"
  shows "\<exists>t. run_threads (varlen_producer_step pf m) (varlen_consumer_step pf) [producer, producer, producer] s = Inr t \<and>
    lap_state (Suc k) t"
proof -
  let ?l = "stream_len (word_of_nat k)" and ?b = "stream_bytes (word_of_nat k)"
  let ?n = "needed_bytes ?l (vs_seg s)"
  let ?w = "(vs_writer s)\<lparr>vpending := True, last_position := wpos (vs_seg s)\<rparr>"
  note S = s [unfolded lap_state_def]
  obtain g where g: "varlen_try_reserve (vs_writer s) (vs_seg s) ?l (stream_meta (word_of_nat k)) =
      Some (Inr (\<lparr>status = rs_ok, payload = Some (sizeof_control_block + lap_front k + 32),
        position = wpos (vs_seg s)\<rparr>, ?w, g))"
    "wpos g = word_of_nat (lap_front (Suc k))" "rpos g = 40" "data_capacity (hdr g) = 4096"
    "data_alignment (hdr g) = 8" "length (data_bytes g) = 4096"
    "mem_read (data_bytes g) (lap_front k) 32 =
      encode_header \<lparr>slot_size = ?n, payload_size = ?l, slot_meta = stream_meta (word_of_nat k)\<rparr>"
    using lap_reserve [OF s k] by blast
  have n: "unat ?n = lap_slot k" using lap_slot_needed(2) [of k "vs_seg s"] k S by simp
  have "lap_front (Suc k) \<le> 4072" using lap_front_mono [of "Suc k" 81] k lap_front_81 by simp
  then have p: "lap_front k + lap_slot k \<le> 4072" by simp
  have "32 + unat ?l \<le> lap_slot k"
    using lap_slot_needed(1) [of k] k by simp
  then have fit: "lap_front k + 32 + length ?b \<le> 4096" using p by (simp add: stream_bytes_def)
  let ?g = "g\<lparr>data_bytes := mem_write (data_bytes g) (lap_front k + 32) ?b\<rparr>"
  have st: "store_bytes g (sizeof_control_block + (lap_front k + 32)) ?b = Inr ?g" using fit g(6) by simp
  have ls: "load_slot_size ?g (sizeof_control_block + lap_front k) = Inr ?n"
    using load_header_members(1) [of ?g "lap_front k"
      "\<lparr>slot_size = ?n, payload_size = ?l, slot_meta = stream_meta (word_of_nat k)\<rparr>"] g(6,7) fit
    by (simp add: mem_read_write_disjoint)
  let ?c = "signal_commit (update_meta (\<lambda>m. m\<lparr>commit_pos := wpos (vs_seg s) + u64_of_u32 ?n\<rparr>) ?g)"
  note adv = lap_front_word [OF n]
  have cm: "varlen_commit ?w ?g (wpos (vs_seg s)) = Inr (?w\<lparr>vpending := False\<rparr>, ?c)"
    using ls S p g(4) by (simp add: varlen_commit_def unat_mod unat_of_nat)
  let ?t = "s\<lparr>vs_writer := ?w\<lparr>vpending := False\<rparr>, vs_seg := ?c, vs_i := vs_i s + 1, vs_ppc := vp_loop\<rparr>"
  have "run_threads (varlen_producer_step pf m) (varlen_consumer_step pf) [producer, producer, producer] s = Inr ?t"
    using S g(1) k m st cm
    by (simp add: varlen_producer_step_def word_less_nat_alt unat_of_nat add.assoc)
  moreover have "lap_state (Suc k) ?t"
    using S g fit adv by (simp add: lap_state_def add.commute)
  ultimately show ?thesis by blast
qed

lemma lap_run:
  assumes "lap_state 1 s" "0 < k" "k \<le> 81" "81 \<le> unat m"
  shows "\<exists>ts t. run_threads (varlen_producer_step pf m) (varlen_consumer_step pf) ts s = Inr t \<and> lap_state k t"
  using assms(2,3)
proof (induction k rule: nat_induct_non_zero)
  case 1
  have "run_threads (varlen_producer_step pf m) (varlen_consumer_step pf) [] s = Inr s" by simp
  with assms(1) show ?case by blast
next
  case (Suc k)
  then obtain ts t where t: "run_threads (varlen_producer_step pf m) (varlen_consumer_step pf) ts s = Inr t"
    "lap_state k t" by auto
  obtain u where "run_threads (varlen_producer_step pf m) (varlen_consumer_step pf) [producer, producer, producer] t = Inr u"
    "lap_state (Suc k) u" using lap_round [OF t(2) Suc.hyps _ assms(4), of pf] Suc.prems by auto
  with t(1) show ?case by (metis res_bind_simps(2) run_threads_append)
qed

lemma lap_overruns:
  assumes s: "lap_state 81 s" and m: "81 < unat m"
  shows "run_threads (varlen_producer_step pf m) (varlen_consumer_step pf) [producer] s = Inl out_of_bounds"
proof -
  let ?g = "vs_seg s"
  note S = s [unfolded lap_state_def lap_front_81]
  have n: "unat (needed_bytes (stream_len (word_of_nat 81)) ?g) = 56"
    using lap_slot_needed(2) [of 81 ?g] S by (simp add: lap_slot_def)
  have "varlen_try_reserve (vs_writer s) ?g (stream_len (word_of_nat 81)) (stream_meta (word_of_nat 81)) =
      Some (Inl out_of_bounds)"
    using S n by (intro reserve_overruns) simp_all
  then show ?thesis
    using S m by (simp add: varlen_producer_step_def word_less_nat_alt)
qed

lemma lap_start:
  "case run_varlen_channel of None \<Rightarrow> False
   | Some s \<Rightarrow> (case run_threads (varlen_producer_step pf kVarMessages) (varlen_consumer_step pf)
        [producer, producer, producer, consumer] s of Inl _ \<Rightarrow> False | Inr t \<Rightarrow> lap_state 1 t)"
  by code_simp

text \<open>
  C35: The example as shipped can store outside its allocation, on every platform. Its arena has exactly 4096 data
  bytes at 8-byte alignment; messages 0 to 80 take 4072 of them, message 81 needs 56, and
  once the consumer has made room the padding header for the remaining 24 bytes is 32 bytes
  long: there is a schedule after which the producer is about to reserve for message 81 at
  position 4072, and its next step is out of bounds.
\<close>

theorem varlen_stream_overruns:
  "\<exists>s ts t. run_varlen_channel = Some s \<and>
     run_threads (varlen_producer_step pf kVarMessages) (varlen_consumer_step pf) ts s = Inr t \<and>
     vs_i t = 81 \<and> vs_ppc t = vp_loop \<and> wpos (vs_seg t) = 4072 \<and> length (data_bytes (vs_seg t)) = 4096 \<and>
     varlen_producer_step pf kVarMessages t = Inl out_of_bounds"
proof -
  let ?run = "run_threads (varlen_producer_step pf kVarMessages) (varlen_consumer_step pf)"
  obtain s a where s: "run_varlen_channel = Some s"
    and a: "?run [producer, producer, producer, consumer] s = Inr a" "lap_state 1 a"
    using lap_start [of pf] by (auto split: option.splits sum.splits)
  have m: "81 < unat kVarMessages" by (simp add: kVarMessages_def)
  then obtain ts b where b: "?run ts a = Inr b" "lap_state 81 b"
    using lap_run [OF a(2), of 81 kVarMessages pf] by auto
  have "?run ([producer, producer, producer, consumer] @ ts) s = Inr b"
    using a(1) b(1) by (simp only: run_threads_append res_bind_simps)
  moreover have "varlen_producer_step pf kVarMessages b = Inl out_of_bounds"
    using lap_overruns [OF b(2) m, of pf] by (simp add: res_bind_def split: sum.splits)
  moreover have "vs_i b = 81" "vs_ppc b = vp_loop" "wpos (vs_seg b) = 4072" "length (data_bytes (vs_seg b)) = 4096"
    using b(2) [unfolded lap_state_def lap_front_81] by simp_all
  ultimately show ?thesis using s by blast
qed

end
