(* ===== verification/Varlen_Threads.thy ===== *)
theory Varlen_Threads
  imports Varlen_Properties
begin

text \<open>
  The variable-length ring under real concurrency: \<open>varlen_writer::write\<close> and the copying
  \<open>varlen_reader::read\<close> cut into their single shared-memory accesses, in any interleaving. As in
  the fixed ring, a load of the other side's position returns some value it has held, not older
  than what the same thread has loaded before.

  The stores of the writer are modelled byte by byte; the reader's loads of a header member are
  one step each. That no load can overlap a store is one of the properties.
\<close>

section \<open>Threads\<close>

text \<open>
  The writer, with the message and its local \<open>head\<close>: about to load \<open>read_pos\<close>; about to advance
  \<open>write_pos\<close> over the padding, storing byte \<open>k\<close> of the padding header (after the last one
  \<open>commit_pos\<close>), about to signal; about to advance \<open>write_pos\<close> over the slot, storing byte \<open>k\<close> of
  its header, byte \<open>k\<close> of its payload, about to store \<open>commit_pos\<close>, about to signal.
\<close>

datatype vwpc =
    vw_idle
  | vw_load varlen_message u64
  | vw_pad varlen_message u64
  | vw_pad_header varlen_message u64 nat
  | vw_pad_signal varlen_message u64
  | vw_take varlen_message u64
  | vw_header varlen_message u64 nat
  | vw_payload varlen_message u64 nat
  | vw_publish varlen_message u64
  | vw_signal

text \<open>
  The reader: between calls; about to load \<open>commit_pos\<close>, \<open>slot_size\<close>, \<open>payload_size\<close>, \<open>meta\<close>; copying
  the payload; about to store \<open>read_pos\<close>, with the message it delivers, if any; about to signal,
  and whether it has skipped padding and goes on with its loop.
\<close>

datatype vrpc =
    vr_idle
  | vr_load
  | vr_size
  | vr_psize
  | vr_meta u32
  | vr_copy u32 message_meta "u8 list"
  | vr_advance "varlen_message option"
  | vr_signal bool

record vstate =
  vseg :: segment
  vwriter :: varlen_writer
  vwpc :: vwpc
  vseen_read :: u64            \<comment> \<open>the last value of \<open>read_pos\<close> the writer loaded\<close>
  vrpc :: vrpc
  vmax_size :: u32             \<comment> \<open>the size of the reader's buffer\<close>
  vseen_commit :: u64          \<comment> \<open>the last value of \<open>commit_pos\<close> the reader loaded\<close>
  vread_history :: "u64 list"  \<comment> \<open>every value \<open>read_pos\<close> has held\<close>
  vcommit_history :: "u64 list"
  vsent :: "varlen_message list"
  vreceived :: "varlen_message list"

definition new_vstate :: "varlen_writer \<Rightarrow> segment \<Rightarrow> u32 \<Rightarrow> vstate" where
  "new_vstate w s max_size =
     \<lparr>vseg = s, vwriter = w, vwpc = vw_idle, vseen_read = rpos s, vrpc = vr_idle, vmax_size = max_size,
      vseen_commit = rpos s, vread_history = [rpos s], vcommit_history = [cpos s],
      vsent = [], vreceived = []\<rparr>"

definition msg_size :: "varlen_message \<Rightarrow> u32" where
  "msg_size m = word_of_nat (length (fst m))"

definition msg_needed :: "segment \<Rightarrow> varlen_message \<Rightarrow> u32" where
  "msg_needed s m = needed_bytes (msg_size m) s"

definition msg_header :: "segment \<Rightarrow> varlen_message \<Rightarrow> u8 list" where
  "msg_header s m =
     encode_header \<lparr>slot_size = msg_needed s m, payload_size = msg_size m, slot_meta = snd m\<rparr>"

definition wrap_padding :: "segment \<Rightarrow> u64 \<Rightarrow> u64" where
  "wrap_padding s head = data_capacity (hdr s) - head mod data_capacity (hdr s)"

definition pad_header :: "segment \<Rightarrow> u64 \<Rightarrow> u8 list" where
  "pad_header s head =
     encode_header \<lparr>slot_size = u32_of_u64 (wrap_padding s head), payload_size = 0,
       slot_meta = default_meta\<rparr>"

text \<open>A 32-bit member of the slot header at a position.\<close>

definition slot_word :: "segment \<Rightarrow> u64 \<Rightarrow> nat \<Rightarrow> u32" where
  "slot_word s pos off = word_of_nat (le_value (mem_read (data_bytes s) (slot_index s pos + off) 4))"

text \<open>
  A call of \<open>write\<close>. Sizes that wrap at 32 bits and empty payloads are outside this model (the
  sequential theories say what happens to them).
\<close>

definition call_write_step :: "varlen_message \<Rightarrow> vstate \<Rightarrow> vstate option" where
  "call_write_step m s =
     (if vwpc s = vw_idle \<and> fst m \<noteq> [] \<and> int (32 + length (fst m) + align_of (vseg s)) \<le> 4294967296
      then (if vpending (vwriter s) \<or> u64_of_u32 (msg_needed (vseg s) m) > data_capacity (hdr (vseg s)) then Some s
            else Some (s\<lparr>vwpc := vw_load m (wpos (vseg s))\<rparr>))
      else None)"

definition writer_step :: "u64 \<Rightarrow> vstate \<Rightarrow> vstate option" where
  "writer_step r s =
     (let g = vseg s; cap = data_capacity (hdr g)
      in case vwpc s of
        vw_idle \<Rightarrow> None
      | vw_load m head \<Rightarrow>
          if r \<in> set (vread_history s) \<and> vseen_read s \<le> r then
            (let needed = u64_of_u32 (msg_needed g m)
             in Some (s\<lparr>vseen_read := r,
                  vwpc := (if head - r + needed > cap then vw_idle
                           else if wrap_padding g head < needed then vw_pad m head
                           else vw_take m head)\<rparr>))
          else None
      | vw_pad m head \<Rightarrow>
          if wpos g = head
          then Some (s\<lparr>vseg := update_meta (\<lambda>mt. mt\<lparr>write_pos := head + wrap_padding g head\<rparr>) g,
                       vwpc := vw_pad_header m head 0\<rparr>)
          else Some (s\<lparr>vwriter := pause_writer (vwriter s), vwpc := vw_load m (wpos g)\<rparr>)
      | vw_pad_header m head k \<Rightarrow>
          if k < 32
          then Some (s\<lparr>vseg := poke g (slot_index g head + k) (pad_header g head ! k),
                       vwpc := vw_pad_header m head (Suc k)\<rparr>)
          else Some (s\<lparr>vseg := update_meta (\<lambda>mt. mt\<lparr>commit_pos := head + wrap_padding g head\<rparr>) g,
                       vcommit_history := vcommit_history s @ [head + wrap_padding g head],
                       vwpc := vw_pad_signal m (head + wrap_padding g head)\<rparr>)
      | vw_pad_signal m head \<Rightarrow> Some (s\<lparr>vseg := signal_commit g, vwpc := vw_load m head\<rparr>)
      | vw_take m head \<Rightarrow>
          if wpos g = head
          then Some (s\<lparr>vseg := update_meta (\<lambda>mt. mt\<lparr>write_pos := head + u64_of_u32 (msg_needed g m)\<rparr>) g,
                       vwpc := vw_header m head 0\<rparr>)
          else Some (s\<lparr>vwriter := pause_writer (vwriter s), vwpc := vw_load m (wpos g)\<rparr>)
      | vw_header m head k \<Rightarrow>
          if k < 32
          then Some (s\<lparr>vseg := poke g (slot_index g head + k) (msg_header g m ! k),
                       vwpc := vw_header m head (Suc k)\<rparr>)
          else Some (s\<lparr>vwriter := (vwriter s)\<lparr>vpending := True, last_position := head\<rparr>,
                       vwpc := vw_payload m head 0\<rparr>)
      | vw_payload m head k \<Rightarrow>
          if k < length (fst m)
          then Some (s\<lparr>vseg := poke g (slot_index g head + 32 + k) (fst m ! k),
                       vwpc := vw_payload m head (Suc k)\<rparr>)
          else Some (s\<lparr>vwpc := vw_publish m head\<rparr>)
      | vw_publish m head \<Rightarrow>
          if vpending (vwriter s) \<and> head = last_position (vwriter s)
          then (let new = head + u64_of_u32 (slot_word g head 0)
                in Some (s\<lparr>vseg := update_meta (\<lambda>mt. mt\<lparr>commit_pos := new\<rparr>) g,
                           vwriter := (vwriter s)\<lparr>vpending := False\<rparr>,
                           vcommit_history := vcommit_history s @ [new],
                           vsent := vsent s @ [m], vwpc := vw_signal\<rparr>))
          else Some (s\<lparr>vwpc := vw_idle\<rparr>)
      | vw_signal \<Rightarrow> Some (s\<lparr>vseg := signal_commit g, vwpc := vw_idle\<rparr>))"

text \<open>A call of the copying \<open>read\<close>.\<close>

definition call_read_step :: "vstate \<Rightarrow> vstate option" where
  "call_read_step s = (if vrpc s = vr_idle then Some (s\<lparr>vrpc := vr_load\<rparr>) else None)"

definition reader_step :: "u64 \<Rightarrow> vstate \<Rightarrow> vstate option" where
  "reader_step c s =
     (let g = vseg s; i = slot_index g (rpos g)
      in case vrpc s of
        vr_idle \<Rightarrow> None
      | vr_load \<Rightarrow>
          if c \<in> set (vcommit_history s) \<and> vseen_commit s \<le> c
          then Some (s\<lparr>vseen_commit := c, vrpc := (if c > rpos g then vr_size else vr_idle)\<rparr>)
          else None
      | vr_size \<Rightarrow>
          (let n = slot_word g (rpos g) 0
           in Some (s\<lparr>vrpc := (if n = 0 \<or> vseen_commit s - rpos g < u64_of_u32 n then vr_idle
                               else vr_psize)\<rparr>))
      | vr_psize \<Rightarrow>
          (let p = slot_word g (rpos g) 4
           in Some (s\<lparr>vrpc := (if p = 0 then vr_advance None else vr_meta p)\<rparr>))
      | vr_meta p \<Rightarrow>
          (let mt = decode_meta (mem_read (data_bytes g) (i + 8) 24)
           in Some (s\<lparr>vrpc := (if p > vmax_size s then vr_idle else vr_copy p mt [])\<rparr>))
      | vr_copy p mt buf \<Rightarrow>
          if length buf < unat p
          then Some (s\<lparr>vrpc := vr_copy p mt (buf @ [data_bytes g ! (i + 32 + length buf)])\<rparr>)
          else Some (s\<lparr>vrpc := vr_advance (Some (buf, mt))\<rparr>)
      | vr_advance m \<Rightarrow>
          (let new = rpos g + u64_of_u32 (slot_word g (rpos g) 0)
           in Some (s\<lparr>vseg := update_meta (\<lambda>mt. mt\<lparr>read_pos := new\<rparr>) g,
                      vread_history := vread_history s @ [new],
                      vreceived := vreceived s @ (case m of None \<Rightarrow> [] | Some m \<Rightarrow> [m]),
                      vrpc := vr_signal (m = None)\<rparr>))
      | vr_signal skipped \<Rightarrow>
          Some (s\<lparr>vseg := signal_read g, vrpc := (if skipped then vr_load else vr_idle)\<rparr>))"

text \<open>Reachable states, as long as the 64-bit write position has not come near its wrap.\<close>

definition vlow :: "vstate \<Rightarrow> bool" where
  "vlow s \<longleftrightarrow> wpos (vseg s) < - data_capacity (hdr (vseg s))"

lemma vlowD: "vlow s \<Longrightarrow> unat (wpos (vseg s)) + capacity_of (vseg s) < 2 ^ 64"
  unfolding vlow_def by (rule below_minus)

inductive vreach :: "vstate \<Rightarrow> vstate \<Rightarrow> bool" for s0 where
  start: "vreach s0 s0"
| call: "vreach s0 s \<Longrightarrow> call_write_step m s = Some t \<Longrightarrow> vlow t \<Longrightarrow> vreach s0 t"
| read: "vreach s0 s \<Longrightarrow> call_read_step s = Some t \<Longrightarrow> vlow t \<Longrightarrow> vreach s0 t"
| writer: "vreach s0 s \<Longrightarrow> writer_step r s = Some t \<Longrightarrow> vlow t \<Longrightarrow> vreach s0 t"
| reader: "vreach s0 s \<Longrightarrow> reader_step c s = Some t \<Longrightarrow> vlow t \<Longrightarrow> vreach s0 t"

datatype vaction = v_call varlen_message | v_writer u64 | v_read | v_reader u64

primrec vapply :: "vaction \<Rightarrow> vstate \<Rightarrow> vstate option" where
  "vapply (v_call m) s = call_write_step m s"
| "vapply (v_writer r) s = writer_step r s"
| "vapply v_read s = call_read_step s"
| "vapply (v_reader c) s = reader_step c s"

fun vrun :: "vaction list \<Rightarrow> vstate \<Rightarrow> vstate option" where
  "vrun [] s = Some s"
| "vrun (a # as) s =
     (case vapply a s of None \<Rightarrow> None | Some t \<Rightarrow> if vlow t then vrun as t else None)"

lemma vrun_vreach: "vrun as s = Some t \<Longrightarrow> vreach s0 s \<Longrightarrow> vreach s0 t"
proof (induction as arbitrary: s)
  case (Cons a as)
  then obtain u where u: "vapply a s = Some u" "vlow u" "vrun as u = Some t"
    by (auto split: option.splits if_splits)
  have "vreach s0 u" using Cons.prems(2) u(1,2) by (cases a) (auto intro: vreach.intros)
  with u(3) show ?case by (rule Cons.IH)
qed simp

end
