(* ===== verification/Varlen_Concurrent.thy ===== *)
theory Varlen_Concurrent
  imports Varlen_Threads
begin

text \<open>
  What holds in every reachable state of the interleaving model of \<open>Varlen_Threads\<close>: an invariant
  of the ring, of what each thread has loaded, and of each thread at each of its steps; that the
  history is first-in first-out; and that no load overlaps a store.
\<close>

section \<open>The invariant\<close>

definition msg_ok :: "segment \<Rightarrow> varlen_message \<Rightarrow> bool" where
  "msg_ok g m \<longleftrightarrow>
     fst m \<noteq> [] \<and> 32 + length (fst m) + align_of g \<le> 2 ^ 32 \<and> unat (msg_needed g m) \<le> capacity_of g"

text \<open>The bytes from the commit front to the end of the region, and from there to the write front.\<close>

abbreviation to_end :: "segment \<Rightarrow> nat" where
  "to_end g \<equiv> capacity_of g - unat (cpos g) mod capacity_of g"

definition writer_idle :: "vstate \<Rightarrow> bool" where
  "writer_idle s \<longleftrightarrow> \<not> vpending (vwriter s) \<and> wpos (vseg s) = cpos (vseg s)"

definition slot_taken :: "vstate \<Rightarrow> varlen_message \<Rightarrow> u64 \<Rightarrow> bool" where
  "slot_taken s m head \<longleftrightarrow>
     head = cpos (vseg s) \<and> msg_ok (vseg s) m \<and> unat (msg_needed (vseg s) m) \<le> to_end (vseg s) \<and>
     unat (wpos (vseg s)) = unat (cpos (vseg s)) + unat (msg_needed (vseg s) m)"

definition room_seen :: "vstate \<Rightarrow> varlen_message \<Rightarrow> u64 \<Rightarrow> bool" where
  "room_seen s m head \<longleftrightarrow>
     writer_idle s \<and> head = cpos (vseg s) \<and> msg_ok (vseg s) m \<and>
     unat (cpos (vseg s)) + unat (msg_needed (vseg s) m) \<le> unat (vseen_read s) + capacity_of (vseg s)"

definition header_stored :: "vstate \<Rightarrow> varlen_message \<Rightarrow> u64 \<Rightarrow> bool" where
  "header_stored s m head \<longleftrightarrow>
     slot_taken s m head \<and> vpending (vwriter s) \<and> last_position (vwriter s) = head \<and>
     mem_read (data_bytes (vseg s)) (unat (cpos (vseg s)) mod capacity_of (vseg s)) 32 = msg_header (vseg s) m"

definition vwriter_inv :: "vstate \<Rightarrow> bool" where
  "vwriter_inv s =
     (let g = vseg s; i = unat (cpos g) mod capacity_of g
      in case vwpc s of
        vw_load m head \<Rightarrow> writer_idle s \<and> head = cpos g \<and> msg_ok g m
      | vw_pad m head \<Rightarrow> room_seen s m head \<and> to_end g < unat (msg_needed g m)
      | vw_pad_header m head k \<Rightarrow> \<not> vpending (vwriter s) \<and> head = cpos g \<and> msg_ok g m \<and>
          to_end g < unat (msg_needed g m) \<and> unat (wpos g) = unat (cpos g) + to_end g \<and>
          k \<le> 32 \<and> mem_read (data_bytes g) i k = take k (pad_header g head)
      | vw_pad_signal m head \<Rightarrow> writer_idle s \<and> head = cpos g \<and> msg_ok g m
      | vw_take m head \<Rightarrow> room_seen s m head \<and> unat (msg_needed g m) \<le> to_end g
      | vw_header m head k \<Rightarrow> \<not> vpending (vwriter s) \<and> slot_taken s m head \<and>
          k \<le> 32 \<and> mem_read (data_bytes g) i k = take k (msg_header g m)
      | vw_payload m head k \<Rightarrow> header_stored s m head \<and> k \<le> length (fst m) \<and>
          mem_read (data_bytes g) (i + 32) k = take k (fst m)
      | vw_publish m head \<Rightarrow> header_stored s m head \<and>
          mem_read (data_bytes g) (i + 32) (length (fst m)) = fst m
      | _ \<Rightarrow> writer_idle s)"

text \<open>The oldest slot is published, in full, in what the reader has loaded of \<open>commit_pos\<close>.\<close>

definition slot_seen :: "vstate \<Rightarrow> vslot \<Rightarrow> bool" where
  "slot_seen s v \<longleftrightarrow>
     (\<exists>vs. varlen_slots (vseg s) = v # vs) \<and> unat (rpos (vseg s)) + vsize v \<le> unat (vseen_commit s)"

definition vreader_inv :: "vstate \<Rightarrow> bool" where
  "vreader_inv s =
     (case vrpc s of
        vr_size \<Rightarrow> unat (rpos (vseg s)) < unat (vseen_commit s)
      | vr_psize \<Rightarrow> (\<exists>v. slot_seen s v)
      | vr_meta p \<Rightarrow> (\<exists>n pl mt. slot_seen s (Msg n pl mt) \<and> unat p = length pl)
      | vr_copy p mt buf \<Rightarrow> (\<exists>n pl. slot_seen s (Msg n pl mt) \<and> unat p = length pl \<and>
          length buf \<le> length pl \<and> buf = take (length buf) pl)
      | vr_advance None \<Rightarrow> (\<exists>n. slot_seen s (Pad n))
      | vr_advance (Some m) \<Rightarrow> (\<exists>n. slot_seen s (Msg n (fst m) (snd m)))
      | _ \<Rightarrow> True)"

definition vring_inv :: "segment \<Rightarrow> bool" where
  "vring_inv g \<longleftrightarrow>
     varlen_geometry g \<and>
     slots_from (data_bytes g) (capacity_of g) (unat (rpos g)) (varlen_slots g) (unat (cpos g)) \<and>
     list_all (\<lambda>v. align_of g dvd vsize v) (varlen_slots g) \<and>
     align_of g dvd unat (rpos g) \<and> align_of g dvd unat (cpos g)"

definition vviews_inv :: "vstate \<Rightarrow> bool" where
  "vviews_inv s \<longleftrightarrow>
     unat (cpos (vseg s)) \<le> unat (wpos (vseg s)) \<and>
     unat (wpos (vseg s)) \<le> unat (vseen_read s) + capacity_of (vseg s) \<and>
     unat (vseen_read s) \<le> unat (rpos (vseg s)) \<and>
     unat (vseen_commit s) \<le> unat (cpos (vseg s)) \<and>
     align_of (vseg s) dvd unat (vseen_commit s) \<and>
     list_all (\<lambda>r. unat r \<le> unat (rpos (vseg s))) (vread_history s) \<and>
     list_all (\<lambda>c. unat c \<le> unat (cpos (vseg s)) \<and> align_of (vseg s) dvd unat c) (vcommit_history s)"

definition vconc_inv :: "vstate \<Rightarrow> bool" where
  "vconc_inv s \<longleftrightarrow>
     vring_inv (vseg s) \<and> vviews_inv s \<and> vlow s \<and> vwriter_inv s \<and> vreader_inv s \<and>
     vsent s = vreceived s @ varlen_contents (vseg s)"

lemma vconc_invD:
  assumes "vconc_inv s"
  shows "vring_inv (vseg s)" "vviews_inv s" "vlow s" "vwriter_inv s" "vreader_inv s"
    and "vsent s = vreceived s @ varlen_contents (vseg s)"
  using assms by (simp_all add: vconc_inv_def)

lemma vring_invD:
  assumes "vring_inv g"
  shows "varlen_geometry g"
    and "slots_from (data_bytes g) (capacity_of g) (unat (rpos g)) (varlen_slots g) (unat (cpos g))"
    and "list_all (\<lambda>v. align_of g dvd vsize v) (varlen_slots g)"
    and "align_of g dvd unat (rpos g)" "align_of g dvd unat (cpos g)" "unat (rpos g) \<le> unat (cpos g)"
  using assms slots_from_le by (auto simp: vring_inv_def)

lemma vviews_invD:
  assumes "vviews_inv s"
  shows "unat (cpos (vseg s)) \<le> unat (wpos (vseg s))"
    and "unat (wpos (vseg s)) \<le> unat (vseen_read s) + capacity_of (vseg s)"
    and "unat (vseen_read s) \<le> unat (rpos (vseg s))"
    and "unat (vseen_commit s) \<le> unat (cpos (vseg s))"
    and "align_of (vseg s) dvd unat (vseen_commit s)"
    and "\<And>r. r \<in> set (vread_history s) \<Longrightarrow> unat r \<le> unat (rpos (vseg s))"
    and "\<And>c. c \<in> set (vcommit_history s) \<Longrightarrow>
      unat c \<le> unat (cpos (vseg s)) \<and> align_of (vseg s) dvd unat c"
  using assms by (auto simp: vviews_inv_def list_all_iff)

text \<open>What the parts of the invariant depend on.\<close>

definition same_fronts :: "segment \<Rightarrow> segment \<Rightarrow> bool" where
  "same_fronts g h \<longleftrightarrow>
     data_bytes h = data_bytes g \<and> rpos h = rpos g \<and> cpos h = cpos g \<and>
     data_capacity (hdr h) = data_capacity (hdr g) \<and> data_alignment (hdr h) = data_alignment (hdr g)"

lemma same_fronts_ring:
  assumes "same_fronts g h"
  shows "varlen_slots h = varlen_slots g" "vring_inv h = vring_inv g"
proof -
  show sl: "varlen_slots h = varlen_slots g"
    using assms by (simp add: same_fronts_def varlen_slots_def)
  show "vring_inv h = vring_inv g"
    using assms sl by (simp add: same_fronts_def vring_inv_def varlen_geometry_def)
qed

lemma message_frame:
  "data_alignment (hdr h) = data_alignment (hdr g) \<Longrightarrow> msg_needed h m = msg_needed g m"
  "data_alignment (hdr h) = data_alignment (hdr g) \<Longrightarrow> msg_header h m = msg_header g m"
  "data_capacity (hdr h) = data_capacity (hdr g) \<Longrightarrow> wrap_padding h p = wrap_padding g p"
  "data_capacity (hdr h) = data_capacity (hdr g) \<Longrightarrow> pad_header h p = pad_header g p"
  "data_alignment (hdr h) = data_alignment (hdr g) \<Longrightarrow> data_capacity (hdr h) = data_capacity (hdr g) \<Longrightarrow>
   msg_ok h m = msg_ok g m"
  by (simp_all add: msg_needed_def needed_bytes_def msg_header_def wrap_padding_def pad_header_def msg_ok_def)

lemma vwriter_inv_frame:
  assumes "vwpc t = vwpc s" "vwriter t = vwriter s" "vseen_read t = vseen_read s"
    and "data_bytes (vseg t) = data_bytes (vseg s)" "wpos (vseg t) = wpos (vseg s)"
      "cpos (vseg t) = cpos (vseg s)" "data_capacity (hdr (vseg t)) = data_capacity (hdr (vseg s))"
      "data_alignment (hdr (vseg t)) = data_alignment (hdr (vseg s))"
  shows "vwriter_inv t = vwriter_inv s"
  unfolding vwriter_inv_def writer_idle_def slot_taken_def room_seen_def header_stored_def
  using assms message_frame(1,2) [OF assms(8)] message_frame(3,4) [OF assms(7)] message_frame(5) [OF assms(8,7)]
  by (simp add: Let_def cong: vwpc.case_cong)

lemma slot_seen_frame:
  assumes "rpos (vseg t) = rpos (vseg s)" "vseen_commit t = vseen_commit s"
    and "varlen_slots (vseg t) = varlen_slots (vseg s) @ us" "slot_seen s v"
  shows "slot_seen t v"
  using assms by (auto simp: slot_seen_def)

lemma slot_seen_local [simp]: "slot_seen (s\<lparr>vrpc := pc\<rparr>) v = slot_seen s v"
  by (simp add: slot_seen_def)

lemma vreader_invI:
  "vrpc t = vr_idle \<Longrightarrow> vreader_inv t"
  "vrpc t = vr_psize \<Longrightarrow> slot_seen t v \<Longrightarrow> vreader_inv t"
  "vrpc t = vr_meta p \<Longrightarrow> slot_seen t (Msg n pl mt) \<Longrightarrow> unat p = length pl \<Longrightarrow> vreader_inv t"
  "vrpc t = vr_copy p mt (take k pl) \<Longrightarrow> slot_seen t (Msg n pl mt) \<Longrightarrow> unat p = length pl \<Longrightarrow>
   vreader_inv t"
  "vrpc t = vr_advance None \<Longrightarrow> slot_seen t (Pad n) \<Longrightarrow> vreader_inv t"
  "vrpc t = vr_advance (Some (pl, mt)) \<Longrightarrow> slot_seen t (Msg n pl mt) \<Longrightarrow> vreader_inv t"
proof -
  show "vreader_inv t" if "vrpc t = vr_copy p mt (take k pl)" "slot_seen t (Msg n pl mt)" "unat p = length pl"
    using that unfolding vreader_inv_def
    by (simp add: that(1)) (intro exI [of _ n] exI [of _ pl], simp add: min_def)
qed (auto simp: vreader_inv_def)

lemma vreader_inv_frame:
  assumes "vrpc t = vrpc s" "rpos (vseg t) = rpos (vseg s)" "vseen_commit t = vseen_commit s"
    and "varlen_slots (vseg t) = varlen_slots (vseg s) @ us" "vreader_inv s"
  shows "vreader_inv t"
proof -
  note F = slot_seen_frame [OF assms(2-4)]
  show ?thesis
    using assms(1,2,3,5) F unfolding vreader_inv_def
    by (auto split: vrpc.splits option.splits) blast+
qed

lemma pad_length:
  assumes "vconc_inv s"
  shows "unat (wrap_padding (vseg s) (cpos (vseg s))) = to_end (vseg s)"
    and "align_of (vseg s) dvd to_end (vseg s)" "8 \<le> to_end (vseg s)"
    and "unat (cpos (vseg s)) mod capacity_of (vseg s) + 32 \<le> length (data_bytes (vseg s))"
proof -
  let ?g = "vseg s"
  note R = vring_invD [OF vconc_invD(1) [OF assms]]
  note G = varlen_geometryD [OF R(1)]
  have i: "unat (cpos ?g) mod capacity_of ?g < capacity_of ?g" using G(4) by simp
  then show "unat (wrap_padding ?g (cpos ?g)) = to_end ?g"
    by (simp add: wrap_padding_def unat_sub word_le_nat_alt unat_mod less_imp_le)
  show d: "align_of ?g dvd to_end ?g" using R(5) G(5) by (intro dvd_diff_nat) (auto simp: dvd_mod)
  have "align_of ?g \<le> to_end ?g" using d i by (intro dvd_imp_le) auto
  then show "8 \<le> to_end ?g" "unat (cpos ?g) mod capacity_of ?g + 32 \<le> length (data_bytes ?g)"
    using G(2,7) i by linarith+
qed

lemma msg_sizes:
  assumes "varlen_geometry g" "msg_ok g m"
  shows "unat (msg_size m) = length (fst m)" "32 + length (fst m) \<le> unat (msg_needed g m)"
    and "align_of g dvd unat (msg_needed g m)" "unat (msg_needed g m) \<le> capacity_of g"
proof -
  show u: "unat (msg_size m) = length (fst m)"
    using assms(2) varlen_geometryD(2) [OF assms(1)] by (simp add: msg_ok_def msg_size_def unat_of_nat)
  have "32 + unat (msg_size m) + align_of g \<le> 2 ^ 32" using assms(2) u by (simp add: msg_ok_def)
  from needed_bytes_bounds [OF assms(1) this]
  show "32 + length (fst m) \<le> unat (msg_needed g m)" "align_of g dvd unat (msg_needed g m)"
    by (simp_all add: msg_needed_def u)
  show "unat (msg_needed g m) \<le> capacity_of g" using assms(2) by (simp add: msg_ok_def)
qed


section \<open>Storing into the free span\<close>

lemma mem_read_snoc:
  assumes "i + k < length bs"
  shows "mem_read (mem_write bs (i + k) [b]) i (Suc k) = mem_read bs i k @ [b]"
proof -
  have "mem_write bs (i + k) [b] = mem_write bs i (mem_read bs i k @ [b])"
    using assms by (simp add: mem_write_def mem_read_def take_add)
  moreover have "length (mem_read bs i k @ [b]) = Suc k" using assms by (simp add: length_mem_read)
  ultimately show ?thesis
    using mem_read_write_same [of i "mem_read bs i k @ [b]" bs] assms by simp
qed

lemma mem_write_read:
  assumes "i + n \<le> length bs"
  shows "mem_write bs i (mem_read bs i n) = bs"
proof -
  have "take n (drop i bs) @ drop (i + n) bs = drop i bs"
    by (metis add.commute append_take_drop_id drop_drop)
  then show ?thesis using assms by (simp add: mem_write_def mem_read_def)
qed

lemma poke_frame [simp]: "hdr (poke g i b) = hdr g" "data_bytes (poke g i b) = mem_write (data_bytes g) i [b]"
  by (simp_all add: poke_def)

lemma poke_free:
  assumes inv: "vconc_inv s" and j: "unat (cpos (vseg s)) mod capacity_of (vseg s) + j < length (data_bytes (vseg s))"
    and span: "unat (cpos (vseg s)) < unat (wpos (vseg s))"
    and fit: "j < unat (wpos (vseg s)) - unat (cpos (vseg s)) \<or>
      unat (wpos (vseg s)) = unat (cpos (vseg s)) + to_end (vseg s)"
  shows "varlen_slots (poke (vseg s) (unat (cpos (vseg s)) mod capacity_of (vseg s) + j) b) = varlen_slots (vseg s)"
    and "vring_inv (poke (vseg s) (unat (cpos (vseg s)) mod capacity_of (vseg s) + j) b)"
proof -
  let ?g = "vseg s" and ?i = "unat (cpos (vseg s)) mod capacity_of (vseg s)"
  note R = vring_invD [OF vconc_invD(1) [OF inv]] and V = vviews_invD [OF vconc_invD(2) [OF inv]]
  note G = varlen_geometryD [OF R(1)]
  have "?i < capacity_of ?g" using G(4) by simp
  then have "slots_from (mem_write (data_bytes ?g) (?i + j) [b]) (capacity_of ?g) (unat (rpos ?g))
      (varlen_slots ?g) (unat (cpos ?g))"
    using R(2) G(4,6) j span fit V(2,3)
    by (intro slots_from_write [where m = "unat (wpos ?g) - unat (cpos ?g)" and h = "unat (cpos ?g)"]) auto
  moreover from this show "varlen_slots (poke ?g (?i + j) b) = varlen_slots ?g"
    by (intro varlen_slots_eq) (simp add: poke_def)
  ultimately show "vring_inv (poke ?g (?i + j) b)"
    using R j by (simp add: vring_inv_def varlen_geometry_def)
qed


section \<open>Every step of the writer keeps the invariant\<close>

lemma writer_keeps:
  assumes inv: "vconc_inv s" and low: "vlow t"
    and same: "vrpc t = vrpc s" "vreceived t = vreceived s" "vseen_commit t = vseen_commit s"
      "rpos (vseg t) = rpos (vseg s)"
    and slots: "varlen_slots (vseg t) = varlen_slots (vseg s) @ us" "vsent t = vsent s @ msgs_of us"
    and parts: "vring_inv (vseg t)" "vviews_inv t" "vwriter_inv t"
  shows "vconc_inv t"
proof -
  have "vreader_inv t" by (rule vreader_inv_frame [OF same(1,4,3) slots(1) vconc_invD(5) [OF inv]])
  moreover have "vsent t = vreceived t @ varlen_contents (vseg t)"
    using vconc_invD(6) [OF inv] same(2) slots by (simp add: varlen_contents_def)
  ultimately show ?thesis using low parts by (simp add: vconc_inv_def)
qed

text \<open>The loads: against an old \<open>read_pos\<close> the room is only underestimated.\<close>

lemma stale_used:
  assumes inv: "vconc_inv s" and idle: "writer_idle s"
    and r: "r \<in> set (vread_history s)" "vseen_read s \<le> r" and n: "unat n \<le> capacity_of (vseg s)"
  shows "cpos (vseg s) - r + u64_of_u32 n > data_capacity (hdr (vseg s)) \<longleftrightarrow>
    unat r + capacity_of (vseg s) < unat (cpos (vseg s)) + unat n"
proof -
  let ?g = "vseg s"
  note D = vconc_invD [OF inv] and V = vviews_invD [OF vconc_invD(2) [OF inv]]
  have rc: "unat r \<le> unat (cpos ?g)"
    using V(6) [OF r(1)] vring_invD(6) [OF D(1)] by linarith
  have wc: "unat (wpos ?g) = unat (cpos ?g)" using idle by (simp add: writer_idle_def)
  have "unat (cpos ?g - r) = unat (cpos ?g) - unat r" using rc by (simp add: unat_sub word_le_nat_alt)
  moreover have "unat (cpos ?g) - unat r + unat n < 2 ^ 64" using vlowD [OF D(3)] wc n by simp
  ultimately have "unat (cpos ?g - r + u64_of_u32 n) = unat (cpos ?g) - unat r + unat n"
    by (subst unat_add_u64) simp_all
  then show ?thesis using rc by (simp add: word_less_nat_alt) linarith
qed

lemma conc_load:
  assumes inv: "vconc_inv s" and pc: "vwpc s = vw_load m head" and st: "writer_step r s = Some t"
  shows "vconc_inv t"
proof -
  let ?g = "vseg s"
  note D = vconc_invD [OF inv] and V = vviews_invD [OF vconc_invD(2) [OF inv]]
  have P: "writer_idle s" "head = cpos ?g" "msg_ok ?g m"
    using D(4) pc by (simp_all add: vwriter_inv_def Let_def)
  have r: "r \<in> set (vread_history s)" "vseen_read s \<le> r"
    using st pc by (simp_all add: writer_step_def Let_def split: if_splits)
  have sr: "unat (vseen_read s) \<le> unat r" using r(2) by (simp add: word_le_nat_alt)
  have needed: "unat (msg_needed ?g m) \<le> capacity_of ?g" using P(3) by (simp add: msg_ok_def)
  note U = stale_used [OF inv P(1) r needed]
  have W: "wrap_padding ?g head < u64_of_u32 (msg_needed ?g m) \<longleftrightarrow> to_end ?g < unat (msg_needed ?g m)"
    using pad_length(1) [OF inv] P(2) by (simp add: word_less_nat_alt)
  have t: "t = s\<lparr>vseen_read := r, vwpc := (if head - r + u64_of_u32 (msg_needed ?g m) > data_capacity (hdr ?g)
      then vw_idle else if wrap_padding ?g head < u64_of_u32 (msg_needed ?g m) then vw_pad m head
      else vw_take m head)\<rparr>"
    using st pc r by (simp add: writer_step_def Let_def)
  have "vviews_inv t" using D(2) sr V(2,6) r(1) by (auto simp: t vviews_inv_def list_all_iff)
  moreover have "vwriter_inv t"
    using P U W by (auto simp: t vwriter_inv_def room_seen_def writer_idle_def Let_def)
  moreover have "vlow t" using D(3) by (simp add: t vlow_def)
  ultimately show ?thesis using D(1) by (intro writer_keeps [OF inv, of t "[]"]) (simp_all add: t)
qed

text \<open>The two reservations by compare-and-exchange; with one writer they cannot fail.\<close>

lemma move_wpos:
  "same_fronts g (update_meta (\<lambda>mt. mt\<lparr>write_pos := v\<rparr>) g)"
  by (simp add: same_fronts_def)

lemma conc_pad:
  assumes inv: "vconc_inv s" and pc: "vwpc s = vw_pad m head" and st: "writer_step r s = Some t"
    and low: "vlow t"
  shows "vconc_inv t"
proof -
  let ?g = "vseg s"
  let ?h = "update_meta (\<lambda>mt. mt\<lparr>write_pos := head + wrap_padding ?g head\<rparr>) ?g"
  note D = vconc_invD [OF inv] and V = vviews_invD [OF vconc_invD(2) [OF inv]]
  have P: "writer_idle s" "head = cpos ?g" "msg_ok ?g m" "to_end ?g < unat (msg_needed ?g m)"
      "unat (cpos ?g) + unat (msg_needed ?g m) \<le> unat (vseen_read s) + capacity_of ?g"
    using D(4) pc by (simp_all add: vwriter_inv_def room_seen_def Let_def)
  have t: "t = s\<lparr>vseg := ?h, vwpc := vw_pad_header m head 0\<rparr>"
    using st pc P(1,2) by (simp add: writer_step_def writer_idle_def Let_def)
  have wc: "wpos ?g = cpos ?g" using P(1) by (simp add: writer_idle_def)
  then have "unat (cpos ?g) + to_end ?g < 2 ^ 64" using vlowD [OF D(3)] by simp
  then have u: "unat (cpos ?g + wrap_padding ?g (cpos ?g)) = unat (cpos ?g) + to_end ?g"
    using pad_length(1) [OF inv] by (subst unat_add_u64) simp_all
  note F = same_fronts_ring [OF move_wpos [of ?g "head + wrap_padding ?g head"]]
  have "vviews_inv t" using D(2) P u by (simp add: t vviews_inv_def)
  moreover have "vwriter_inv t"
    using P u message_frame(1,5) [of ?h ?g] by (simp add: t vwriter_inv_def writer_idle_def Let_def mem_read_def)
  ultimately show ?thesis using D(1) low F by (intro writer_keeps [OF inv, of t "[]"]) (simp_all add: t)
qed

lemma conc_take:
  assumes inv: "vconc_inv s" and pc: "vwpc s = vw_take m head" and st: "writer_step r s = Some t"
    and low: "vlow t"
  shows "vconc_inv t"
proof -
  let ?g = "vseg s" and ?n = "u64_of_u32 (msg_needed (vseg s) m)"
  let ?h = "update_meta (\<lambda>mt. mt\<lparr>write_pos := head + ?n\<rparr>) ?g"
  note D = vconc_invD [OF inv] and V = vviews_invD [OF vconc_invD(2) [OF inv]]
  have P: "writer_idle s" "head = cpos ?g" "msg_ok ?g m" "unat (msg_needed ?g m) \<le> to_end ?g"
      "unat (cpos ?g) + unat (msg_needed ?g m) \<le> unat (vseen_read s) + capacity_of ?g"
    using D(4) pc by (simp_all add: vwriter_inv_def room_seen_def Let_def)
  have t: "t = s\<lparr>vseg := ?h, vwpc := vw_header m head 0\<rparr>"
    using st pc P(1,2) by (simp add: writer_step_def writer_idle_def Let_def)
  have wc: "wpos ?g = cpos ?g" using P(1) by (simp add: writer_idle_def)
  then have "unat (cpos ?g) + unat (msg_needed ?g m) < 2 ^ 64"
    using vlowD [OF D(3)] P(3) by (simp add: msg_ok_def)
  then have u: "unat (cpos ?g + ?n) = unat (cpos ?g) + unat (msg_needed ?g m)"
    by (subst unat_add_u64) simp_all
  note F = same_fronts_ring [OF move_wpos [of ?g "head + ?n"]]
  have "vviews_inv t" using D(2) P u by (simp add: t vviews_inv_def)
  moreover have "vwriter_inv t"
    using P u message_frame(1,5) [of ?h ?g]
    by (simp add: t vwriter_inv_def slot_taken_def writer_idle_def Let_def mem_read_def)
  ultimately show ?thesis using D(1) low F by (intro writer_keeps [OF inv, of t "[]"]) (simp_all add: t)
qed

text \<open>The byte stores.\<close>

lemma store_byte:
  assumes inv: "vconc_inv s" and low: "vlow s"
    and j: "unat (cpos (vseg s)) mod capacity_of (vseg s) + j < length (data_bytes (vseg s))"
    and span: "unat (cpos (vseg s)) < unat (wpos (vseg s))"
    and fit: "j < unat (wpos (vseg s)) - unat (cpos (vseg s)) \<or>
      unat (wpos (vseg s)) = unat (cpos (vseg s)) + to_end (vseg s)"
    and t: "t = s\<lparr>vseg := poke (vseg s) (unat (cpos (vseg s)) mod capacity_of (vseg s) + j) b, vwpc := pc\<rparr>"
    and w: "vwriter_inv t"
  shows "vconc_inv t"
proof -
  note D = vconc_invD [OF inv] and F = poke_free [OF inv j span fit, of b]
  have "vviews_inv t" using D(2) by (simp add: t vviews_inv_def)
  moreover have "vlow t" using low by (simp add: t vlow_def)
  ultimately show ?thesis using w F by (intro writer_keeps [OF inv, of t "[]"]) (simp_all add: t)
qed

lemma length_headers [simp]: "length (msg_header g m) = 32" "length (pad_header g p) = 32"
  by (simp_all add: msg_header_def pad_header_def)

lemma conc_pad_header:
  assumes inv: "vconc_inv s" and pc: "vwpc s = vw_pad_header m head k" and k: "k < 32"
    and st: "writer_step r s = Some t"
  shows "vconc_inv t"
proof -
  let ?g = "vseg s" and ?i = "unat (cpos (vseg s)) mod capacity_of (vseg s)"
  let ?b = "pad_header (vseg s) head ! k"
  note D = vconc_invD [OF inv] and L = pad_length [OF inv]
  have P: "\<not> vpending (vwriter s)" "head = cpos ?g" "msg_ok ?g m" "to_end ?g < unat (msg_needed ?g m)"
      "unat (wpos ?g) = unat (cpos ?g) + to_end ?g" "mem_read (data_bytes ?g) ?i k = take k (pad_header ?g head)"
    using D(4) pc by (simp_all add: vwriter_inv_def Let_def)
  have t: "t = s\<lparr>vseg := poke ?g (?i + k) ?b, vwpc := vw_pad_header m head (Suc k)\<rparr>"
    using st pc k P(2) by (simp add: writer_step_def Let_def slot_index_eq)
  have j: "?i + k < length (data_bytes ?g)" using L(4) k by simp
  have "mem_read (mem_write (data_bytes ?g) (?i + k) [?b]) ?i (Suc k) = take (Suc k) (pad_header ?g head)"
    using mem_read_snoc [OF j] P(6) k by (simp add: take_Suc_conv_app_nth)
  then have "vwriter_inv t"
    using P k message_frame [of "poke ?g (?i + k) ?b" ?g] by (simp add: t vwriter_inv_def Let_def)
  then show ?thesis using P(5) L(3) by (intro store_byte [OF inv D(3) j _ _ t]) simp_all
qed

lemma slot_in_data:
  assumes inv: "vconc_inv s" and P: "slot_taken s m head" and k: "k < 32 + length (fst m)"
  shows "unat (cpos (vseg s)) mod capacity_of (vseg s) + k < length (data_bytes (vseg s))"
    and "unat (cpos (vseg s)) < unat (wpos (vseg s))" "k < unat (wpos (vseg s)) - unat (cpos (vseg s))"
proof -
  note R = vring_invD [OF vconc_invD(1) [OF inv]]
  note G = varlen_geometryD [OF R(1)]
  have i: "unat (cpos (vseg s)) mod capacity_of (vseg s) < capacity_of (vseg s)" using G(4) by simp
  have "32 + length (fst m) \<le> unat (msg_needed (vseg s) m)"
    using P msg_sizes(2) [OF R(1)] by (simp add: slot_taken_def)
  then show "unat (cpos (vseg s)) mod capacity_of (vseg s) + k < length (data_bytes (vseg s))"
    "unat (cpos (vseg s)) < unat (wpos (vseg s))" "k < unat (wpos (vseg s)) - unat (cpos (vseg s))"
    using P k i G(6) by (auto simp: slot_taken_def)
qed

lemma conc_header:
  assumes inv: "vconc_inv s" and pc: "vwpc s = vw_header m head k" and k: "k < 32"
    and st: "writer_step r s = Some t"
  shows "vconc_inv t"
proof -
  let ?g = "vseg s" and ?i = "unat (cpos (vseg s)) mod capacity_of (vseg s)"
  let ?b = "msg_header (vseg s) m ! k"
  note D = vconc_invD [OF inv]
  have P: "\<not> vpending (vwriter s)" "slot_taken s m head" "head = cpos ?g"
      "mem_read (data_bytes ?g) ?i k = take k (msg_header ?g m)"
    using D(4) pc by (simp_all add: vwriter_inv_def slot_taken_def Let_def)
  have t: "t = s\<lparr>vseg := poke ?g (?i + k) ?b, vwpc := vw_header m head (Suc k)\<rparr>"
    using st pc k P(3) by (simp add: writer_step_def Let_def slot_index_eq)
  have "k < 32 + length (fst m)" using k by simp
  note S = slot_in_data [OF inv P(2) this]
  have "mem_read (mem_write (data_bytes ?g) (?i + k) [?b]) ?i (Suc k) = take (Suc k) (msg_header ?g m)"
    using mem_read_snoc [OF S(1)] P(4) k by (simp add: take_Suc_conv_app_nth)
  then have "vwriter_inv t"
    using P k message_frame [of "poke ?g (?i + k) ?b" ?g]
    by (simp add: t vwriter_inv_def slot_taken_def Let_def)
  then show ?thesis using S by (intro store_byte [OF inv D(3) S(1,2) _ t]) simp_all
qed

lemma conc_payload:
  assumes inv: "vconc_inv s" and pc: "vwpc s = vw_payload m head k" and k: "k < length (fst m)"
    and st: "writer_step r s = Some t"
  shows "vconc_inv t"
proof -
  let ?g = "vseg s" and ?i = "unat (cpos (vseg s)) mod capacity_of (vseg s)"
  let ?b = "fst m ! k"
  note D = vconc_invD [OF inv]
  have P: "header_stored s m head" "slot_taken s m head" "head = cpos ?g"
      "mem_read (data_bytes ?g) (?i + 32) k = take k (fst m)"
    using D(4) pc by (simp_all add: vwriter_inv_def header_stored_def slot_taken_def Let_def)
  have t: "t = s\<lparr>vseg := poke ?g (?i + (32 + k)) ?b, vwpc := vw_payload m head (Suc k)\<rparr>"
    using st pc k P(3) by (simp add: writer_step_def Let_def slot_index_eq add.assoc)
  have "32 + k < 32 + length (fst m)" using k by simp
  note S = slot_in_data [OF inv P(2) this]
  have "mem_read (mem_write (data_bytes ?g) (?i + 32 + k) [?b]) (?i + 32) (Suc k) = take (Suc k) (fst m)"
    using mem_read_snoc [of "?i + 32" k] S(1) P(4) k by (simp add: take_Suc_conv_app_nth add.assoc)
  moreover have "mem_read (mem_write (data_bytes ?g) (?i + 32 + k) [?b]) ?i 32 = mem_read (data_bytes ?g) ?i 32"
    using S(1) by (intro mem_read_write_disjoint) simp_all
  ultimately have "vwriter_inv t"
    using P k message_frame [of "poke ?g (?i + (32 + k)) ?b" ?g]
    by (simp add: t vwriter_inv_def header_stored_def slot_taken_def Let_def add.assoc)
  then show ?thesis using S by (intro store_byte [OF inv D(3) S(1,2) _ t]) simp_all
qed

text \<open>The two publications.\<close>

lemma publish_slot:
  assumes inv: "vconc_inv s" and low: "vlow t" and w: "vwriter_inv t"
    and at: "slot_at (data_bytes (vseg s)) (capacity_of (vseg s)) (unat (cpos (vseg s))) v"
    and dv: "align_of (vseg s) dvd vsize v" and c: "unat c = unat (cpos (vseg s)) + vsize v"
      "unat c \<le> unat (wpos (vseg s))"
    and t: "vseg t = update_meta (\<lambda>mt. mt\<lparr>commit_pos := c\<rparr>) (vseg s)" "vcommit_history t = vcommit_history s @ [c]"
      "vrpc t = vrpc s" "vreceived t = vreceived s" "vseen_commit t = vseen_commit s" "vseen_read t = vseen_read s"
      "vread_history t = vread_history s" "vsent t = vsent s @ msgs_of [v]"
  shows "vconc_inv t"
proof -
  let ?g = "vseg s"
  note D = vconc_invD [OF inv] and R = vring_invD [OF vconc_invD(1) [OF inv]]
    and V = vviews_invD [OF vconc_invD(2) [OF inv]]
  have sf: "slots_from (data_bytes ?g) (capacity_of ?g) (unat (rpos ?g)) (varlen_slots ?g @ [v]) (unat c)"
    using slots_from_snoc [OF R(2) at] c(1) by simp
  then have sl: "varlen_slots (vseg t) = varlen_slots ?g @ [v]"
    by (intro varlen_slots_eq) (simp add: t(1))
  have "align_of ?g dvd unat c" using c(1) dv R(5) by simp
  moreover from this have "vring_inv (vseg t)"
    using sf sl R(1,3,4) dv by (simp add: vring_inv_def t(1))
  moreover have "list_all (\<lambda>c'. unat c' \<le> unat c \<and> align_of ?g dvd unat c') (vcommit_history s)"
    using V(7) c(1) by (auto simp: list_all_iff intro: trans_le_add1)
  moreover have "vviews_inv t"
    using D(2) c V(4) calculation by (simp add: vviews_inv_def t)
  ultimately show ?thesis using low w sl t by (intro writer_keeps [OF inv, of t "[v]"]) simp_all
qed

lemma conc_pad_publish:
  assumes inv: "vconc_inv s" and pc: "vwpc s = vw_pad_header m head k" and k: "\<not> k < 32"
    and st: "writer_step r s = Some t"
  shows "vconc_inv t"
proof -
  let ?g = "vseg s" and ?i = "unat (cpos (vseg s)) mod capacity_of (vseg s)" and ?n = "to_end (vseg s)"
  let ?c = "head + wrap_padding ?g head"
  note D = vconc_invD [OF inv] and L = pad_length [OF inv]
  note G = varlen_geometryD [OF vring_invD(1) [OF D(1)]]
  have P: "\<not> vpending (vwriter s)" "head = cpos ?g" "msg_ok ?g m" "?n < unat (msg_needed ?g m)"
      "unat (wpos ?g) = unat (cpos ?g) + ?n" "mem_read (data_bytes ?g) ?i 32 = pad_header ?g head"
    using D(4) pc k by (auto simp: vwriter_inv_def Let_def)
  have t: "t = s\<lparr>vseg := update_meta (\<lambda>mt. mt\<lparr>commit_pos := ?c\<rparr>) ?g,
      vcommit_history := vcommit_history s @ [?c], vwpc := vw_pad_signal m ?c\<rparr>"
    using st pc k by (simp add: writer_step_def Let_def)
  have i: "?i < capacity_of ?g" using G(4) by simp
  have "unat (cpos ?g) + ?n < 2 ^ 64" using vlowD [OF D(3)] P(5) by simp
  then have u: "unat ?c = unat (cpos ?g) + ?n"
    using L(1) P(2) by (subst unat_add_u64) simp_all
  have n32: "?n < 2 ^ 32" using P(4) unat_u32_lt [of "msg_needed ?g m"] by linarith
  then have sz: "unat (u32_of_u64 (wrap_padding ?g head)) = ?n"
    using L(1) P(2) by (simp add: unat_u32_of_u64_small)
  have "mem_write (data_bytes ?g) ?i (pad_header ?g head) = data_bytes ?g"
    using mem_write_read [OF L(4)] P(6) by simp
  then have at: "slot_at (data_bytes ?g) (capacity_of ?g) (unat (cpos ?g)) (Pad ?n)"
    using slot_at_new_pad [of "capacity_of ?g" "data_bytes ?g" "unat (cpos ?g)" ?n
        "u32_of_u64 (wrap_padding ?g head)" default_meta] G(6) L(3,4) n32 sz i
    by (simp add: pad_header_def)
  have wc: "wpos ?g = ?c" using u P(5) by (simp add: word_unat_eq_iff)
  have "vwriter_inv t"
    using P(1,3) wc message_frame(5) [of "vseg t" ?g] by (simp add: t vwriter_inv_def writer_idle_def Let_def)
  moreover have "vlow t" using D(3) by (simp add: t vlow_def)
  ultimately show ?thesis
    using u P(5) L(2) by (intro publish_slot [OF inv _ _ at, of t ?c]) (simp_all add: t)
qed

lemma conc_publish:
  assumes inv: "vconc_inv s" and pc: "vwpc s = vw_publish m head" and st: "writer_step r s = Some t"
  shows "vconc_inv t"
proof -
  let ?g = "vseg s" and ?i = "unat (cpos (vseg s)) mod capacity_of (vseg s)" and ?n = "msg_needed (vseg s) m"
  let ?c = "head + u64_of_u32 ?n"
  note D = vconc_invD [OF inv] and R = vring_invD [OF vconc_invD(1) [OF inv]]
  note G = varlen_geometryD [OF R(1)]
  have P: "vpending (vwriter s)" "last_position (vwriter s) = head" "head = cpos ?g" "msg_ok ?g m"
      "unat ?n \<le> to_end ?g" "unat (wpos ?g) = unat (cpos ?g) + unat ?n"
      "mem_read (data_bytes ?g) ?i 32 = msg_header ?g m" "mem_read (data_bytes ?g) (?i + 32) (length (fst m)) = fst m"
    using D(4) pc by (simp_all add: vwriter_inv_def header_stored_def slot_taken_def Let_def)
  note M = msg_sizes [OF R(1) P(4)]
  have "mem_read (data_bytes ?g) ?i 4 = take 4 (mem_read (data_bytes ?g) ?i 32)" by simp
  also have "\<dots> = le_bytes 4 (unat ?n)" by (simp only: P(7)) (simp add: msg_header_def encode_header_def)
  finally have sw: "slot_word ?g head 0 = ?n" using P(3) by (simp add: slot_word_def slot_index_eq)
  have t: "t = s\<lparr>vseg := update_meta (\<lambda>mt. mt\<lparr>commit_pos := ?c\<rparr>) ?g,
      vwriter := (vwriter s)\<lparr>vpending := False\<rparr>, vcommit_history := vcommit_history s @ [?c],
      vsent := vsent s @ [m], vwpc := vw_signal\<rparr>"
    using st pc P(1,2) sw by (simp add: writer_step_def Let_def)
  have i: "?i < capacity_of ?g" using G(4) by simp
  have "unat (cpos ?g) + unat ?n < 2 ^ 64" using vlowD [OF D(3)] P(6) by simp
  then have u: "unat ?c = unat (cpos ?g) + unat ?n" using P(3) by (subst unat_add_u64) simp_all
  have hd: "mem_read (data_bytes ?g) ?i 32 = encode_header \<lparr>slot_size = word_of_nat (unat ?n),
      payload_size = word_of_nat (length (fst m)), slot_meta = snd m\<rparr>"
    using P(7) M(1) by (simp add: msg_header_def msg_size_def)
  have "slot_at (data_bytes ?g) (capacity_of ?g) (unat (cpos ?g)) (new_slot (unat ?n) (fst m) (snd m))"
    by (rule slot_at_new) (use i P(5,8) M(2) hd unat_u32_lt [of ?n] in simp_all)
  then have at: "slot_at (data_bytes ?g) (capacity_of ?g) (unat (cpos ?g)) (Msg (unat ?n) (fst m) (snd m))"
    using P(4) by (simp add: new_slot_def msg_ok_def)
  have wc: "wpos ?g = ?c" using u P(6) by (simp add: word_unat_eq_iff)
  have "vwriter_inv t" using wc by (simp add: t vwriter_inv_def writer_idle_def Let_def)
  moreover have "vlow t" using D(3) by (simp add: t vlow_def)
  ultimately show ?thesis
    using u P(6) M(3) by (intro publish_slot [OF inv _ _ at, of t ?c]) (simp_all add: t)
qed

lemma same_fronts_signal:
  "same_fronts g (signal_commit g)" "same_fronts g (signal_read g)"
  by (simp_all add: same_fronts_def)

text \<open>Steps that touch neither the bytes nor the fronts.\<close>

lemma writer_local:
  assumes inv: "vconc_inv s" and t: "t = s\<lparr>vseg := g, vwriter := w, vwpc := pc\<rparr>"
    and g: "same_fronts (vseg s) g" "wpos g = wpos (vseg s)" and w: "vwriter_inv t"
  shows "vconc_inv t"
proof -
  note D = vconc_invD [OF inv] and F = same_fronts_ring [OF g(1)]
  have "vviews_inv t" "vlow t" using D(2,3) g by (simp_all add: t vviews_inv_def vlow_def same_fronts_def)
  then show ?thesis using w F g D(1) by (intro writer_keeps [OF inv, of t "[]"]) (simp_all add: t same_fronts_def)
qed

lemma conc_writer:
  assumes inv: "vconc_inv s" and st: "writer_step r s = Some t" and low: "vlow t"
  shows "vconc_inv t"
proof -
  note D = vconc_invD [OF inv]
  let ?g = "vseg s"
  note sig = message_frame [of "signal_commit ?g" ?g]
  show ?thesis
  proof (cases "vwpc s")
    case vw_idle
    with st show ?thesis by (simp add: writer_step_def Let_def)
  next
    case (vw_load m head)
    show ?thesis by (rule conc_load [OF inv vw_load st])
  next
    case (vw_pad m head)
    show ?thesis by (rule conc_pad [OF inv vw_pad st low])
  next
    case (vw_pad_header m head k)
    show ?thesis
      by (cases "k < 32") (rule conc_pad_header conc_pad_publish; use inv vw_pad_header st in simp)+
  next
    case (vw_pad_signal m head)
    then have t: "t = s\<lparr>vseg := signal_commit ?g, vwriter := vwriter s, vwpc := vw_load m head\<rparr>"
      using st by (simp add: writer_step_def Let_def)
    have "vwriter_inv t"
      using D(4) vw_pad_signal sig by (simp add: t vwriter_inv_def writer_idle_def Let_def)
    then show ?thesis by (intro writer_local [OF inv t same_fronts_signal(1)]) simp_all
  next
    case (vw_take m head)
    show ?thesis by (rule conc_take [OF inv vw_take st low])
  next
    case (vw_header m head k)
    show ?thesis
    proof (cases "k < 32")
      case True
      show ?thesis by (rule conc_header [OF inv vw_header True st])
    next
      case False
      then have t: "t = s\<lparr>vseg := ?g, vwriter := (vwriter s)\<lparr>vpending := True, last_position := head\<rparr>,
          vwpc := vw_payload m head 0\<rparr>"
        using st vw_header by (simp add: writer_step_def Let_def)
      have "vwriter_inv t"
        using D(4) vw_header False
        by (auto simp: t vwriter_inv_def header_stored_def slot_taken_def Let_def mem_read_def [of _ _ 0])
      then show ?thesis by (intro writer_local [OF inv t]) (simp_all add: same_fronts_def)
    qed
  next
    case (vw_payload m head k)
    show ?thesis
    proof (cases "k < length (fst m)")
      case True
      show ?thesis by (rule conc_payload [OF inv vw_payload True st])
    next
      case False
      then have t: "t = s\<lparr>vseg := ?g, vwriter := vwriter s, vwpc := vw_publish m head\<rparr>"
        using st vw_payload by (simp add: writer_step_def Let_def)
      have "vwriter_inv t"
        using D(4) vw_payload False
        by (auto simp: t vwriter_inv_def header_stored_def slot_taken_def Let_def)
      then show ?thesis by (intro writer_local [OF inv t]) (simp_all add: same_fronts_def)
    qed
  next
    case (vw_publish m head)
    show ?thesis by (rule conc_publish [OF inv vw_publish st])
  next
    case vw_signal
    then have t: "t = s\<lparr>vseg := signal_commit ?g, vwriter := vwriter s, vwpc := vw_idle\<rparr>"
      using st by (simp add: writer_step_def Let_def)
    have "vwriter_inv t"
      using D(4) vw_signal by (simp add: t vwriter_inv_def writer_idle_def Let_def)
    then show ?thesis by (intro writer_local [OF inv t same_fronts_signal(1)]) simp_all
  qed
qed

lemma conc_call:
  assumes inv: "vconc_inv s" and st: "call_write_step m s = Some t"
  shows "vconc_inv t"
proof (cases "t = s")
  case False
  then have t: "t = s\<lparr>vseg := vseg s, vwriter := vwriter s, vwpc := vw_load m (wpos (vseg s))\<rparr>"
    and c: "vwpc s = vw_idle" "fst m \<noteq> []" "int (32 + length (fst m) + align_of (vseg s)) \<le> 4294967296"
      "unat (msg_needed (vseg s) m) \<le> capacity_of (vseg s)"
    using st by (auto simp: call_write_step_def word_less_nat_alt not_less split: if_splits)
  have "32 + length (fst m) + align_of (vseg s) \<le> 4294967296" using c(3) by linarith
  with c have m: "msg_ok (vseg s) m" "vwpc s = vw_idle" by (simp_all add: msg_ok_def)
  have "vwriter_inv t"
    using vconc_invD(4) [OF inv] m by (simp add: t vwriter_inv_def writer_idle_def Let_def)
  then show ?thesis by (intro writer_local [OF inv t]) (simp_all add: same_fronts_def)
qed (use inv in simp)


section \<open>Every step of the reader keeps the invariant\<close>

text \<open>What the reader's loads return, once it has seen the oldest slot published.\<close>

lemma oldest_slot:
  assumes inv: "vconc_inv s" and lt: "unat (rpos (vseg s)) < unat (vseen_commit s)"
  obtains v vs where "varlen_slots (vseg s) = v # vs"
    and "slot_at (data_bytes (vseg s)) (capacity_of (vseg s)) (unat (rpos (vseg s))) v"
    and "unat (rpos (vseg s)) + vsize v \<le> unat (cpos (vseg s))" "align_of (vseg s) dvd vsize v"
proof -
  note R = vring_invD [OF vconc_invD(1) [OF inv]] and V = vviews_invD [OF vconc_invD(2) [OF inv]]
  obtain v vs where v: "varlen_slots (vseg s) = v # vs"
    using R(2) lt V(4) by (cases "varlen_slots (vseg s)") auto
  with R(2,3) slots_from_le show thesis by (intro that [OF v]) auto
qed

lemma slot_words:
  assumes "slot_at (data_bytes g) (capacity_of g) (unat p) v"
  shows "slot_word g p 0 = word_of_nat (vsize v)" "slot_word g p 4 = word_of_nat (vpayload_length v)"
    and "unat (slot_word g p 0) = vsize v" "unat (slot_word g p 4) = vpayload_length v"
proof -
  have wf: "slot_wf v" using assms by (simp add: slot_at_def)
  have b: "vsize v < 2 ^ 32" "vpayload_length v < 2 ^ 32"
    using wf by (cases v; simp add: vpayload_length_def)+
  have "le_value (le_bytes 4 (vsize v)) = vsize v" "le_value (le_bytes 4 (vpayload_length v)) = vpayload_length v"
    using b by (simp_all add: le_value_bytes)
  then show "slot_word g p 0 = word_of_nat (vsize v)" "slot_word g p 4 = word_of_nat (vpayload_length v)"
    using slot_at_fields [OF assms] by (simp_all add: slot_word_def slot_index_eq)
  then show "unat (slot_word g p 0) = vsize v" "unat (slot_word g p 4) = vpayload_length v"
    using b by (simp_all add: unat_of_nat)
qed

lemma seen_slot_at:
  assumes "vconc_inv s" "slot_seen s v"
  shows "slot_at (data_bytes (vseg s)) (capacity_of (vseg s)) (unat (rpos (vseg s))) v"
    and "unat (rpos (vseg s)) < unat (vseen_commit s)"
proof -
  show at: "slot_at (data_bytes (vseg s)) (capacity_of (vseg s)) (unat (rpos (vseg s))) v"
    using vring_invD(2) [OF vconc_invD(1) [OF assms(1)]] assms(2) by (auto simp: slot_seen_def)
  show "unat (rpos (vseg s)) < unat (vseen_commit s)"
    using slot_at_sizes(1) [OF at] assms(2) by (simp add: slot_seen_def)
qed

text \<open>The steps that change local state only.\<close>

lemma reader_local:
  assumes inv: "vconc_inv s" and t: "t = s\<lparr>vrpc := vrpc t\<rparr>" and r: "vreader_inv t"
  shows "vconc_inv t"
proof -
  obtain pc where t: "t = s\<lparr>vrpc := pc\<rparr>" using t by blast
  have "vwriter_inv t" using vwriter_inv_frame [of t s] vconc_invD(4) [OF inv] by (simp add: t)
  then show ?thesis using inv r by (simp add: t vconc_inv_def vviews_inv_def vlow_def)
qed

lemma conc_r_call:
  assumes inv: "vconc_inv s" and st: "call_read_step s = Some t"
  shows "vconc_inv t"
proof -
  have "t = s\<lparr>vrpc := vr_load\<rparr>" using st by (simp add: call_read_step_def split: if_splits)
  then show ?thesis by (intro reader_local [OF inv]) (simp_all add: vreader_inv_def)
qed

lemma conc_r_load:
  assumes inv: "vconc_inv s" and pc: "vrpc s = vr_load" and st: "reader_step c s = Some t"
  shows "vconc_inv t"
proof -
  note V = vviews_invD [OF vconc_invD(2) [OF inv]]
  have c: "c \<in> set (vcommit_history s)" "vseen_commit s \<le> c"
    and t: "t = s\<lparr>vseen_commit := c, vrpc := (if c > rpos (vseg s) then vr_size else vr_idle)\<rparr>"
    using st pc by (simp_all add: reader_step_def Let_def split: if_splits)
  have "vwriter_inv t" using vwriter_inv_frame [of t s] vconc_invD(4) [OF inv] by (simp add: t)
  then show ?thesis
    using inv V(7) [OF c(1)] by (simp add: t vconc_inv_def vviews_inv_def vlow_def vreader_inv_def word_less_nat_alt)
qed

lemma conc_r_size:
  assumes inv: "vconc_inv s" and pc: "vrpc s = vr_size" and st: "reader_step c s = Some t"
  shows "vconc_inv t"
proof -
  let ?g = "vseg s" and ?n = "slot_word (vseg s) (rpos (vseg s)) 0"
  have lt: "unat (rpos ?g) < unat (vseen_commit s)"
    using vconc_invD(5) [OF inv] pc by (simp add: vreader_inv_def)
  obtain v vs where v: "varlen_slots ?g = v # vs"
    and at: "slot_at (data_bytes ?g) (capacity_of ?g) (unat (rpos ?g)) v"
    by (rule oldest_slot [OF inv lt])
  have d: "unat (vseen_commit s - rpos ?g) = unat (vseen_commit s) - unat (rpos ?g)"
    using lt by (simp add: unat_sub word_le_nat_alt)
  have "slot_seen s v" if "\<not> vseen_commit s - rpos ?g < u64_of_u32 ?n"
    using that v slot_words(3) [OF at] d lt by (simp add: slot_seen_def word_less_nat_alt)
  moreover have t: "t = s\<lparr>vrpc := (if ?n = 0 \<or> vseen_commit s - rpos ?g < u64_of_u32 ?n then vr_idle
      else vr_psize)\<rparr>"
    using st pc by (simp add: reader_step_def Let_def)
  ultimately have "vreader_inv t"
    using vreader_invI(1) [of t] vreader_invI(2) [of t v]
    by (cases "?n = 0 \<or> vseen_commit s - rpos ?g < u64_of_u32 ?n") auto
  with t show ?thesis by (intro reader_local [OF inv]) simp_all
qed

lemma conc_r_psize:
  assumes inv: "vconc_inv s" and pc: "vrpc s = vr_psize" and st: "reader_step c s = Some t"
  shows "vconc_inv t"
proof -
  let ?g = "vseg s"
  obtain v where v: "slot_seen s v" using vconc_invD(5) [OF inv] pc by (auto simp: vreader_inv_def)
  note at = seen_slot_at(1) [OF inv v]
  have wf: "slot_wf v" using at by (simp add: slot_at_def)
  have z: "slot_word ?g (rpos ?g) 4 = 0 \<longleftrightarrow> vpayload_length v = 0"
    using slot_words(4) [OF at] by (metis unat_eq_zero)
  have t: "t = s\<lparr>vrpc := (if slot_word ?g (rpos ?g) 4 = 0 then vr_advance None
      else vr_meta (slot_word ?g (rpos ?g) 4))\<rparr>"
    using st pc by (simp add: reader_step_def Let_def)
  have "vreader_inv t"
  proof (cases v)
    case (Pad n)
    then show ?thesis using v z by (intro vreader_invI(5) [of t n]) (simp_all add: t vpayload_length_def)
  next
    case (Msg n pl mt)
    then show ?thesis
      using v z wf slot_words(4) [OF at]
      by (intro vreader_invI(3) [of t "slot_word ?g (rpos ?g) 4" n pl mt]) (simp_all add: t vpayload_length_def)
  qed
  with t show ?thesis by (intro reader_local [OF inv]) simp_all
qed

lemma conc_r_meta:
  assumes inv: "vconc_inv s" and pc: "vrpc s = vr_meta p" and st: "reader_step c s = Some t"
  shows "vconc_inv t"
proof -
  obtain n pl mt where v: "slot_seen s (Msg n pl mt)" "unat p = length pl"
    using vconc_invD(5) [OF inv] pc by (auto simp: vreader_inv_def)
  have "decode_meta (mem_read (data_bytes (vseg s)) (slot_index (vseg s) (rpos (vseg s)) + 8) 24) = mt"
    using slot_at_message(1) [OF seen_slot_at(1) [OF inv v(1)]] by (simp add: slot_index_eq)
  then have t: "t = s\<lparr>vrpc := (if p > vmax_size s then vr_idle else vr_copy p mt (take 0 pl))\<rparr>"
    using st pc by (auto simp: reader_step_def Let_def)
  then have "vreader_inv t"
    using v vreader_invI(1) [of t] vreader_invI(4) [of t p mt 0 pl n] by (cases "p > vmax_size s") auto
  with t show ?thesis by (intro reader_local [OF inv]) simp_all
qed

lemma conc_r_copy:
  assumes inv: "vconc_inv s" and pc: "vrpc s = vr_copy p mt buf" and st: "reader_step c s = Some t"
  shows "vconc_inv t"
proof -
  let ?g = "vseg s" and ?i = "unat (rpos (vseg s)) mod capacity_of (vseg s)"
  obtain n pl where v: "slot_seen s (Msg n pl mt)" "unat p = length pl" "length buf \<le> length pl"
      "buf = take (length buf) pl"
    using vconc_invD(5) [OF inv] pc by (auto simp: vreader_inv_def)
  note at = seen_slot_at(1) [OF inv v(1)]
  have "vreader_inv t"
  proof (cases "length buf < unat p")
    case True
    have "pl ! length buf = mem_read (data_bytes ?g) (?i + 32) (length pl) ! length buf"
      by (simp only: slot_at_message(2) [OF at])
    also have "\<dots> = data_bytes ?g ! (?i + 32 + length buf)"
      using True v(2) slot_at_sizes(4) [OF at] at
        varlen_geometryD(6) [OF vring_invD(1) [OF vconc_invD(1) [OF inv]]]
      by (auto simp: mem_read_def slot_at_def)
    finally have "buf @ [data_bytes ?g ! (?i + 32 + length buf)] = take (Suc (length buf)) pl"
      using True v(2,4) by (metis take_Suc_conv_app_nth)
    then have "t = s\<lparr>vrpc := vr_copy p mt (take (Suc (length buf)) pl)\<rparr>"
      using st pc True by (simp add: reader_step_def Let_def slot_index_eq)
    then show ?thesis using v(1,2) by (intro vreader_invI(4) [of t p mt "Suc (length buf)" pl n]) simp_all
  next
    case False
    then have "t = s\<lparr>vrpc := vr_advance (Some (pl, mt))\<rparr>"
      using st pc v(2-4) by (simp add: reader_step_def Let_def)
    then show ?thesis using v(1) by (intro vreader_invI(6) [of t pl mt n]) simp_all
  qed
  moreover have "t = s\<lparr>vrpc := vrpc t\<rparr>"
    using st pc by (cases "length buf < unat p") (auto simp: reader_step_def Let_def)
  ultimately show ?thesis by (intro reader_local [OF inv])
qed

text \<open>Giving the slot back.\<close>

lemma conc_r_advance:
  assumes inv: "vconc_inv s" and pc: "vrpc s = vr_advance m" and st: "reader_step c s = Some t"
  shows "vconc_inv t"
proof -
  let ?g = "vseg s"
  note D = vconc_invD [OF inv] and R = vring_invD [OF vconc_invD(1) [OF inv]]
    and V = vviews_invD [OF vconc_invD(2) [OF inv]]
  obtain v where v: "slot_seen s v" and m: "msgs_of [v] = (case m of None \<Rightarrow> [] | Some m \<Rightarrow> [m])"
    using D(5) pc by (auto simp: vreader_inv_def split: option.splits)
  note at = seen_slot_at(1) [OF inv v]
  obtain vs where vs: "varlen_slots ?g = v # vs" using v by (auto simp: slot_seen_def)
  let ?r = "rpos ?g + u64_of_u32 (slot_word ?g (rpos ?g) 0)"
  let ?h = "update_meta (\<lambda>mt. mt\<lparr>read_pos := ?r\<rparr>) ?g"
  have t: "t = s\<lparr>vseg := ?h, vread_history := vread_history s @ [?r],
      vreceived := vreceived s @ msgs_of [v], vrpc := vr_signal (m = None)\<rparr>"
    using st pc m by (simp add: reader_step_def Let_def)
  have sf: "slots_from (data_bytes ?g) (capacity_of ?g) (unat (rpos ?g) + vsize v) vs (unat (cpos ?g))"
    using R(2) vs by simp
  then have le: "unat (rpos ?g) + vsize v \<le> unat (cpos ?g)" by (rule slots_from_le)
  then have u: "unat ?r = unat (rpos ?g) + vsize v"
    using slot_words(3) [OF at] unat_u64_lt [of "cpos ?g"] by (subst unat_add_u64) simp_all
  have sl: "varlen_slots ?h = vs" using sf u by (intro varlen_slots_eq) simp
  have "vring_inv ?h" using R sl sf u vs by (simp add: vring_inv_def)
  moreover have "vwriter_inv t" using vwriter_inv_frame [of t s] D(4) by (simp add: t)
  moreover have "vsent s = vreceived s @ msgs_of (v # vs)" using D(6) vs by (simp add: varlen_contents_def)
  then have "vsent t = vreceived t @ varlen_contents ?h"
    using sl by (simp add: t varlen_contents_def flip: msgs_of_simps(4))
  moreover have "vviews_inv t"
    using D(2) V(3,6) u by (auto simp: t vviews_inv_def list_all_iff intro: trans_le_add1)
  ultimately show ?thesis using D(3) by (simp add: t vconc_inv_def vlow_def vreader_inv_def)
qed

lemma conc_r_signal:
  assumes inv: "vconc_inv s" and pc: "vrpc s = vr_signal skipped" and st: "reader_step c s = Some t"
  shows "vconc_inv t"
proof -
  have t: "t = s\<lparr>vseg := signal_read (vseg s), vrpc := (if skipped then vr_load else vr_idle)\<rparr>"
    using st pc by (simp add: reader_step_def Let_def)
  note F = same_fronts_ring [OF same_fronts_signal(2) [of "vseg s"]]
  have "vwriter_inv t" using vwriter_inv_frame [of t s] vconc_invD(4) [OF inv] by (simp add: t)
  then show ?thesis
    using inv F by (simp add: t vconc_inv_def vlow_def vviews_inv_def vreader_inv_def varlen_contents_def)
qed

lemma conc_reader:
  assumes "vconc_inv s" "reader_step c s = Some t"
  shows "vconc_inv t"
proof (cases "vrpc s")
  case vr_idle
  then show ?thesis using assms(2) by (simp add: reader_step_def Let_def)
next
  case vr_load
  show ?thesis by (rule conc_r_load [OF assms(1) vr_load assms(2)])
next
  case vr_size
  show ?thesis by (rule conc_r_size [OF assms(1) vr_size assms(2)])
next
  case vr_psize
  show ?thesis by (rule conc_r_psize [OF assms(1) vr_psize assms(2)])
next
  case (vr_meta p)
  show ?thesis by (rule conc_r_meta [OF assms(1) vr_meta assms(2)])
next
  case (vr_copy p mt buf)
  show ?thesis by (rule conc_r_copy [OF assms(1) vr_copy assms(2)])
next
  case (vr_advance m)
  show ?thesis by (rule conc_r_advance [OF assms(1) vr_advance assms(2)])
next
  case (vr_signal skipped)
  show ?thesis by (rule conc_r_signal [OF assms(1) vr_signal assms(2)])
qed

lemma vreach_inv: "vreach s0 s \<Longrightarrow> vconc_inv s0 \<Longrightarrow> vconc_inv s"
  by (induction rule: vreach.induct) (auto intro: conc_call conc_r_call conc_writer conc_reader)

lemma vconc_inv_start:
  assumes op: "varlen_ring_open seg0 cap alignment = Some (w, r, s)" and al: "8 \<le> alignment"
    and len: "unat cap \<le> length (data_bytes seg0)"
      "unat cap + 32 \<le> length (data_bytes seg0) + unat alignment"
  shows "vconc_inv (new_vstate w s max_size)"
proof -
  note I = varlen_ring_open_inv(1) [OF op al len, of 0 max_size] varlen_ring_open_inv(2) [OF op al len, of 0]
  have z: "rpos s = 0" "cpos s = 0" "wpos s = 0" "data_capacity (hdr s) = cap"
    using op by (auto simp: varlen_ring_open_def init_control_block_def Let_def split: if_splits)
  have i: "varlen_inv 0 w s" "\<not> vpending w" using I(1) by (simp_all add: varlen_chan_inv_def)
  have sl: "varlen_slots s = []" using z by (simp add: varlen_slots_def)
  have "vring_inv s" using varlen_invD(1) [OF i(1)] sl z by (simp add: vring_inv_def)
  moreover have "0 < - cap"
    using varlen_geometryD(3) [OF varlen_invD(1) [OF i(1)]] z(4) by (metis neg_equal_0_iff_equal word_gt_0)
  ultimately show ?thesis
    using i(2) z sl
    by (simp add: vconc_inv_def new_vstate_def vviews_inv_def vlow_def vwriter_inv_def writer_idle_def
        vreader_inv_def varlen_contents_def Let_def)
qed


section \<open>Which bytes the next step touches\<close>

definition writes_next :: "vstate \<Rightarrow> nat list" where
  "writes_next s =
     (case vwpc s of
        vw_pad_header m head k \<Rightarrow> if k < 32 then [slot_index (vseg s) head + k] else []
      | vw_header m head k \<Rightarrow> if k < 32 then [slot_index (vseg s) head + k] else []
      | vw_payload m head k \<Rightarrow> if k < length (fst m) then [slot_index (vseg s) head + 32 + k] else []
      | _ \<Rightarrow> [])"

definition reads_next :: "vstate \<Rightarrow> nat list" where
  "reads_next s =
     (let i = slot_index (vseg s) (rpos (vseg s))
      in case vrpc s of
        vr_size \<Rightarrow> [i..<i + 4]
      | vr_psize \<Rightarrow> [i + 4..<i + 8]
      | vr_meta p \<Rightarrow> [i + 8..<i + 32]
      | vr_copy p mt buf \<Rightarrow> if length buf < unat p then [i + 32 + length buf] else []
      | vr_advance m \<Rightarrow> [i..<i + 4]
      | _ \<Rightarrow> [])"

lemma writes_in_span:
  assumes inv: "vconc_inv s" and j: "j \<in> set (writes_next s)"
  defines "g \<equiv> vseg s"
  shows "unat (cpos g) < unat (wpos g)" "unat (cpos g) mod capacity_of g + (unat (wpos g) - unat (cpos g)) \<le> capacity_of g"
    and "j < length (data_bytes g)" "unat (cpos g) mod capacity_of g \<le> j"
    and "j < unat (cpos g) mod capacity_of g + (unat (wpos g) - unat (cpos g)) \<or> capacity_of g \<le> j"
proof -
  let ?i = "unat (cpos g) mod capacity_of g" and ?m = "unat (wpos g) - unat (cpos g)"
  note D = vconc_invD [OF inv] and L = pad_length [OF inv, folded g_def]
  have i: "?i < capacity_of g"
    using varlen_geometryD(4) [OF vring_invD(1) [OF D(1)]] by (simp add: g_def)
  have "unat (cpos g) < unat (wpos g) \<and> ?i + ?m \<le> capacity_of g \<and> j < length (data_bytes g) \<and> ?i \<le> j \<and>
      (j < ?i + ?m \<or> capacity_of g \<le> j)"
  proof (cases "vwpc s")
    case (vw_pad_header m head k)
    with D(4) j have "k < 32" "j = ?i + k" "unat (wpos g) = unat (cpos g) + to_end g"
      by (auto simp: vwriter_inv_def writes_next_def slot_index_eq g_def Let_def split: if_splits)
    then show ?thesis using L(3,4) i by auto
  next
    case (vw_header m head k)
    with D(4) j have t: "slot_taken s m head" and k: "k < 32" "j = ?i + k"
      by (auto simp: vwriter_inv_def slot_taken_def writes_next_def slot_index_eq g_def Let_def split: if_splits)
    then show ?thesis using slot_in_data [OF inv t, of k] i by (auto simp: slot_taken_def g_def)
  next
    case (vw_payload m head k)
    with D(4) j have t: "slot_taken s m head" and k: "k < length (fst m)" "j = ?i + (32 + k)"
      by (auto simp: vwriter_inv_def header_stored_def slot_taken_def writes_next_def slot_index_eq g_def
          Let_def split: if_splits)
    then show ?thesis using slot_in_data [OF inv t, of "32 + k"] i by (auto simp: slot_taken_def g_def)
  qed (use j in \<open>simp_all add: writes_next_def\<close>)
  then show "unat (cpos g) < unat (wpos g)" "?i + ?m \<le> capacity_of g" "j < length (data_bytes g)" "?i \<le> j"
    "j < ?i + ?m \<or> capacity_of g \<le> j" by auto
qed

lemma reads_in_slot:
  assumes inv: "vconc_inv s" and j: "j \<in> set (reads_next s)"
  defines "g \<equiv> vseg s"
  obtains n where "unat (rpos g) mod capacity_of g \<le> j" "j < unat (rpos g) mod capacity_of g + n"
    and "unat (rpos g) mod capacity_of g + n \<le> capacity_of g" "unat (rpos g) + n \<le> unat (vseen_commit s)"
proof -
  let ?i = "unat (rpos g) mod capacity_of g"
  note D = vconc_invD [OF inv] and R = vring_invD [OF vconc_invD(1) [OF inv], folded g_def]
    and V = vviews_invD [OF vconc_invD(2) [OF inv], folded g_def]
  note G = varlen_geometryD [OF R(1)]
  note found = that
  have seen: thesis if v: "slot_seen s v" and "j < ?i + length (slot_bytes v)" "?i \<le> j" for v
  proof (rule found)
    note at = seen_slot_at(1) [OF inv v, folded g_def]
    have "length (slot_bytes v) \<le> vsize v" using at by (simp add: slot_at_def slot_bytes_le)
    then show "j < ?i + vsize v" using that(2) by linarith
    show "?i + vsize v \<le> capacity_of g" using slot_at_sizes(4) [OF at] .
    show "unat (rpos g) + vsize v \<le> unat (vseen_commit s)" using v by (simp add: slot_seen_def g_def)
  qed fact
  have hdr8: "8 \<le> length (slot_bytes v)" for v by (cases v) simp_all
  show thesis
  proof (cases "vrpc s")
    case vr_size
    have lt: "unat (rpos g) < unat (vseen_commit s)" using D(5) vr_size by (simp add: vreader_inv_def g_def)
    have "align_of g dvd unat (vseen_commit s) - unat (rpos g)" using V(5) R(4) by (intro dvd_diff_nat)
    then have "align_of g \<le> unat (vseen_commit s) - unat (rpos g)" using lt by (intro dvd_imp_le) auto
    moreover have "?i + align_of g \<le> capacity_of g" using R(4) G by (intro slot_contiguous) auto
    ultimately show thesis
      using j vr_size G(2) lt by (intro found [of "align_of g"]) (auto simp: reads_next_def slot_index_eq g_def Let_def)
  next
    case vr_psize
    with D(5) obtain v where v: "slot_seen s v" by (auto simp: vreader_inv_def)
    then show thesis using j vr_psize hdr8 [of v] by (intro seen [OF v]) (auto simp: reads_next_def slot_index_eq g_def Let_def)
  next
    case (vr_meta p)
    with D(5) obtain n pl mt where v: "slot_seen s (Msg n pl mt)" by (auto simp: vreader_inv_def)
    then show thesis using j vr_meta by (intro seen [OF v]) (auto simp: reads_next_def slot_index_eq g_def Let_def)
  next
    case (vr_copy p mt buf)
    with D(5) obtain n pl where v: "slot_seen s (Msg n pl mt)" "unat p = length pl" by (auto simp: vreader_inv_def)
    then show thesis
      using j vr_copy by (intro seen [OF v(1)]) (auto simp: reads_next_def slot_index_eq g_def Let_def split: if_splits)
  next
    case (vr_advance m)
    with D(5) obtain v where v: "slot_seen s v" by (auto simp: vreader_inv_def split: option.splits)
    then show thesis using j vr_advance hdr8 [of v] by (intro seen [OF v]) (auto simp: reads_next_def slot_index_eq g_def Let_def)
  qed (use j in \<open>simp_all add: reads_next_def\<close>)
qed


section \<open>Properties under concurrency\<close>

text \<open>
  C4: Linear history of the variable-length ring. In every interleaving of the single memory
  accesses of \<open>write\<close> and \<open>read\<close>, with stale loads of each other's positions and wrap padding
  committed on the way, the messages received are exactly the messages committed, bytes and
  metadata, in order, less those still published in the ring. The ring has alignment 8 or
  more and room for a padding header behind its data (without it the padding header can be stored
  out of bounds, \<open>Varlen_Limits\<close>), and messages are not empty.
\<close>

theorem varlen_concurrent_fifo:
  assumes "varlen_ring_open seg0 cap alignment = Some (w, r, s)" "8 \<le> alignment"
    and "unat cap \<le> length (data_bytes seg0)"
    and "unat cap + 32 \<le> length (data_bytes seg0) + unat alignment"
    and "vreach (new_vstate w s max_size) t"
  shows "vsent t = vreceived t @ varlen_contents (vseg t)"
  using vconc_invD(6) [OF vreach_inv [OF assms(5) vconc_inv_start [OF assms(1-4)]]] .

text \<open>
  C5: No data race in the variable-length ring. In every reachable state the bytes the writer
  is about to store and the bytes the reader is about to load are disjoint; the stores stay in
  the mapping and the loads in the data region; the reader only loads from a slot whose
  publication it has acquired through \<open>commit_pos\<close>, and the writer never reserves beyond what it
  has acquired through \<open>read_pos\<close>. The ring has alignment 8 or
  more and room for a padding header behind its data (without it the padding header can be stored
  out of bounds, \<open>Varlen_Limits\<close>), and messages are not empty.
\<close>

theorem varlen_concurrent_race_free:
  assumes "varlen_ring_open seg0 cap alignment = Some (w, r, s)" "8 \<le> alignment"
    and "unat cap \<le> length (data_bytes seg0)"
    and "unat cap + 32 \<le> length (data_bytes seg0) + unat alignment"
    and "vreach (new_vstate w s max_size) t"
  shows "set (writes_next t) \<inter> set (reads_next t) = {} \<and>
    list_all (\<lambda>j. j < length (data_bytes (vseg t))) (writes_next t) \<and>
    list_all (\<lambda>j. j < capacity_of (vseg t)) (reads_next t) \<and>
    (reads_next t \<noteq> [] \<longrightarrow> unat (rpos (vseg t)) < unat (vseen_commit t)) \<and>
    unat (wpos (vseg t)) \<le> unat (vseen_read t) + capacity_of (vseg t)"
proof -
  have inv: "vconc_inv t" by (rule vreach_inv [OF assms(5) vconc_inv_start [OF assms(1-4)]])
  let ?g = "vseg t"
  note R = vring_invD [OF vconc_invD(1) [OF inv]] and V = vviews_invD [OF vconc_invD(2) [OF inv]]
  note G = varlen_geometryD [OF R(1)]
  have "j \<noteq> k" if j: "j \<in> set (writes_next t)" and k: "k \<in> set (reads_next t)" for j k
  proof -
    note W = writes_in_span [OF inv j]
    obtain n where n: "unat (rpos ?g) mod capacity_of ?g \<le> k" "k < unat (rpos ?g) mod capacity_of ?g + n"
      "unat (rpos ?g) mod capacity_of ?g + n \<le> capacity_of ?g" "unat (rpos ?g) + n \<le> unat (vseen_commit t)"
      by (rule reads_in_slot [OF inv k])
    have "unat (rpos ?g) mod capacity_of ?g + n \<le> unat (cpos ?g) mod capacity_of ?g \<or>
        unat (cpos ?g) mod capacity_of ?g + (unat (wpos ?g) - unat (cpos ?g)) \<le> unat (rpos ?g) mod capacity_of ?g"
      using G(4) n(4) V(2-4) W(1) by (intro ring_disjoint) linarith+
    then show "j \<noteq> k" using W(4,5) n by linarith
  qed
  moreover have "k < capacity_of ?g \<and> unat (rpos ?g) < unat (vseen_commit t)" if "k \<in> set (reads_next t)" for k
    by (rule reads_in_slot [OF inv that]) linarith
  ultimately show ?thesis
    using writes_in_span(3) [OF inv] V(2) by (auto simp: list_all_iff) (metis list.set_intros(1) neq_Nil_conv)
qed

text \<open>
  A schedule on a ring of 128 bytes: one message is published, the writer is about to store the
  header of the next one and the reader is about to load the size of the first.
\<close>

definition overlapping_schedule :: "vaction list" where
  "overlapping_schedule =
     v_call ([5], default_meta) # replicate 39 (v_writer 0) @
     [v_call ([6], default_meta), v_writer 0, v_writer 0, v_read, v_reader 64]"

lemma overlapping_state:
  obtains w and r :: varlen_reader and s t where "varlen_ring_open (fresh_segment 128) 128 32 = Some (w, r, s)"
    and "vreach (new_vstate w s 16) t" "writes_next t = [64]" "reads_next t = [0, 1, 2, 3]"
    and "vsent t = [([5], default_meta)]"
proof -
  let ?f = "\<lambda>c. case c of Some (w, r, s) \<Rightarrow>
    map_option (\<lambda>t. (writes_next t, reads_next t, vsent t)) (vrun overlapping_schedule (new_vstate w s 16))"
  have e: "?f (varlen_ring_open (fresh_segment 128) 128 32) = Some ([64], [0, 1, 2, 3], [([5], default_meta)])"
    by code_simp
  obtain w and r :: varlen_reader and s where o: "varlen_ring_open (fresh_segment 128) 128 32 = Some (w, r, s)"
    by (rule varlen_example_opens)
  obtain t where t: "vrun overlapping_schedule (new_vstate w s 16) = Some t" "writes_next t = [64]"
    "reads_next t = [0, 1, 2, 3]" "vsent t = [([5], default_meta)]"
    using e o by auto
  have "vreach (new_vstate w s 16) t" using t(1) vreach.start by (rule vrun_vreach)
  with o t show thesis using that by blast
qed

theorem varlen_concurrent_fifo_witness:
  "\<exists>w (r :: varlen_reader) s t. varlen_ring_open (fresh_segment 128) 128 32 = Some (w, r, s) \<and>
    vreach (new_vstate w s 16) t \<and> [([5], default_meta)] = vreceived t @ varlen_contents (vseg t)"
proof -
  obtain w and r :: varlen_reader and s t where t: "varlen_ring_open (fresh_segment 128) 128 32 = Some (w, r, s)"
    "vreach (new_vstate w s 16) t" "vsent t = [([5], default_meta)]" by (rule overlapping_state)
  from varlen_concurrent_fifo [OF t(1) _ _ _ t(2)] t
  have "[([5], default_meta)] = vreceived t @ varlen_contents (vseg t)" by (simp add: fresh_segment_def)
  with t show ?thesis by blast
qed

theorem varlen_concurrent_race_free_witness:
  "\<exists>t. writes_next t = [64] \<and> reads_next t = [0, 1, 2, 3] \<and>
    set (writes_next t) \<inter> set (reads_next t) = {} \<and> unat (rpos (vseg t)) < unat (vseen_commit t)"
proof -
  obtain w and r :: varlen_reader and s t where t: "varlen_ring_open (fresh_segment 128) 128 32 = Some (w, r, s)"
    "vreach (new_vstate w s 16) t" "writes_next t = [64]" "reads_next t = [0, 1, 2, 3]"
    by (rule overlapping_state)
  from varlen_concurrent_race_free [OF t(1) _ _ _ t(2)] t(3,4)
  have "set (writes_next t) \<inter> set (reads_next t) = {} \<and> unat (rpos (vseg t)) < unat (vseen_commit t)"
    by (simp add: fresh_segment_def)
  with t(3,4) show ?thesis by blast
qed

end
