(* ===== verification/Varlen_Sequential.thy ===== *)
theory Varlen_Sequential
  imports Varlen_Concurrent
begin

text \<open>
  The fine-grained threads of \<open>Varlen_Threads\<close> and the whole operations of \<open>Varlen_Ring\<close> are the
  same program: a writer or reader that runs on undisturbed does what one call does, byte for byte.
\<close>

lemma vrun_append: "vrun (as @ bs) s = Option.bind (vrun as s) (vrun bs)"
  by (induction as arbitrary: s) (auto split: option.splits)

lemma vrun_step: "vapply a s = Some t \<Longrightarrow> vlow t \<Longrightarrow> vrun (a # as) s = vrun as t"
  by simp

text \<open>A state is low while the write position has a capacity left before the wrap.\<close>

lemma vlowI:
  assumes "data_capacity (hdr (vseg s)) \<noteq> 0" "unat (wpos (vseg s)) + capacity_of (vseg s) < 2 ^ 64"
  shows "vlow s"
  unfolding vlow_def using above_minus [OF assms(2,1)] .


section \<open>Runs of stores\<close>

text \<open>The three byte loops of the writer, which differ in their bytes and where they go.\<close>

lemma vrun_bytes:
  assumes step: "\<And>t k. vwpc t = P k \<Longrightarrow> k < length bs \<Longrightarrow> hdr (vseg t) = h \<Longrightarrow>
      writer_step r t = Some (t\<lparr>vseg := poke (vseg t) (i + k) (bs ! k), vwpc := P (Suc k)\<rparr>)"
    and "vwpc s = P k" "k \<le> length bs" "vlow s" "hdr (vseg s) = h"
    and "i + length bs \<le> length (data_bytes (vseg s))"
  shows "vrun (replicate (length bs - k) (v_writer r)) s =
    Some (s\<lparr>vseg := (vseg s)\<lparr>data_bytes := mem_write (data_bytes (vseg s)) (i + k) (drop k bs)\<rparr>,
            vwpc := P (length bs)\<rparr>)"
  using assms(2-)
proof (induction "length bs - k" arbitrary: k s)
  case 0
  then show ?case by (simp add: mem_write_def)
next
  case (Suc n)
  let ?t = "s\<lparr>vseg := poke (vseg s) (i + k) (bs ! k), vwpc := P (Suc k)\<rparr>"
  have k: "k < length bs" using Suc.hyps(2) by simp
  have a: "vapply (v_writer r) s = Some ?t" using step [OF Suc.prems(1) k Suc.prems(4)] by simp
  have t: "vlow ?t" "hdr (vseg ?t) = h" "length (data_bytes (vseg ?t)) = length (data_bytes (vseg s))"
    using Suc.prems(3,4,5) k by (simp_all add: vlow_def)
  have n: "n = length bs - Suc k" using Suc.hyps(2) by simp
  have d: "drop k bs = bs ! k # drop (Suc k) bs" using k by (simp add: Cons_nth_drop_Suc)
  have "vrun (replicate (length bs - k) (v_writer r)) s = vrun (replicate n (v_writer r)) ?t"
    using vrun_step [OF a t(1)] Suc.hyps(2) by (metis replicate_Suc)
  also have "\<dots> = Some (?t\<lparr>vseg := (vseg ?t)\<lparr>data_bytes := mem_write (data_bytes (vseg ?t))
        (i + Suc k) (drop (Suc k) bs)\<rparr>, vwpc := P (length bs)\<rparr>)"
    unfolding n using Suc.hyps(1) [OF n, of ?t] k t Suc.prems(5) by simp
  also have "\<dots> = Some (s\<lparr>vseg := (vseg s)\<lparr>data_bytes := mem_write (data_bytes (vseg s))
        (i + k) (drop k bs)\<rparr>, vwpc := P (length bs)\<rparr>)"
    using mem_write_step [of "i + k" "drop (Suc k) bs" "data_bytes (vseg s)" "bs ! k"] k Suc.prems(5)
    by (simp add: d poke_def)
  finally show ?case .
qed

lemma run_pad:
  fixes s :: vstate
  defines "g \<equiv> vseg s"
  assumes pc: "vwpc s = vw_pad m (wpos g)" and fit: "slot_index g (wpos g) + 32 \<le> length (data_bytes g)"
    and low: "vlow (s\<lparr>vseg := padded_segment g\<rparr>)"
  shows "vrun (replicate 35 (v_writer r)) s =
    Some (s\<lparr>vseg := padded_segment g, vcommit_history := vcommit_history s @ [wpos (padded_segment g)],
            vwpc := vw_load m (wpos (padded_segment g))\<rparr>)"
proof -
  let ?p = "wpos g + wrap_padding g (wpos g)" and ?i = "slot_index g (wpos g)"
  let ?g1 = "update_meta (\<lambda>mt. mt\<lparr>write_pos := ?p\<rparr>) g"
  let ?g2 = "?g1\<lparr>data_bytes := mem_write (data_bytes g) ?i (pad_header g (wpos g))\<rparr>"
  let ?g3 = "update_meta (\<lambda>mt. mt\<lparr>commit_pos := ?p\<rparr>) ?g2"
  let ?s1 = "s\<lparr>vseg := ?g1, vwpc := vw_pad_header m (wpos g) 0\<rparr>"
  let ?s2 = "s\<lparr>vseg := ?g2, vwpc := vw_pad_header m (wpos g) 32\<rparr>"
  let ?s3 = "s\<lparr>vseg := ?g3, vcommit_history := vcommit_history s @ [?p], vwpc := vw_pad_signal m ?p\<rparr>"
  have pad: "padded_segment g = signal_commit ?g3" "wpos (padded_segment g) = ?p"
    by (simp_all add: padded_segment_def Let_def wrap_padding_def pad_header_def slot_index_def)
  have l: "vlow ?s1" "vlow ?s2" "vlow ?s3" using low by (simp_all add: vlow_def pad)
  have "vrun (replicate 32 (v_writer r)) ?s1 = Some ?s2"
    using vrun_bytes [where P = "vw_pad_header m (wpos g)" and bs = "pad_header g (wpos g)" and k = 0 and s = ?s1
        and i = ?i and h = "hdr ?g1" and r = r] l(1) fit
    by (auto simp: writer_step_def Let_def slot_index_def pad_header_def wrap_padding_def update_meta_def)
  moreover have "writer_step r s = Some ?s1" using pc by (simp add: writer_step_def g_def Let_def)
  moreover have "writer_step r ?s2 = Some ?s3"
    by (simp add: writer_step_def wrap_padding_def Let_def)
  moreover have "replicate 35 (v_writer r) =
      v_writer r # replicate 32 (v_writer r) @ [v_writer r, v_writer r]"
    by (simp add: numeral_eq_Suc)
  ultimately show ?thesis
    using l low by (simp add: vrun_append writer_step_def pad vlow_def)
qed

lemma run_slot:
  fixes s :: vstate and m :: varlen_message
  defines "g \<equiv> vseg s"
  defines "n \<equiv> msg_needed g m"
  defines "f \<equiv> fill_payload (headed_segment n (msg_size m) (snd m) g) (fst m)"
  assumes pc: "vwpc s = vw_take m (wpos g)" and cp: "cpos g = wpos g"
    and fit: "slot_index g (wpos g) + 32 + length (fst m) \<le> length (data_bytes g)"
    and low: "vlow (s\<lparr>vseg := f\<rparr>)" and sz: "slot_word f (wpos g) 0 = n"
  shows "vrun (replicate (37 + length (fst m)) (v_writer r)) s =
    Some (s\<lparr>vseg := committed_segment n f, vwriter := (headed_writer (vwriter s) g)\<lparr>vpending := False\<rparr>,
            vcommit_history := vcommit_history s @ [wpos g + u64_of_u32 n], vsent := vsent s @ [m],
            vwpc := vw_idle\<rparr>)"
proof -
  let ?i = "slot_index g (wpos g)" and ?p = "wpos g + u64_of_u32 n"
  let ?g1 = "update_meta (\<lambda>mt. mt\<lparr>write_pos := ?p\<rparr>) g"
  let ?g2 = "?g1\<lparr>data_bytes := mem_write (data_bytes g) ?i (msg_header g m)\<rparr>"
  let ?w = "headed_writer (vwriter s) g"
  let ?s1 = "s\<lparr>vseg := ?g1, vwpc := vw_header m (wpos g) 0\<rparr>"
  let ?s2 = "s\<lparr>vseg := ?g2, vwpc := vw_header m (wpos g) 32\<rparr>"
  let ?s3 = "s\<lparr>vseg := ?g2, vwriter := ?w, vwpc := vw_payload m (wpos g) 0\<rparr>"
  let ?s4 = "s\<lparr>vseg := f, vwriter := ?w, vwpc := vw_payload m (wpos g) (length (fst m))\<rparr>"
  let ?s5 = "?s4\<lparr>vwpc := vw_publish m (wpos g)\<rparr>"
  let ?s6 = "s\<lparr>vseg := update_meta (\<lambda>mt. mt\<lparr>commit_pos := ?p\<rparr>) f, vwriter := ?w\<lparr>vpending := False\<rparr>,
    vcommit_history := vcommit_history s @ [?p], vsent := vsent s @ [m], vwpc := vw_signal\<rparr>"
  let ?s7 = "s\<lparr>vseg := committed_segment n f, vwriter := ?w\<lparr>vpending := False\<rparr>,
    vcommit_history := vcommit_history s @ [?p], vsent := vsent s @ [m], vwpc := vw_idle\<rparr>"
  have h: "headed_segment n (msg_size m) (snd m) g = ?g2"
    by (simp add: headed_segment_def msg_header_def n_def slot_index_def unat_mod)
  have f: "f = ?g2\<lparr>data_bytes := mem_write (data_bytes ?g2) (?i + 32) (fst m)\<rparr>"
    using cp unfolding f_def h fill_payload_def by (simp add: slot_index_def unat_mod update_meta_def)
  have len: "length (data_bytes ?g2) = length (data_bytes g)" using fit by simp
  have l: "vlow ?s1" "vlow ?s2" "vlow ?s3" "vlow ?s4" using low by (simp_all add: vlow_def f)
  have "vrun (replicate 32 (v_writer r)) ?s1 = Some ?s2"
    using vrun_bytes [where P = "vw_header m (wpos g)" and bs = "msg_header g m" and k = 0 and s = ?s1
        and i = ?i and h = "hdr ?g1" and r = r] l(1) fit
    by (auto simp: writer_step_def Let_def slot_index_def msg_header_def msg_needed_def needed_bytes_def update_meta_def)
  moreover have "vrun (replicate (length (fst m)) (v_writer r)) ?s3 = Some ?s4"
    using vrun_bytes [where P = "vw_payload m (wpos g)" and bs = "fst m" and k = 0 and s = ?s3
        and i = "?i + 32" and h = "hdr ?g1" and r = r] l(3) fit len
    by (auto simp: writer_step_def Let_def slot_index_def update_meta_def f)
  moreover have "writer_step r s = Some ?s1" using pc by (simp add: writer_step_def g_def n_def Let_def)
  moreover have "writer_step r ?s2 = Some ?s3" by (simp add: writer_step_def Let_def headed_writer_def)
  moreover have "replicate (37 + length (fst m)) (v_writer r) =
      v_writer r # replicate 32 (v_writer r) @ v_writer r # replicate (length (fst m)) (v_writer r) @
      [v_writer r, v_writer r, v_writer r]"
    by (simp add: numeral_eq_Suc replicate_app_Cons_same)
  moreover have "cpos f = wpos g" using cp by (simp add: f)
  then have "writer_step r ?s4 = Some ?s5" "writer_step r ?s5 = Some ?s6" "writer_step r ?s6 = Some ?s7"
    using sz by (simp_all add: writer_step_def Let_def headed_writer_def committed_segment_def)
  moreover have "vlow ?s5" "vlow ?s6" "vlow ?s7" using low by (simp_all add: vlow_def committed_segment_def)
  ultimately show ?thesis using l by (simp add: vrun_append)
qed


section \<open>A whole write\<close>

lemma idle_varlen_inv:
  assumes inv: "vconc_inv s" and idle: "writer_idle s" and p: "data_ptr (vwriter s) = sizeof_control_block"
    and b: "unat (wpos (vseg s)) + b < 2 ^ 64"
  shows "varlen_inv b (vwriter s) (vseg s)"
  using vring_invD [OF vconc_invD(1) [OF inv]] vviews_invD(2,3) [OF vconc_invD(2) [OF inv]] idle p b
  by (simp add: varlen_inv_def writer_idle_def)

lemma run_take:
  fixes s :: vstate and m :: varlen_message
  defines "g \<equiv> vseg s"
  defines "n \<equiv> msg_needed g m"
  assumes inv: "varlen_inv (capacity_of g) (vwriter s) g" and idle: "\<not> vpending (vwriter s)"
    and pc: "vwpc s = vw_take m (wpos g)" and ok: "msg_ok g m"
    and room: "unat (wpos g) - unat (rpos g) + unat n \<le> capacity_of g"
    and fit: "unat n \<le> capacity_of g - unat (wpos g) mod capacity_of g"
    and bound: "unat (wpos g) + 2 * capacity_of g < 2 ^ 64"
  obtains u where "vrun (replicate (37 + length (fst m)) (v_writer r)) s = Some u" "vwpc u = vw_idle"
    and "vwriter u = (headed_writer (vwriter s) g)\<lparr>vpending := False\<rparr>" "vsent u = vsent s @ [m]"
    and "vseg u = committed_segment n (fill_payload (headed_segment n (msg_size m) (snd m) g) (fst m))"
proof -
  let ?h = "headed_segment n (msg_size m) (snd m) g"
  let ?f = "fill_payload ?h (fst m)"
  note D = varlen_invD [OF inv] and G = varlen_geometryD [OF varlen_invD(1) [OF inv]]
  note S = msg_sizes [OF D(1) ok]
  have cp: "cpos g = wpos g" using D(9) idle by (simp add: word_unat_eq_iff)
  have inv0: "varlen_inv (0 + capacity_of g) (vwriter s) g" using inv by simp
  have n: "unat n \<le> capacity_of g" "align_of g dvd unat n" "32 + unat (msg_size m) \<le> unat n"
    using S by (simp_all add: n_def)
  have R: "reserved_state n (msg_size m) (snd m) (varlen_slots g) 0 (headed_writer (vwriter s) g) ?f"
    using fill_payload_keeps(1) [OF headed_keeps [OF inv0 idle n room fit]] S(1) by simp
  then have I: "varlen_inv 0 (headed_writer (vwriter s) g) ?f" by (simp add: reserved_state_def)
  have w: "unat (wpos ?f) = unat (wpos g) + unat n"
    using headed_wpos [OF inv0 n(1)] by simp
  have at: "slot_at (data_bytes ?f) (capacity_of ?f) (unat (cpos ?f))
      (new_slot (unat n) (mem_read (data_bytes ?f) (unat (cpos ?f) mod capacity_of ?f + 32) (unat (msg_size m))) (snd m))"
    using R varlen_geometryD(6) [OF varlen_invD(1) [OF I]] by (intro slot_at_reserved) (auto simp: reserved_state_def)
  have sz: "slot_word ?f (wpos g) 0 = n"
    using slot_words(1) [OF at] cp by (simp add: new_slot_def split: if_splits)
  have "slot_index g (wpos g) + 32 + length (fst m) \<le> length (data_bytes g)"
    using fit n(3) S(1) G(4,6) by (simp add: slot_index_eq)
  moreover have "vlow (s\<lparr>vseg := ?f\<rparr>)"
    using w n(1) bound G(3) by (intro vlowI) simp_all
  ultimately show thesis
    using run_slot [of s m r] pc cp sz that by (simp add: g_def n_def)
qed

lemma same_action: "list_all ((=) a) (replicate k a)" "list_all ((=) a) as \<Longrightarrow> \<exists>k. as = replicate k a"
  by (auto simp: list_all_iff) (metis replicate_length_same)

text \<open>The decision a writer takes with the position it has loaded.\<close>

lemma writer_decides:
  fixes s :: vstate and m :: varlen_message
  defines "g \<equiv> vseg s"
  assumes inv: "varlen_inv (b + capacity_of g) w g" and n: "unat (msg_needed g m) \<le> capacity_of g"
    and pc: "vwpc s = vw_load m (wpos g)" and r: "rpos g \<in> set (vread_history s)" "vseen_read s \<le> rpos g"
  shows "writer_step (rpos g) s = Some (s\<lparr>vseen_read := rpos g, vwpc :=
    (if unat (wpos g) - unat (rpos g) + unat (msg_needed g m) > capacity_of g then vw_idle
     else if capacity_of g - unat (wpos g) mod capacity_of g < unat (msg_needed g m) then vw_pad m (wpos g)
     else vw_take m (wpos g))\<rparr>)"
proof -
  have "wrap_padding g (wpos g) < u64_of_u32 (msg_needed g m) \<longleftrightarrow>
      capacity_of g - unat (wpos g) mod capacity_of g < unat (msg_needed g m)"
    using pad_value [OF inv] by (simp add: wrap_padding_def word_less_nat_alt)
  then show ?thesis
    using used_needed [OF inv n] pc r by (simp add: writer_step_def Let_def g_def)
qed

text \<open>After the padding the slot starts at index 0, where it fits if there is room at all.\<close>

lemma run_pad_load:
  fixes s :: vstate and m :: varlen_message
  defines "g \<equiv> vseg s"
  defines "n \<equiv> msg_needed g m" and "p \<equiv> padded_segment g"
  assumes inv: "varlen_inv (2 * capacity_of g + capacity_of g) (vwriter s) g" and idle: "\<not> vpending (vwriter s)"
    and pc: "vwpc s = vw_pad m (wpos g)" and n: "unat n \<le> capacity_of g"
    and room: "unat (wpos g) - unat (rpos g) + unat n \<le> capacity_of g"
    and tight: "capacity_of g - unat (wpos g) mod capacity_of g < unat n"
    and r: "rpos g \<in> set (vread_history s)" "vseen_read s \<le> rpos g"
  shows "vrun (replicate 35 (v_writer r) @ v_writer (rpos g) # acts) s =
    vrun acts (s\<lparr>vseg := p, vcommit_history := vcommit_history s @ [wpos p], vseen_read := rpos g,
      vwpc := (if unat (wpos p) - unat (rpos p) + unat n > capacity_of g then vw_idle else vw_take m (wpos p))\<rparr>)"
    and "varlen_inv (capacity_of g + capacity_of p) (vwriter s) p"
    and "unat n \<le> capacity_of p - unat (wpos p) mod capacity_of p"
proof -
  let ?s2 = "s\<lparr>vseg := p, vcommit_history := vcommit_history s @ [wpos p], vwpc := vw_load m (wpos p)\<rparr>"
  have P: "varlen_inv (2 * capacity_of g) (vwriter s) p" "unat (wpos p) mod capacity_of g = 0"
    using padded_keeps(1) [OF inv idle room tight] padded_wpos(2) [OF inv] by (simp_all add: p_def)
  then show I: "varlen_inv (capacity_of g + capacity_of p) (vwriter s) p" by (simp add: p_def mult_2)
  show F: "unat n \<le> capacity_of p - unat (wpos p) mod capacity_of p" using P(2) n by (simp add: p_def)
  have low: "vlow (t\<lparr>vseg := p\<rparr>)" for t :: vstate
    using varlen_invD(8) [OF P(1)] varlen_geometryD(3) [OF varlen_invD(1) [OF P(1)]]
    by (intro vlowI) (simp_all add: p_def)
  have nm: "msg_needed p m = n" by (simp add: n_def p_def msg_needed_def needed_bytes_def)
  have "vrun (replicate 35 (v_writer r)) s = Some ?s2"
    using run_pad [of s m r] pc head_room(2) [OF inv] low [of s] by (simp add: g_def p_def slot_index_eq)
  moreover have "writer_step (rpos p) ?s2 = Some (?s2\<lparr>vseen_read := rpos p, vwpc :=
      (if unat (wpos p) - unat (rpos p) + unat n > capacity_of p then vw_idle else vw_take m (wpos p))\<rparr>)"
    using writer_decides [of "capacity_of g" ?s2 "vwriter s" m] I n nm r F
    by (simp add: p_def not_less [symmetric] del: not_less)
  moreover have "rpos p = rpos g" "capacity_of p = capacity_of g" by (simp_all add: p_def)
  ultimately show "vrun (replicate 35 (v_writer r) @ v_writer (rpos g) # acts) s =
    vrun acts (s\<lparr>vseg := p, vcommit_history := vcommit_history s @ [wpos p], vseen_read := rpos g,
      vwpc := (if unat (wpos p) - unat (rpos p) + unat n > capacity_of g then vw_idle else vw_take m (wpos p))\<rparr>)"
    using low by (simp add: vrun_append vlow_def)
qed

text \<open>The rest of a write that has found room: \<open>reserve_base\<close> is the segment it takes its slot in.\<close>

lemma run_room:
  fixes s :: vstate and m :: varlen_message
  defines "g \<equiv> vseg s"
  defines "n \<equiv> msg_needed g m"
  defines "b \<equiv> reserve_base (unat n) g"
  defines "f \<equiv> fill_payload (headed_segment n (msg_size m) (snd m) b) (fst m)"
  assumes inv: "varlen_inv (2 * capacity_of g + capacity_of g) (vwriter s) g" and idle: "\<not> vpending (vwriter s)"
    and pc: "vwpc s = (if capacity_of g - unat (wpos g) mod capacity_of g < unat n then vw_pad m (wpos g)
      else vw_take m (wpos g))"
    and ok: "msg_ok g m" and room: "unat (wpos g) - unat (rpos g) + unat n \<le> capacity_of g"
    and r: "rpos g \<in> set (vread_history s)" "vseen_read s \<le> rpos g"
  shows "\<exists>acts u. list_all ((=) (v_writer (rpos g))) acts \<and> vrun acts s = Some u \<and> vwpc u = vw_idle \<and>
    (if unat (wpos b) - unat (rpos g) + unat n > capacity_of g
     then vwriter u = vwriter s \<and> vseg u = b \<and> vsent u = vsent s
     else vwriter u = (headed_writer (vwriter s) b)\<lparr>vpending := False\<rparr> \<and> vseg u = committed_segment n f \<and>
       vsent u = vsent s @ [m])"
proof (cases "capacity_of g - unat (wpos g) mod capacity_of g < unat n")
  case True
  let ?full = "unat (wpos b) - unat (rpos b) + unat n > capacity_of g"
  let ?s2 = "s\<lparr>vseg := b, vcommit_history := vcommit_history s @ [wpos b], vseen_read := rpos g,
    vwpc := (if ?full then vw_idle else vw_take m (wpos b))\<rparr>"
  let ?pad = "replicate 35 (v_writer (rpos g)) @ [v_writer (rpos g)]"
  have b: "b = padded_segment g" and c: "capacity_of b = capacity_of g" "rpos b = rpos g"
    using True by (simp_all add: b_def reserve_base_def)
  have n: "unat n \<le> capacity_of g" using msg_sizes [OF varlen_invD(1) [OF inv] ok] by (simp add: n_def)
  note P = run_pad_load [of s m, folded g_def, folded n_def, folded b, OF inv idle _ n room True r]
  have run: "vrun (?pad @ acts) s = vrun acts ?s2" for acts using P(1) [of "rpos g" acts] pc True by simp
  show ?thesis
  proof (cases ?full)
    case full: True
    then show ?thesis
      using run [of "[]"] c by (intro exI [of _ ?pad] exI [of _ ?s2]) (simp add: same_action)
  next
    case False
    have I: "varlen_inv (capacity_of g + capacity_of b) (vwriter s) b" and F: "unat n \<le> capacity_of b - unat (wpos b) mod capacity_of b"
      using P(2,3) pc True by simp_all
    have "msg_needed b m = n" "msg_ok b m"
      using ok by (simp_all add: b n_def msg_ok_def msg_needed_def needed_bytes_def)
    then obtain u where "vrun (replicate (37 + length (fst m)) (v_writer (rpos g))) ?s2 = Some u" "vwpc u = vw_idle"
      "vwriter u = (headed_writer (vwriter s) b)\<lparr>vpending := False\<rparr>" "vsent u = vsent s @ [m]"
      "vseg u = committed_segment n f"
      using run_take [of ?s2 m "rpos g"] varlen_inv_less [OF I] varlen_invD(8) [OF I] idle False F c
      by (auto simp: f_def)
    then show ?thesis
      using run False c by (intro exI [of _ "?pad @ replicate (37 + length (fst m)) (v_writer (rpos g))"] exI [of _ u]) (auto simp: same_action)
  qed
next
  case False
  then have b: "b = g" by (simp add: b_def reserve_base_def)
  have i: "varlen_inv (capacity_of g) (vwriter s) g"
    using varlen_inv_less [of "capacity_of g" "2 * capacity_of g"] inv by (simp add: add.commute)
  obtain u where "vrun (replicate (37 + length (fst m)) (v_writer (rpos g))) s = Some u" "vwpc u = vw_idle"
    "vwriter u = (headed_writer (vwriter s) b)\<lparr>vpending := False\<rparr>" "vsent u = vsent s @ [m]"
    "vseg u = committed_segment n f"
    using run_take [of s m "rpos g"] i idle pc ok room False varlen_invD(8) [OF inv]
    by (auto simp: f_def b g_def n_def)
  then show ?thesis
    using room b by (intro exI [of _ "replicate (37 + length (fst m)) (v_writer (rpos g))"] exI [of _ u]) (auto simp: same_action)
qed

lemma varlen_write_refused:
  assumes "varlen_try_reserve w s psize mt = Some (Inr (reserve_failed st, w, s'))" "st \<noteq> rs_ok"
  shows "varlen_write w s psize (Some data) mt = Some (Inr (False, w, s'))"
  using assms by (simp add: varlen_write_def varlen_reserve_and_copy_def reserve_failed_def)

text \<open>What \<open>write\<close> answers, by the same tests the thread makes.\<close>

lemma varlen_write_cases:
  fixes m :: varlen_message
  assumes inv: "varlen_inv (b + 2 * capacity_of g) w g" and np: "\<not> vpending w"
    and m: "fst m \<noteq> []" "32 + length (fst m) + align_of g \<le> 2 ^ 32"
  defines "n \<equiv> msg_needed g m"
  defines "s1 \<equiv> reserve_base (unat n) g"
  shows "varlen_write w g (msg_size m) (Some (fst m)) (snd m) = Some (Inr
    (if capacity_of g < unat n then (False, w, g)
     else if unat (wpos g) - unat (rpos g) + unat n > capacity_of g then (False, w, g)
     else if unat (wpos s1) - unat (rpos g) + unat n > capacity_of g then (False, w, s1)
     else (True, (headed_writer w s1)\<lparr>vpending := False\<rparr>,
       committed_segment n (fill_payload (headed_segment n (msg_size m) (snd m) s1) (fst m)))))"
proof -
  have nb: "needed_bytes (msg_size m) g = n" by (simp add: n_def msg_needed_def)
  note E = varlen_try_reserve_eq [OF inv np, of "msg_size m" "snd m", unfolded nb, folded s1_def]
  have lm: "unat (msg_size m) = length (fst m)" using m(2) by (simp add: msg_size_def unat_of_nat)
  have i: "varlen_inv (b + capacity_of g + capacity_of g) w g" using inv by (simp add: add.assoc mult_2)
  show ?thesis
  proof (cases "varlen_accepts (msg_size m) g")
    case True
    then show ?thesis
      using varlen_write_accepted [OF inv np _ _ True, of "fst m" "snd m"] varlen_accepts_iff [OF i, of "msg_size m"] m(2) lm
      by (simp add: nb s1_def filled_segment_def Let_def)
  next
    case False
    let ?full = "\<lambda>s. unat (wpos s) - unat (rpos g) + unat n > capacity_of g"
    from False consider (large) "capacity_of g < unat n" | (full) "\<not> capacity_of g < unat n" "?full g"
      | (padded) "\<not> capacity_of g < unat n" "\<not> ?full g" "?full s1"
      unfolding varlen_accepts_iff [OF i, of "msg_size m"] nb s1_def not_less [symmetric] by blast
    then show ?thesis
    proof cases
      case large
      then show ?thesis
        using varlen_write_refused [of w g "msg_size m" "snd m" rs_message_too_large g] by (simp only: E if_True) simp
    next
      case full
      then show ?thesis
        using varlen_write_refused [of w g "msg_size m" "snd m" rs_full g] by (simp only: E if_True if_False) simp
    next
      case padded
      then show ?thesis
        using varlen_write_refused [of w g "msg_size m" "snd m" rs_full s1] by (simp only: E if_True if_False) simp
    qed
  qed
qed

lemma call_decides:
  fixes t :: vstate and m :: varlen_message
  defines "g \<equiv> vseg t"
  defines "n \<equiv> msg_needed g m"
  assumes inv: "vconc_inv t" and h: "rpos g \<in> set (vread_history t)" and idle: "vwpc t = vw_idle"
    and I: "varlen_inv (2 * capacity_of g + capacity_of g) w g"
    and m: "fst m \<noteq> []" "32 + length (fst m) + align_of g \<le> 2 ^ 32"
  shows "capacity_of g < unat n \<Longrightarrow> vrun [v_call m] t = Some t"
    and "unat n \<le> capacity_of g \<Longrightarrow> vrun (v_call m # v_writer (rpos g) # acts) t = vrun acts
      (t\<lparr>vwpc := (if unat (wpos g) - unat (rpos g) + unat n > capacity_of g then vw_idle
         else if capacity_of g - unat (wpos g) mod capacity_of g < unat n then vw_pad m (wpos g)
         else vw_take m (wpos g)), vseen_read := rpos g\<rparr>)"
proof -
  have "\<not> vpending (vwriter t)"
    using vconc_invD(4) [OF inv] idle by (simp add: vwriter_inv_def writer_idle_def Let_def)
  moreover have "int (32 + length (fst m) + align_of (vseg t)) \<le> int (2 ^ 32)"
    using m(2) unfolding g_def by (simp only: of_nat_le_iff)
  ultimately have call: "call_write_step m t =
      (if capacity_of g < unat n then Some t else Some (t\<lparr>vwpc := vw_load m (wpos g)\<rparr>))"
    using idle m(1) by (simp add: call_write_step_def g_def n_def word_less_nat_alt)
  have lt: "vlow t" by (rule vconc_invD(3) [OF inv])
  show "vrun [v_call m] t = Some t" if "capacity_of g < unat n" using call that lt by simp
  have sr: "vseen_read t \<le> rpos g"
    using vviews_invD(3) [OF vconc_invD(2) [OF inv]] by (simp add: g_def word_le_nat_alt)
  let ?pc = "if unat (wpos g) - unat (rpos g) + unat n > capacity_of g then vw_idle
    else if capacity_of g - unat (wpos g) mod capacity_of g < unat n then vw_pad m (wpos g)
    else vw_take m (wpos g)"
  assume n: "unat n \<le> capacity_of g"
  have "writer_step (rpos g) (t\<lparr>vwpc := vw_load m (wpos g)\<rparr>) = Some (t\<lparr>vwpc := ?pc, vseen_read := rpos g\<rparr>)"
    using writer_decides [of "2 * capacity_of g" "t\<lparr>vwpc := vw_load m (wpos g)\<rparr>" w m] I n h sr
    by (simp add: g_def n_def)
  then show "vrun (v_call m # v_writer (rpos g) # acts) t = vrun acts (t\<lparr>vwpc := ?pc, vseen_read := rpos g\<rparr>)"
    using call n lt by (simp add: vlow_def)
qed

lemma uninterrupted_vwrite:
  fixes t :: vstate and m :: varlen_message
  defines "g \<equiv> vseg t" and "w \<equiv> vwriter t"
  assumes inv: "vconc_inv t" and h: "rpos g \<in> set (vread_history t)" and idle: "vwpc t = vw_idle"
    and dp: "data_ptr w = sizeof_control_block"
    and m: "fst m \<noteq> []" "32 + length (fst m) + align_of g \<le> 2 ^ 32"
    and bound: "unat (wpos g) + 3 * capacity_of g < 2 ^ 64"
  shows "\<exists>k u ok. vrun (v_call m # replicate k (v_writer (rpos g))) t = Some u \<and> vwpc u = vw_idle \<and>
    varlen_write w g (msg_size m) (Some (fst m)) (snd m) = Some (Inr (ok, vwriter u, vseg u)) \<and>
    vsent u = vsent t @ (if ok then [m] else [])"
proof -
  let ?n = "msg_needed g m"
  let ?b = "reserve_base (unat ?n) g"
  have wi: "writer_idle t" using vconc_invD(4) [OF inv] idle by (simp add: vwriter_inv_def Let_def)
  then have np: "\<not> vpending w" by (simp add: writer_idle_def w_def)
  have I: "varlen_inv (capacity_of g + 2 * capacity_of g) w g"
    unfolding g_def w_def using bound dp by (intro idle_varlen_inv [OF inv wi]) (simp_all add: g_def w_def)
  then have I1: "varlen_inv (2 * capacity_of g + capacity_of g) w g" by (simp add: add.commute)
  note C = varlen_write_cases [OF I np m]
    and R = call_decides [of t, folded g_def, OF inv h idle I1 m]
  show ?thesis
  proof (cases "unat ?n \<le> capacity_of g \<and> unat (wpos g) - unat (rpos g) + unat ?n \<le> capacity_of g")
    case False
    show ?thesis
    proof (cases "unat ?n \<le> capacity_of g")
      case True
      with False C R(2) [of "[]"] show ?thesis
        by (intro exI [of _ 1]
            exI [of _ "t\<lparr>vwpc := vw_idle, vseen_read := rpos g\<rparr>"] exI [of _ False]) (simp add: g_def w_def)
    next
      case False
      with C R(1) idle show ?thesis
        by (intro exI [of _ 0] exI [of _ t] exI [of _ False]) (simp add: g_def w_def)
    qed
  next
    case True
    then have n: "unat ?n \<le> capacity_of g" and room: "unat (wpos g) - unat (rpos g) + unat ?n \<le> capacity_of g"
      by auto
    have mo: "msg_ok g m" using m n by (simp add: msg_ok_def)
    let ?pc = "if capacity_of g - unat (wpos g) mod capacity_of g < unat ?n then vw_pad m (wpos g)
      else vw_take m (wpos g)"
    define s1 where "s1 = t\<lparr>vwpc := ?pc, vseen_read := rpos g\<rparr>"
    have s1: "vseg s1 = g" "vwriter s1 = w" "vwpc s1 = ?pc" "vsent s1 = vsent t"
      "vread_history s1 = vread_history t" "vseen_read s1 = rpos g"
      by (simp_all add: s1_def g_def w_def)
    obtain acts u where A: "list_all ((=) (v_writer (rpos g))) acts" "vrun acts s1 = Some u" "vwpc u = vw_idle"
      and U: "if unat (wpos ?b) - unat (rpos g) + unat ?n > capacity_of g
        then vwriter u = w \<and> vseg u = ?b \<and> vsent u = vsent t
        else vwriter u = (headed_writer w ?b)\<lparr>vpending := False\<rparr> \<and>
          vseg u = committed_segment ?n (fill_payload (headed_segment ?n (msg_size m) (snd m) ?b) (fst m)) \<and>
          vsent u = vsent t @ [m]"
      using run_room [of s1 m, unfolded s1, OF I1 np refl mo room h order_refl] by blast
    obtain k where k: "acts = replicate k (v_writer (rpos g))" using same_action(2) [OF A(1)] by blast
    have "vrun (v_call m # replicate (Suc k) (v_writer (rpos g))) t = Some u"
      using R(2) [OF n] A(2) room k by (simp add: s1_def)
    with A C U n room show ?thesis
      by (intro exI [of _ "Suc k"] exI [of _ u]
          exI [of _ "unat (wpos ?b) - unat (rpos g) + unat ?n \<le> capacity_of g"])
        (simp split: if_split_asm)
  qed
qed


section \<open>A whole read\<close>

lemma vrun_inv: "vrun as s = Some t \<Longrightarrow> vconc_inv s \<Longrightarrow> vconc_inv t"
  using vrun_vreach [OF _ vreach.start] vreach_inv by blast

lemma vconc_published: "vconc_inv s \<Longrightarrow> varlen_published (vseg s)"
  using vring_invD(1,2) [OF vconc_invD(1)] by (simp add: varlen_published_def)

text \<open>The loads of one round, up to the decision on the payload size.\<close>

lemma run_round:
  fixes s :: vstate
  defines "g \<equiv> vseg s"
  assumes inv: "vconc_inv s" and pc: "vrpc s = vr_load" and c: "cpos g \<in> set (vcommit_history s)"
    and vs: "varlen_slots g = v # vs"
  shows "vrun (replicate 3 (v_reader (cpos g)) @ acts) s = vrun acts (s\<lparr>vseen_commit := cpos g,
    vrpc := (if vpayload_length v = 0 then vr_advance None else vr_meta (word_of_nat (vpayload_length v)))\<rparr>)"
proof -
  let ?c = "cpos g" and ?p = "word_of_nat (vpayload_length v) :: u32"
  have "vlow s" by (rule vconc_invD(3) [OF inv])
  then have low: "vlow (s\<lparr>vseen_commit := ?c, vrpc := pc\<rparr>)" for pc by (simp add: vlow_def)
  have P: "varlen_published g" unfolding g_def by (rule vconc_published [OF inv])
  have at: "slot_at (data_bytes g) (capacity_of g) (unat (rpos g)) v"
    using varlen_publishedD(2) [OF P] vs by simp
  note R = varlen_read_round(1,3,4) [OF P vs, of "\<lparr>data_ptr = sizeof_control_block\<rparr>", simplified]
    and W = slot_words [OF at]
  have z: "?p = 0 \<longleftrightarrow> vpayload_length v = 0" using W(2,4) by (metis unat_eq_zero)
  have sc: "vseen_commit s \<le> ?c"
    using vviews_invD(4) [OF vconc_invD(2) [OF inv]] by (simp add: g_def word_le_nat_alt)
  have "reader_step ?c s = Some (s\<lparr>vseen_commit := ?c, vrpc := vr_size\<rparr>)"
    using pc c sc R(1) by (simp add: reader_step_def g_def Let_def)
  moreover have "reader_step ?c (s\<lparr>vseen_commit := ?c, vrpc := vr_size\<rparr>) =
      Some (s\<lparr>vseen_commit := ?c, vrpc := vr_psize\<rparr>)"
    using R(2,3) W(1) by (simp add: reader_step_def g_def Let_def)
  moreover have "reader_step ?c (s\<lparr>vseen_commit := ?c, vrpc := vr_psize\<rparr>) = Some (s\<lparr>vseen_commit := ?c,
      vrpc := (if vpayload_length v = 0 then vr_advance None else vr_meta ?p)\<rparr>)"
    using W(2) z by (simp add: reader_step_def g_def Let_def)
  ultimately show ?thesis using low by (simp add: numeral_eq_Suc)
qed

lemma run_advance:
  fixes s :: vstate
  defines "g \<equiv> vseg s"
  assumes low: "vlow s" and pc: "vrpc s = vr_advance m"
    and at: "slot_at (data_bytes g) (capacity_of g) (unat (rpos g)) v"
  obtains u where "vrun [v_reader c, v_reader c] s = Some u" "vseg u = skipped_segment (vsize v) g"
    and "vrpc u = (if m = None then vr_load else vr_idle)" "vreceived u = vreceived s @ (case m of None \<Rightarrow> [] | Some m \<Rightarrow> [m])"
    and "vcommit_history u = vcommit_history s" "vmax_size u = vmax_size s"
  using that low pc slot_words(1) [OF at]
  by (simp add: reader_step_def g_def Let_def skipped_segment_def advance_read_def vlow_def)

lemma run_copy:
  fixes s :: vstate
  defines "g \<equiv> vseg s"
  assumes at: "slot_at (data_bytes g) (capacity_of g) (unat (rpos g)) (Msg n pl mt)"
    and "capacity_of g \<le> length (data_bytes g)" "unat p = length pl"
    and "vlow s" "vrpc s = vr_copy p mt (take k pl)" "k \<le> length pl"
  shows "vrun (replicate (length pl - k) (v_reader c)) s = Some (s\<lparr>vrpc := vr_copy p mt pl\<rparr>)"
  using assms(2-) unfolding g_def
proof (induction "length pl - k" arbitrary: k s)
  case 0
  then show ?case by simp
next
  case (Suc j)
  let ?g = "vseg s" and ?i = "unat (rpos (vseg s)) mod capacity_of (vseg s)"
  let ?t = "s\<lparr>vrpc := vr_copy p mt (take (Suc k) pl)\<rparr>"
  have k: "k < length pl" and j: "j = length pl - Suc k" using Suc.hyps(2) by auto
  have "pl ! k = mem_read (data_bytes ?g) (?i + 32) (length pl) ! k"
    by (simp only: slot_at_message(2) [OF Suc.prems(1)])
  also have "\<dots> = data_bytes ?g ! (?i + 32 + k)"
    using k Suc.prems(1,2) by (auto simp: mem_read_def slot_at_def)
  finally have "reader_step c s = Some ?t"
    using Suc.prems(3,5) k by (simp add: reader_step_def Let_def slot_index_eq take_Suc_conv_app_nth)
  moreover have "vlow ?t" using Suc.prems(4) by (simp add: vlow_def)
  ultimately have "vrun (replicate (length pl - k) (v_reader c)) s = vrun (replicate j (v_reader c)) ?t"
    by (simp flip: Suc.hyps(2))
  also have "\<dots> = Some (s\<lparr>vrpc := vr_copy p mt pl\<rparr>)"
    unfolding j using Suc.hyps(1) [OF j, of ?t] Suc.prems k \<open>vlow ?t\<close> by simp
  finally show ?case .
qed

text \<open>A round on a message: it is copied and released, or left alone when the buffer is too small.\<close>

lemma run_message:
  fixes s :: vstate
  defines "g \<equiv> vseg s"
  assumes inv: "vconc_inv s" and pc: "vrpc s = vr_load" and c: "cpos g \<in> set (vcommit_history s)"
    and vs: "varlen_slots g = Msg n pl mt # vs"
  shows "\<exists>k u. vrun (replicate k (v_reader (cpos g))) s = Some u \<and> vrpc u = vr_idle \<and>
    (if length pl \<le> unat (vmax_size s)
     then vseg u = skipped_segment n g \<and> vreceived u = vreceived s @ [(pl, mt)]
     else vseg u = g \<and> vreceived u = vreceived s)"
proof -
  let ?c = "v_reader (cpos g)" and ?p = "word_of_nat (length pl) :: u32"
  let ?s = "\<lambda>pc. s\<lparr>vseen_commit := cpos g, vrpc := pc\<rparr>"
  have P: "varlen_published g" unfolding g_def by (rule vconc_published [OF inv])
  have at: "slot_at (data_bytes g) (capacity_of g) (unat (rpos g)) (Msg n pl mt)"
    using varlen_publishedD(2) [OF P] vs by simp
  then have pl: "pl \<noteq> []" and p: "unat ?p = length pl" by (auto simp: slot_at_def unat_of_nat)
  have low: "vlow (?s pc)" for pc using vconc_invD(3) [OF inv] by (simp add: vlow_def)
  have "decode_meta (mem_read (data_bytes g) (slot_index g (rpos g) + 8) 24) = mt"
    using slot_at_message(1) [OF at] by (simp add: slot_index_eq)
  then have "reader_step (cpos g) (?s (vr_meta ?p)) =
      Some (?s (if length pl \<le> unat (vmax_size s) then vr_copy ?p mt [] else vr_idle))"
    using p by (simp add: reader_step_def Let_def g_def word_less_nat_alt)
  then have run: "vrun (replicate 3 ?c @ ?c # acts) s =
      vrun acts (?s (if length pl \<le> unat (vmax_size s) then vr_copy ?p mt [] else vr_idle))" for acts
    using run_round [OF inv pc _ vs [unfolded g_def], folded g_def, of "?c # acts"] c pl low
    by (simp add: vpayload_length_def)
  show ?thesis
  proof (cases "length pl \<le> unat (vmax_size s)")
    case True
    have "vrun (replicate (length pl) ?c) (?s (vr_copy ?p mt [])) = Some (?s (vr_copy ?p mt pl))"
      using run_copy [of "?s (vr_copy ?p mt [])" n pl mt ?p 0 "cpos g"] at p low
        varlen_geometryD(6) [OF varlen_publishedD(1) [OF P]] by (simp add: g_def)
    moreover have "reader_step (cpos g) (?s (vr_copy ?p mt pl)) = Some (?s (vr_advance (Some (pl, mt))))"
      using p by (simp add: reader_step_def Let_def)
    moreover obtain u where "vrun [?c, ?c] (?s (vr_advance (Some (pl, mt)))) = Some u"
      "vseg u = skipped_segment n g" "vrpc u = vr_idle" "vreceived u = vreceived s @ [(pl, mt)]"
      using run_advance [of "?s (vr_advance (Some (pl, mt)))" "Some (pl, mt)" "Msg n pl mt" "cpos g"] at low
      by (auto simp: g_def)
    moreover have "replicate (4 + length pl + 3) ?c = replicate 3 ?c @ ?c # replicate (length pl) ?c @ ?c # [?c, ?c]"
      by (simp add: numeral_eq_Suc replicate_app_Cons_same)
    ultimately show ?thesis
      using True run [of "replicate (length pl) ?c @ ?c # [?c, ?c]"] low
      by (intro exI [of _ "4 + length pl + 3"] exI [of _ u]) (simp add: vrun_append)
  next
    case False
    then show ?thesis
      using run [of "[]"] by (intro exI [of _ 4] exI [of _ "?s vr_idle"]) (simp add: g_def numeral_eq_Suc)
  qed
qed

text \<open>What the caller of the copying \<open>read\<close> has received: the first bytes of its buffer.\<close>

definition copied_message :: "read_out \<Rightarrow> varlen_message" where
  "copied_message out = (take (unat (the (out_size out))) (the (out_buf out)), the (out_meta out))"

lemma read_loop:
  fixes t :: vstate and r :: varlen_reader
  assumes "vconc_inv t" "cpos (vseg t) \<in> set (vcommit_history t)" "vrpc t = vr_load"
    and r: "data_ptr r = sizeof_control_block" and "unat (vmax_size t) \<le> length buf"
    and out: "out = \<lparr>out_buf = Some buf, out_size = Some sz0, out_meta = Some mt0\<rparr>"
  shows "\<exists>k u ok out'. vrun (replicate k (v_reader (cpos (vseg t)))) t = Some u \<and> vrpc u = vr_idle \<and>
    varlen_read_copy r (vseg t) (vmax_size t) out = Inr (ok, out', vseg u) \<and>
    vreceived u = vreceived t @ (if ok then [copied_message out'] else [])"
  using assms(1-3,5)
proof (induction "varlen_slots (vseg t)" arbitrary: t)
  case Nil
  let ?c = "cpos (vseg t)"
  note P = vconc_published [OF Nil.prems(1)]
  have "\<not> rpos (vseg t) < ?c" using varlen_publishedD(2) [OF P] Nil.hyps by (simp add: word_less_nat_alt)
  moreover have "vseen_commit t \<le> ?c"
    using vviews_invD(4) [OF vconc_invD(2) [OF Nil.prems(1)]] by (simp add: word_le_nat_alt)
  ultimately have "vrun (replicate 1 (v_reader ?c)) t = Some (t\<lparr>vseen_commit := ?c, vrpc := vr_idle\<rparr>)"
    using Nil.prems(2,3) vconc_invD(3) [OF Nil.prems(1)] by (simp add: reader_step_def Let_def vlow_def)
  then show ?case
    using varlen_read_none [OF P Nil.hyps [symmetric]]
    by (intro exI [of _ 1] exI [of _ "t\<lparr>vseen_commit := ?c, vrpc := vr_idle\<rparr>"] exI [of _ False] exI [of _ out])
      (simp add: varlen_read_copy_def)
next
  case (Cons v vs)
  let ?g = "vseg t" and ?c = "cpos (vseg t)"
  note vs = Cons.hyps(2) [symmetric] and P = vconc_published [OF Cons.prems(1)]
  have at: "slot_at (data_bytes ?g) (capacity_of ?g) (unat (rpos ?g)) v"
    using varlen_publishedD(2) [OF P] vs by simp
  show ?case
  proof (cases v)
    case (Pad n)
    let ?s = "t\<lparr>vseen_commit := ?c, vrpc := vr_advance None\<rparr>"
    have "vlow ?s" using vconc_invD(3) [OF Cons.prems(1)] by (simp add: vlow_def)
    then obtain u where u: "vrun [v_reader ?c, v_reader ?c] ?s = Some u" "vseg u = skipped_segment n ?g"
      "vrpc u = vr_load" "vreceived u = vreceived t" "vcommit_history u = vcommit_history t" "vmax_size u = vmax_size t"
      using run_advance [of ?s None v ?c] at Pad by auto
    have run: "vrun (replicate 5 (v_reader ?c)) t = Some u"
      using run_round [OF Cons.prems(1,3,2) vs, of "[v_reader ?c, v_reader ?c]"] u(1) Pad
      by (simp add: vpayload_length_def numeral_eq_Suc)
    have "vconc_inv u" using run Cons.prems(1) by (rule vrun_inv)
    moreover have "vs = varlen_slots (vseg u)" using skipped_published(2) [OF P vs] u(2) Pad by simp
    ultimately obtain k u' ok out' where k: "vrun (replicate k (v_reader ?c)) u = Some u'" "vrpc u' = vr_idle"
      "varlen_read_copy r (skipped_segment n ?g) (vmax_size t) out = Inr (ok, out', vseg u')"
      "vreceived u' = vreceived t @ (if ok then [copied_message out'] else [])"
      using Cons.hyps(1) [of u] Cons.prems u(2-6) by auto
    then show ?thesis
      using run varlen_read_pad [OF P _ r, of n vs "copy_handler (vmax_size t)" out] vs Pad
      by (intro exI [of _ "5 + k"] exI [of _ u'] exI [of _ ok] exI [of _ out'])
        (simp add: replicate_add vrun_append varlen_read_copy_def)
  next
    case (Msg n pl mt)
    obtain k u where k: "vrun (replicate k (v_reader ?c)) t = Some u" "vrpc u = vr_idle"
      and u: "if length pl \<le> unat (vmax_size t)
        then vseg u = skipped_segment n ?g \<and> vreceived u = vreceived t @ [(pl, mt)]
        else vseg u = ?g \<and> vreceived u = vreceived t"
      using run_message [OF Cons.prems(1,3,2), of n pl mt vs] vs Msg by blast
    have pl: "pl \<noteq> []" "length pl < 2 ^ 32" using at Msg by (auto simp: slot_at_def)
    note L = load_message(2) [OF at [unfolded Msg] varlen_geometryD(6) [OF varlen_publishedD(1) [OF P]]]
    note H = varlen_read_msg [OF P _ r, of n pl mt vs "copy_handler (vmax_size t)" out]
      copy_handler_outcome [OF L pl(2,1) Cons.prems(4) out, of mt]
    show ?thesis
    proof (cases "length pl \<le> unat (vmax_size t)")
      case True
      let ?out = "\<lparr>out_buf = Some (pl @ drop (length pl) buf), out_size = Some (word_of_nat (length pl)), out_meta = Some mt\<rparr>"
      have "varlen_read_copy r ?g (vmax_size t) out = Inr (True, ?out, vseg u)" "copied_message ?out = (pl, mt)"
        using H vs Msg True u pl(2) by (simp_all add: varlen_read_copy_def copied_message_def unat_of_nat)
      with k u True show ?thesis by (intro exI [of _ k] exI [of _ u] exI [of _ True] exI [of _ ?out]) simp
    next
      case False
      let ?out = "\<lparr>out_buf = Some buf, out_size = Some (word_of_nat (length pl)), out_meta = Some mt\<rparr>"
      have "varlen_read_copy r ?g (vmax_size t) out = Inr (False, ?out, vseg u)"
        using H vs Msg False u by (simp add: varlen_read_copy_def)
      with k u False show ?thesis by (intro exI [of _ k] exI [of _ u] exI [of _ False] exI [of _ ?out]) simp
    qed
  qed
qed


lemma uninterrupted_vread:
  fixes t :: vstate and r :: varlen_reader
  assumes inv: "vconc_inv t" and c: "cpos (vseg t) \<in> set (vcommit_history t)" and idle: "vrpc t = vr_idle"
    and r: "data_ptr r = sizeof_control_block" and b: "unat (vmax_size t) \<le> length buf"
    and out: "out = \<lparr>out_buf = Some buf, out_size = Some sz0, out_meta = Some mt0\<rparr>"
  shows "\<exists>k u ok out'. vrun (v_read # replicate k (v_reader (cpos (vseg t)))) t = Some u \<and> vrpc u = vr_idle \<and>
    varlen_read_copy r (vseg t) (vmax_size t) out = Inr (ok, out', vseg u) \<and>
    vreceived u = vreceived t @ (if ok then [copied_message out'] else [])"
proof -
  let ?t = "t\<lparr>vrpc := vr_load\<rparr>"
  have st: "call_read_step t = Some ?t" using idle by (simp add: call_read_step_def)
  have "vlow ?t" using vconc_invD(3) [OF inv] by (simp add: vlow_def)
  then have "vrun (v_read # as) t = vrun as ?t" for as using st by simp
  with read_loop [OF conc_r_call [OF inv st] _ _ r _ out] c b show ?thesis by simp
qed


section \<open>Whole operations in a reachable state\<close>

lemma vreach_history:
  assumes "vreach s0 s" "rpos (vseg s0) \<in> set (vread_history s0)" "cpos (vseg s0) \<in> set (vcommit_history s0)"
  shows "rpos (vseg s) \<in> set (vread_history s) \<and> cpos (vseg s) \<in> set (vcommit_history s) \<and>
    data_ptr (vwriter s) = data_ptr (vwriter s0) \<and> vmax_size s = vmax_size s0"
  using assms(1)
proof (induction rule: vreach.induct)
  case start
  then show ?case using assms(2,3) by simp
next
  case (call s m t)
  then show ?case by (auto simp: call_write_step_def split: if_splits)
next
  case (read s t)
  then show ?case by (auto simp: call_read_step_def split: if_splits)
next
  case (writer s r t)
  then show ?case
    by (cases "vwpc s") (auto simp: writer_step_def Let_def pause_writer_def poke_def split: if_splits)
next
  case (reader s c t)
  then show ?case
    by (cases "vrpc s") (auto simp: reader_step_def Let_def split: if_splits)
qed

text \<open>
  C13: The interleaved threads implement the operations of the variable-length ring. Take any state
  an interleaving can reach in which the writer is between calls, let it call \<open>write\<close> and run on
  alone, loading the current \<open>read_pos\<close>, until it is between calls again (a thread between calls
  takes no step, so there is only one such run): it ends in exactly the writer, the segment and
  the answer that one call of \<open>write\<close> computes, be it too large, full, full after the padding, or
  stored. Likewise a reader that calls the copying \<open>read\<close> and runs on alone: nothing there, padding
  skipped within the same call, buffer too small, or delivered, byte for byte. The writer's
  messages are non-empty, the 32-bit slot size does not wrap and the positions are three
  capacities below their wrap; the ring is the one of the concurrent results (alignment 8 or more
  and room for a padding header).
\<close>

theorem varlen_uninterrupted_equals_call:
  assumes "varlen_ring_open seg0 cap alignment = Some (w, r, s)" "8 \<le> alignment"
    and "unat cap \<le> length (data_bytes seg0)"
    and "unat cap + 32 \<le> length (data_bytes seg0) + unat alignment"
    and "vreach (new_vstate w s max_size) t"
  shows "(vwpc t = vw_idle \<and> fst m \<noteq> [] \<and> 32 + length (fst m) + align_of (vseg t) \<le> 2 ^ 32 \<and>
      unat (wpos (vseg t)) + 3 * capacity_of (vseg t) < 2 ^ 64 \<longrightarrow>
      (\<exists>k u ok. vrun (v_call m # replicate k (v_writer (rpos (vseg t)))) t = Some u \<and> vwpc u = vw_idle \<and>
        varlen_write (vwriter t) (vseg t) (msg_size m) (Some (fst m)) (snd m) =
          Some (Inr (ok, vwriter u, vseg u)) \<and>
        vsent u = vsent t @ (if ok then [m] else []))) \<and>
    (vrpc t = vr_idle \<and> unat max_size \<le> length buf \<longrightarrow>
      (\<exists>k u ok out'. vrun (v_read # replicate k (v_reader (cpos (vseg t)))) t = Some u \<and> vrpc u = vr_idle \<and>
        varlen_read_copy r (vseg t) max_size \<lparr>out_buf = Some buf, out_size = Some sz0, out_meta = Some mt0\<rparr> =
          Inr (ok, out', vseg u) \<and>
        vreceived u = vreceived t @ (if ok then [copied_message out'] else [])))"
proof -
  have inv: "vconc_inv t" by (rule vreach_inv [OF assms(5) vconc_inv_start [OF assms(1-4)]])
  have c: "varlen_chan_inv max_size 0 (w, r, s)" by (rule varlen_ring_open_inv(1) [OF assms(1-4)]) simp
  have p: "data_ptr w = sizeof_control_block" "data_ptr r = sizeof_control_block"
    using c varlen_invD(2) by (auto simp: varlen_chan_inv_def)
  have H: "rpos (vseg t) \<in> set (vread_history t)" "cpos (vseg t) \<in> set (vcommit_history t)"
    "data_ptr (vwriter t) = sizeof_control_block" "vmax_size t = max_size"
    using vreach_history [OF assms(5)] p(1) by (simp_all add: new_vstate_def)
  show ?thesis
    using uninterrupted_vwrite [OF inv H(1) _ H(3), of m] uninterrupted_vread [OF inv H(2) _ p(2) _ refl, of buf sz0 mt0] H(4)
    by blast
qed

theorem varlen_uninterrupted_equals_call_witness:
  "\<exists>(t :: vstate) (r :: varlen_reader) j u ok k v got out'. vsent t = [] \<and> vreceived t = [] \<and>
    vrun (v_call ([5], default_meta) # replicate j (v_writer (rpos (vseg t)))) t = Some u \<and>
    varlen_write (vwriter t) (vseg t) 1 (Some [5]) default_meta = Some (Inr (ok, vwriter u, vseg u)) \<and>
    vsent u = (if ok then [([5], default_meta)] else []) \<and>
    vrun (v_read # replicate k (v_reader (cpos (vseg t)))) t = Some v \<and>
    varlen_read_copy r (vseg t) 16
      \<lparr>out_buf = Some (replicate 16 0), out_size = Some 0, out_meta = Some default_meta\<rparr> = Inr (got, out', vseg v) \<and>
    vreceived v = (if got then [copied_message out'] else [])"
proof -
  obtain w and r :: varlen_reader and s where o: "varlen_ring_open (fresh_segment 128) 128 32 = Some (w, r, s)"
    by (rule varlen_example_opens)
  have g: "align_of s = 32" "capacity_of s = 128" "wpos s = 0"
    using o by (auto simp: varlen_ring_open_def init_control_block_def Let_def split: if_splits)
  define t where "t = new_vstate w s 16"
  have t: "vseg t = s" "vwriter t = w" "vwpc t = vw_idle" "vrpc t = vr_idle" "vsent t = []" "vreceived t = []"
    by (simp_all add: t_def new_vstate_def)
  have "vreach (new_vstate w s 16) t" unfolding t_def by (rule vreach.start)
  note T = varlen_uninterrupted_equals_call [OF o _ _ _ this, of "([5], default_meta)" "replicate 16 0" 0 default_meta]
  from T g t obtain j u ok where "vrun (v_call ([5], default_meta) # replicate j (v_writer (rpos (vseg t)))) t = Some u"
    "varlen_write (vwriter t) (vseg t) 1 (Some [5]) default_meta = Some (Inr (ok, vwriter u, vseg u))"
    "vsent u = (if ok then [([5], default_meta)] else [])"
    by (auto simp: fresh_segment_def msg_size_def)
  moreover from T g t obtain k v got out' where "vrun (v_read # replicate k (v_reader (cpos (vseg t)))) t = Some v"
    "varlen_read_copy r (vseg t) 16 \<lparr>out_buf = Some (replicate 16 0), out_size = Some 0, out_meta = Some default_meta\<rparr> =
      Inr (got, out', vseg v)" "vreceived v = (if got then [copied_message out'] else [])"
    by (auto simp: fresh_segment_def)
  ultimately show ?thesis using t(5,6) by blast
qed

end
