(* ===== verification/Memory_Order.thy ===== *)
theory Memory_Order
  imports Ring_Prelude
begin

text \<open>
  Happens-before. The interleaving theories decide which value a load returns; here every
  execution is also followed by clocks, as a race detector does: each thread counts its
  steps, a store to an atomic position carries its thread's clock if it releases, a load joins the
  clock of the store it reads from if it acquires, and each byte remembers when it was last stored
  and last loaded. Two conflicting accesses race unless the later thread has joined a clock that
  covers the earlier access. The notify words synchronise too; they are left out, so that what is
  proved does not depend on them.
\<close>

section \<open>Memory orders and accesses\<close>

datatype memory_order = mo_relaxed | mo_acquire | mo_release | mo_acq_rel | mo_seq_cst

primrec acquires :: "memory_order \<Rightarrow> bool" where
  "acquires mo_relaxed = False"
| "acquires mo_acquire = True"
| "acquires mo_release = False"
| "acquires mo_acq_rel = True"
| "acquires mo_seq_cst = True"

primrec releases :: "memory_order \<Rightarrow> bool" where
  "releases mo_relaxed = False"
| "releases mo_acquire = False"
| "releases mo_release = True"
| "releases mo_acq_rel = True"
| "releases mo_seq_cst = True"

text \<open>The orders of the four accesses through which the two threads of a ring synchronise.\<close>

record orders =
  commit_store :: memory_order
  commit_load :: memory_order
  read_store :: memory_order
  read_load :: memory_order

text \<open>Each position is stored with release and loaded with acquire, or stronger.\<close>

definition synchronising :: "orders \<Rightarrow> bool" where
  "synchronising ord \<longleftrightarrow>
     releases (commit_store ord) \<and> acquires (commit_load ord) \<and>
     releases (read_store ord) \<and> acquires (read_load ord)"

text \<open>
  What a step does to shared memory: a thread stores (the writer) or loads (the reader) some data
  bytes, and then possibly loads the value with a given index in the history of the other thread's
  position, or stores its own position.
\<close>

datatype sync = no_sync | load_of nat | store_of

datatype event = Writer "nat list" sync | Reader "nat list" sync

record clocks =
  wtime :: nat               \<comment> \<open>steps of the writer\<close>
  rtime :: nat
  wknows :: nat              \<comment> \<open>the reader's steps that happen before the writer's next one\<close>
  rknows :: nat
  stored_at :: "nat \<Rightarrow> nat"  \<comment> \<open>per byte, the writer's step that stored it last\<close>
  loaded_at :: "nat \<Rightarrow> nat"
  commit_clocks :: "nat list" \<comment> \<open>per value of \<open>commit_pos\<close>, the clock its store released\<close>
  read_clocks :: "nat list"

definition new_clocks :: clocks where
  "new_clocks = \<lparr>wtime = 0, rtime = 0, wknows = 0, rknows = 0, stored_at = (\<lambda>_. 0),
     loaded_at = (\<lambda>_. 0), commit_clocks = [0], read_clocks = [0]\<rparr>"

definition stamp :: "nat list \<Rightarrow> nat \<Rightarrow> (nat \<Rightarrow> nat) \<Rightarrow> nat \<Rightarrow> nat" where
  "stamp js t f = (\<lambda>j. if j \<in> set js then t else f j)"

text \<open>The clock that the store with a given index released.\<close>

definition clock_of :: "nat list \<Rightarrow> nat \<Rightarrow> nat" where
  "clock_of ks i = (if i < length ks then ks ! i else 0)"

fun tick :: "orders \<Rightarrow> event \<Rightarrow> clocks \<Rightarrow> clocks" where
  "tick ord (Writer js y) c =
     (let t = Suc (wtime c); c = c\<lparr>wtime := t, stored_at := stamp js t (stored_at c)\<rparr>
      in case y of
           no_sync \<Rightarrow> c
         | load_of i \<Rightarrow>
             (if acquires (read_load ord) then c\<lparr>wknows := max (wknows c) (clock_of (read_clocks c) i)\<rparr> else c)
         | store_of \<Rightarrow>
             c\<lparr>commit_clocks := commit_clocks c @ [if releases (commit_store ord) then t else 0]\<rparr>)"
| "tick ord (Reader js y) c =
     (let t = Suc (rtime c); c = c\<lparr>rtime := t, loaded_at := stamp js t (loaded_at c)\<rparr>
      in case y of
           no_sync \<Rightarrow> c
         | load_of i \<Rightarrow>
             (if acquires (commit_load ord) then c\<lparr>rknows := max (rknows c) (clock_of (commit_clocks c) i)\<rparr> else c)
         | store_of \<Rightarrow>
             c\<lparr>read_clocks := read_clocks c @ [if releases (read_store ord) then t else 0]\<rparr>)"

text \<open>No byte about to be stored or loaded has a conflicting access that does not happen before.\<close>

definition ordered :: "nat list \<Rightarrow> nat list \<Rightarrow> clocks \<Rightarrow> bool" where
  "ordered stores loads c \<longleftrightarrow>
     list_all (\<lambda>j. loaded_at c j \<le> wknows c) stores \<and> list_all (\<lambda>j. stored_at c j \<le> rknows c) loads"

text \<open>Index of the store a load reads from; a position never holds the same value twice.\<close>

definition store_index :: "u64 \<Rightarrow> u64 list \<Rightarrow> nat" where
  "store_index x xs = length (takeWhile (\<lambda>y. y \<noteq> x) xs)"

lemma store_index_nth: "x \<in> set xs \<Longrightarrow> store_index x xs < length xs \<and> xs ! store_index x xs = x"
  by (induction xs) (auto simp: store_index_def)


section \<open>Executions\<close>

inductive clocked :: "('a \<Rightarrow> 's \<Rightarrow> 's option) \<Rightarrow> ('s \<Rightarrow> bool) \<Rightarrow> ('a \<Rightarrow> 's \<Rightarrow> event) \<Rightarrow> orders \<Rightarrow> 's \<Rightarrow>
    's \<Rightarrow> clocks \<Rightarrow> bool" for app ok ev ord s0 where
  start: "clocked app ok ev ord s0 s0 new_clocks"
| step: "clocked app ok ev ord s0 s c \<Longrightarrow> app a s = Some t \<Longrightarrow> ok t \<Longrightarrow>
    clocked app ok ev ord s0 t (tick ord (ev a s) c)"

fun clocked_run :: "('a \<Rightarrow> 's \<Rightarrow> 's option) \<Rightarrow> ('s \<Rightarrow> bool) \<Rightarrow> ('a \<Rightarrow> 's \<Rightarrow> event) \<Rightarrow> orders \<Rightarrow>
    'a list \<Rightarrow> 's \<times> clocks \<Rightarrow> ('s \<times> clocks) option" where
  "clocked_run app ok ev ord [] (s, c) = Some (s, c)"
| "clocked_run app ok ev ord (a # as) (s, c) =
     (case app a s of
        None \<Rightarrow> None
      | Some t \<Rightarrow> if ok t then clocked_run app ok ev ord as (t, tick ord (ev a s) c) else None)"

lemma clocked_run_clocked:
  "clocked_run app ok ev ord as (s, c) = Some (t, d) \<Longrightarrow> clocked app ok ev ord s0 s c \<Longrightarrow>
    clocked app ok ev ord s0 t d"
  by (induction as arbitrary: s c) (auto split: option.splits if_splits intro: clocked.step)

text \<open>Weaker orders leave the threads with less knowledge, so they can only race more.\<close>

definition weaker_orders :: "orders \<Rightarrow> orders \<Rightarrow> bool" where
  "weaker_orders o1 o2 \<longleftrightarrow>
     (releases (commit_store o1) \<longrightarrow> releases (commit_store o2)) \<and>
     (acquires (commit_load o1) \<longrightarrow> acquires (commit_load o2)) \<and>
     (releases (read_store o1) \<longrightarrow> releases (read_store o2)) \<and>
     (acquires (read_load o1) \<longrightarrow> acquires (read_load o2))"

definition knows_less :: "clocks \<Rightarrow> clocks \<Rightarrow> bool" where
  "knows_less c d \<longleftrightarrow>
     wtime c = wtime d \<and> rtime c = rtime d \<and> stored_at c = stored_at d \<and> loaded_at c = loaded_at d \<and>
     wknows c \<le> wknows d \<and> rknows c \<le> rknows d \<and>
     list_all2 (\<le>) (commit_clocks c) (commit_clocks d) \<and> list_all2 (\<le>) (read_clocks c) (read_clocks d)"

lemma clock_of_mono: "list_all2 (\<le>) xs ys \<Longrightarrow> clock_of xs i \<le> clock_of ys i"
  by (auto simp: clock_of_def list_all2_conv_all_nth)

lemma tick_mono:
  assumes "knows_less c d" "weaker_orders o1 o2"
  shows "knows_less (tick o1 e c) (tick o2 e d)"
proof (cases e)
  case (Writer js y)
  then show ?thesis
    using assms clock_of_mono [of "read_clocks c" "read_clocks d"]
    by (cases y) (auto simp: knows_less_def weaker_orders_def Let_def intro: list_all2_appendI max.coboundedI1 max.coboundedI2)
next
  case (Reader js y)
  then show ?thesis
    using assms clock_of_mono [of "commit_clocks c" "commit_clocks d"]
    by (cases y) (auto simp: knows_less_def weaker_orders_def Let_def intro: list_all2_appendI max.coboundedI1 max.coboundedI2)
qed

lemma ordered_mono: "knows_less c d \<Longrightarrow> ordered stores loads c \<Longrightarrow> ordered stores loads d"
  by (auto simp: knows_less_def ordered_def list_all_iff intro: order_trans)

lemma clocked_run_mono:
  assumes "clocked_run app ok ev o2 as (s, d) = Some (t, d')" "knows_less c d" "weaker_orders o1 o2"
  shows "\<exists>c'. clocked_run app ok ev o1 as (s, c) = Some (t, c') \<and> knows_less c' d'"
  using assms(1,2)
proof (induction as arbitrary: s c d)
  case (Cons a as)
  then obtain u where u: "app a s = Some u" "ok u" "clocked_run app ok ev o2 as (u, tick o2 (ev a s) d) = Some (t, d')"
    by (auto split: option.splits if_splits)
  from Cons.IH [OF u(3) tick_mono [OF Cons.prems(2) assms(3)]] show ?case using u(1,2) by simp
qed auto

lemma weaker_races:
  assumes "clocked_run app ok ev o2 as (s, new_clocks) = Some (t, d)" "\<not> ordered js ks d"
    and "weaker_orders o1 o2"
  shows "\<exists>c. clocked app ok ev o1 s t c \<and> \<not> ordered js ks c"
proof -
  have "knows_less new_clocks new_clocks" by (simp add: knows_less_def new_clocks_def)
  from clocked_run_mono [OF assms(1) this assms(3)]
  obtain c where c: "clocked_run app ok ev o1 as (s, new_clocks) = Some (t, c)" "knows_less c d" by blast
  then show ?thesis
    using clocked_run_clocked [OF c(1) clocked.start] ordered_mono [OF c(2)] assms(2) by blast
qed

text \<open>The strongest orders that miss one of the four synchronisations.\<close>

definition strong_orders :: orders where
  "strong_orders = \<lparr>commit_store = mo_seq_cst, commit_load = mo_seq_cst, read_store = mo_seq_cst,
     read_load = mo_seq_cst\<rparr>"

definition defective_orders :: "orders list" where
  "defective_orders =
     [strong_orders\<lparr>commit_store := mo_relaxed\<rparr>, strong_orders\<lparr>commit_load := mo_relaxed\<rparr>,
      strong_orders\<lparr>read_store := mo_relaxed\<rparr>, strong_orders\<lparr>read_load := mo_relaxed\<rparr>]"

lemma weaker_than_defective:
  assumes "\<not> synchronising ord"
  obtains o2 where "o2 \<in> set defective_orders" "weaker_orders ord o2"
proof -
  have "\<exists>o2 \<in> set defective_orders. weaker_orders ord o2"
    using assms by (auto simp: synchronising_def defective_orders_def weaker_orders_def strong_orders_def)
  then show thesis using that by blast
qed

text \<open>Orders that miss a synchronisation race if the strongest such orders do.\<close>

lemma missing_sync_races:
  assumes ex: "\<And>o2. o2 \<in> set defective_orders \<Longrightarrow> \<exists>acts t d.
      clocked_run app ok ev o2 acts (s, new_clocks) = Some (t, d) \<and> \<not> ordered (stores t) (loads t) d"
    and "\<not> synchronising ord"
  shows "\<exists>t c. clocked app ok ev ord s t c \<and> \<not> ordered (stores t) (loads t) c"
proof -
  obtain o2 where o2: "o2 \<in> set defective_orders" "weaker_orders ord o2"
    using assms(2) by (rule weaker_than_defective)
  obtain acts t d where r: "clocked_run app ok ev o2 acts (s, new_clocks) = Some (t, d)"
    "\<not> ordered (stores t) (loads t) d" using ex [OF o2(1)] by blast
  from weaker_races [OF r o2(2)] show ?thesis by blast
qed


section \<open>Rings\<close>

text \<open>Positions less than a capacity apart have different indices.\<close>

lemma same_index:
  fixes p q n :: nat
  assumes "p mod n = q mod n" "p < q" "q < p + n"
  shows False
proof -
  have "n dvd q - p" using assms(1,2) by (metis mod_eq_dvd_iff_nat order_less_imp_le)
  then show False using assms(2,3) by (auto dest!: dvd_imp_le)
qed

text \<open>
  What the two threads of a ring promise, whatever the ring stores: the writer stores only at
  positions from its published front up to a capacity past the reader's front it has loaded; the
  reader loads only at positions from its own front up to the writer's front it has loaded; each
  publishes by a store that is recorded in the history the other loads from.
\<close>

locale ring_threads =
  fixes app :: "'a \<Rightarrow> 's \<Rightarrow> 's option" and ok :: "'s \<Rightarrow> bool" and ev :: "'a \<Rightarrow> 's \<Rightarrow> event"
    and good :: "'s \<Rightarrow> bool" and cap cfront rfront seen_c seen_r :: "'s \<Rightarrow> nat"
    and chist rhist :: "'s \<Rightarrow> nat list" and stores loads :: "'s \<Rightarrow> nat list"
  assumes good_step: "good s \<Longrightarrow> app a s = Some t \<Longrightarrow> ok t \<Longrightarrow> good t"
    and cap_same: "good s \<Longrightarrow> app a s = Some t \<Longrightarrow> cap t = cap s"
    and fronts: "good s \<Longrightarrow> 0 < cap s \<and> seen_r s \<le> rfront s \<and> seen_c s \<le> cfront s"
    and hists: "good s \<Longrightarrow> list_all (\<lambda>x. x \<le> cfront s) (chist s) \<and> list_all (\<lambda>x. x \<le> rfront s) (rhist s)"
    and stores_at: "good s \<Longrightarrow> j \<in> set (stores s) \<Longrightarrow> j < cap s \<Longrightarrow>
      \<exists>p. cfront s \<le> p \<and> p < seen_r s + cap s \<and> p mod cap s = j"
    and loads_at: "good s \<Longrightarrow> j \<in> set (loads s) \<Longrightarrow> \<exists>p. rfront s \<le> p \<and> p < seen_c s \<and> p mod cap s = j"
    and writer_law: "good s \<Longrightarrow> app a s = Some t \<Longrightarrow> ev a s = Writer js y \<Longrightarrow>
      set js \<subseteq> set (stores s) \<and> seen_c t = seen_c s \<and> rhist t = rhist s \<and>
      chist t = chist s @ (if y = store_of then [cfront t] else []) \<and> seen_r s \<le> seen_r t \<and>
      (case y of load_of i \<Rightarrow> i < length (rhist s) \<and> seen_r t = rhist s ! i | _ \<Rightarrow> seen_r t = seen_r s)"
    and reader_law: "good s \<Longrightarrow> app a s = Some t \<Longrightarrow> ev a s = Reader js y \<Longrightarrow>
      set js \<subseteq> set (loads s) \<and> seen_r t = seen_r s \<and> chist t = chist s \<and>
      rhist t = rhist s @ (if y = store_of then [rfront t] else []) \<and> seen_c s \<le> seen_c t \<and>
      (case y of load_of i \<Rightarrow> i < length (chist s) \<and> seen_c t = chist s ! i | _ \<Rightarrow> seen_c t = seen_c s)"
begin

text \<open>
  A store not covered by a clock was made at a position from the value that carries the clock on,
  and within a capacity of the front the writer knows; likewise for loads.
\<close>

definition stores_after :: "'s \<Rightarrow> clocks \<Rightarrow> nat \<Rightarrow> nat \<Rightarrow> bool" where
  "stores_after s c k x \<longleftrightarrow> (\<forall>j. j < cap s \<and> k < stored_at c j \<longrightarrow>
     (\<exists>p. x \<le> p \<and> p < seen_r s + cap s \<and> p mod cap s = j))"

definition loads_after :: "'s \<Rightarrow> clocks \<Rightarrow> nat \<Rightarrow> nat \<Rightarrow> bool" where
  "loads_after s c k x \<longleftrightarrow> (\<forall>j. k < loaded_at c j \<longrightarrow> (\<exists>p. x \<le> p \<and> p < seen_c s \<and> p mod cap s = j))"

definition clock_inv :: "'s \<Rightarrow> clocks \<Rightarrow> bool" where
  "clock_inv s c \<longleftrightarrow>
     (\<forall>j. stored_at c j \<le> wtime c \<and> loaded_at c j \<le> rtime c) \<and>
     list_all2 (stores_after s c) (commit_clocks c) (chist s) \<and> stores_after s c (rknows c) (seen_c s) \<and>
     list_all2 (loads_after s c) (read_clocks c) (rhist s) \<and> loads_after s c (wknows c) (seen_r s)"

lemma after_mono:
  "stores_after s c k x \<Longrightarrow> cap t = cap s \<Longrightarrow> seen_r s \<le> seen_r t \<Longrightarrow> stored_at d = stored_at c \<Longrightarrow> stores_after t d k x"
  "loads_after s c k x \<Longrightarrow> cap t = cap s \<Longrightarrow> seen_c s \<le> seen_c t \<Longrightarrow> loaded_at d = loaded_at c \<Longrightarrow> loads_after t d k x"
  unfolding stores_after_def loads_after_def by (metis add_le_mono1 order_less_le_trans) (metis order_less_le_trans)

lemma stamp_stores:
  assumes "stores_after s c k x" "good s" "x \<le> cfront s" "set js \<subseteq> set (stores s)"
    and "cap t = cap s" "seen_r s \<le> seen_r t" "stored_at d = stamp js T (stored_at c)"
  shows "stores_after t d k x"
  unfolding stores_after_def
proof safe
  fix j assume j: "j < cap t" "k < stored_at d j"
  have "\<exists>p. x \<le> p \<and> p < seen_r s + cap s \<and> p mod cap s = j"
  proof (cases "j \<in> set js")
    case True
    then show ?thesis using stores_at [OF assms(2), of j] assms(3-5) j(1) by (auto intro: order_trans)
  next
    case False
    then show ?thesis using assms(1,5,7) j unfolding stores_after_def by (simp add: stamp_def)
  qed
  then show "\<exists>p\<ge>x. p < seen_r t + cap t \<and> p mod cap t = j"
    using assms(5,6) by (auto intro: order_less_le_trans)
qed

lemma stamp_loads:
  assumes "loads_after s c k x" "good s" "x \<le> rfront s" "set js \<subseteq> set (loads s)"
    and "cap t = cap s" "seen_c s \<le> seen_c t" "loaded_at d = stamp js T (loaded_at c)"
  shows "loads_after t d k x"
  unfolding loads_after_def
proof safe
  fix j assume j: "k < loaded_at d j"
  have "\<exists>p. x \<le> p \<and> p < seen_c s \<and> p mod cap s = j"
  proof (cases "j \<in> set js")
    case True
    then show ?thesis using loads_at [OF assms(2), of j] assms(3,4) by (auto intro: order_trans)
  next
    case False
    then show ?thesis using assms(1,7) j unfolding loads_after_def by (simp add: stamp_def)
  qed
  then show "\<exists>p\<ge>x. p < seen_c t \<and> p mod cap t = j" using assms(5,6) by (auto intro: order_less_le_trans)
qed

text \<open>A clock that covers every store so far has none after it.\<close>

lemma after_now:
  "\<forall>j. stored_at c j \<le> k \<Longrightarrow> stores_after s c k x"
  "\<forall>j. loaded_at c j \<le> k \<Longrightarrow> loads_after s c k x"
  by (auto simp: stores_after_def loads_after_def not_less [symmetric])

lemma after_max:
  "stores_after s c k x \<Longrightarrow> stores_after s c (max l k) x" "loads_after s c k x \<Longrightarrow> loads_after s c (max l k) x"
  by (auto simp: stores_after_def loads_after_def)

lemma writer_tick:
  assumes inv: "clock_inv s c" and g: "good s" "app a s = Some t" "ev a s = Writer js y"
    and ord: "releases (commit_store ord)" "acquires (read_load ord)"
  shows "clock_inv t (tick ord (ev a s) c)"
proof -
  let ?d = "tick ord (ev a s) c" and ?T = "Suc (wtime c)"
  note L = writer_law [OF g] and C = cap_same [OF g(1,2)]
  have d: "wtime ?d = ?T" "rtime ?d = rtime c" "loaded_at ?d = loaded_at c" "rknows ?d = rknows c"
    "read_clocks ?d = read_clocks c" "stored_at ?d = stamp js ?T (stored_at c)"
    "commit_clocks ?d = commit_clocks c @ (if y = store_of then [?T] else [])"
    "wknows ?d = (case y of load_of i \<Rightarrow> max (wknows c) (clock_of (read_clocks c) i) | _ \<Rightarrow> wknows c)"
    using ord by (simp_all add: g(3) Let_def split: sync.split)
  have times: "stored_at ?d j \<le> ?T \<and> loaded_at ?d j \<le> rtime ?d" for j
    using inv by (auto simp: clock_inv_def d stamp_def le_SucI)
  have st: "stores_after t ?d k x" if "stores_after s c k x" "x \<le> cfront s" for k x
    using stamp_stores [OF that(1) g(1) that(2) _ C _ d(6)] L by simp
  have ld: "loads_after t ?d k x" if "loads_after s c k x" for k x
    using after_mono(2) [OF that C _ d(3)] L by simp
  have "list_all2 (stores_after t ?d) (commit_clocks c) (chist s)"
    using inv hists [OF g(1)] st by (auto simp: clock_inv_def list_all2_conv_all_nth list_all_length)
  moreover have "stores_after t ?d ?T (cfront t)" using times by (intro after_now) auto
  ultimately have "list_all2 (stores_after t ?d) (commit_clocks ?d) (chist t)"
    using L by (auto simp: d intro: list_all2_appendI)
  moreover have "stores_after t ?d (rknows ?d) (seen_c t)"
    using inv st fronts [OF g(1)] L by (simp add: clock_inv_def d)
  moreover have R: "list_all2 (loads_after t ?d) (read_clocks ?d) (rhist t)"
    using inv ld L by (auto simp: clock_inv_def d elim: list_all2_mono)
  moreover have "loads_after t ?d (wknows ?d) (seen_r t)"
  proof (cases y)
    case (load_of i)
    then show ?thesis using R L by (auto simp: d clock_of_def list_all2_conv_all_nth intro: after_max)
  qed (use inv ld L in \<open>auto simp: clock_inv_def d\<close>)
  ultimately show ?thesis using times by (simp add: clock_inv_def d)
qed

lemma reader_tick:
  assumes inv: "clock_inv s c" and g: "good s" "app a s = Some t" "ev a s = Reader js y"
    and ord: "releases (read_store ord)" "acquires (commit_load ord)"
  shows "clock_inv t (tick ord (ev a s) c)"
proof -
  let ?d = "tick ord (ev a s) c" and ?T = "Suc (rtime c)"
  note L = reader_law [OF g] and C = cap_same [OF g(1,2)]
  have d: "rtime ?d = ?T" "wtime ?d = wtime c" "stored_at ?d = stored_at c" "wknows ?d = wknows c"
    "commit_clocks ?d = commit_clocks c" "loaded_at ?d = stamp js ?T (loaded_at c)"
    "read_clocks ?d = read_clocks c @ (if y = store_of then [?T] else [])"
    "rknows ?d = (case y of load_of i \<Rightarrow> max (rknows c) (clock_of (commit_clocks c) i) | _ \<Rightarrow> rknows c)"
    using ord by (simp_all add: g(3) Let_def split: sync.split)
  have times: "stored_at ?d j \<le> wtime ?d \<and> loaded_at ?d j \<le> ?T" for j
    using inv by (auto simp: clock_inv_def d stamp_def le_SucI)
  have ld: "loads_after t ?d k x" if "loads_after s c k x" "x \<le> rfront s" for k x
    using stamp_loads [OF that(1) g(1) that(2) _ C _ d(6)] L by simp
  have st: "stores_after t ?d k x" if "stores_after s c k x" for k x
    using after_mono(1) [OF that C _ d(3)] L by simp
  have "list_all2 (loads_after t ?d) (read_clocks c) (rhist s)"
    using inv hists [OF g(1)] ld by (auto simp: clock_inv_def list_all2_conv_all_nth list_all_length)
  moreover have "loads_after t ?d ?T (rfront t)" using times by (intro after_now) auto
  ultimately have "list_all2 (loads_after t ?d) (read_clocks ?d) (rhist t)"
    using L by (auto simp: d intro: list_all2_appendI)
  moreover have "loads_after t ?d (wknows ?d) (seen_r t)"
    using inv ld fronts [OF g(1)] L by (simp add: clock_inv_def d)
  moreover have R: "list_all2 (stores_after t ?d) (commit_clocks ?d) (chist t)"
    using inv st L by (auto simp: clock_inv_def d elim: list_all2_mono)
  moreover have "stores_after t ?d (rknows ?d) (seen_c t)"
  proof (cases y)
    case (load_of i)
    then show ?thesis using R L by (auto simp: d clock_of_def list_all2_conv_all_nth intro: after_max)
  qed (use inv st L in \<open>auto simp: clock_inv_def d\<close>)
  ultimately show ?thesis using times by (simp add: clock_inv_def d)
qed

lemma clock_inv_ordered:
  assumes inv: "clock_inv s c" and g: "good s"
  shows "ordered (stores s) (loads s) c"
proof -
  note F = fronts [OF g]
  have "loaded_at c j \<le> wknows c" if j: "j \<in> set (stores s)" for j
  proof (rule ccontr)
    assume "\<not> loaded_at c j \<le> wknows c"
    then obtain p where p: "seen_r s \<le> p" "p < seen_c s" "p mod cap s = j"
      using inv by (auto simp: clock_inv_def loads_after_def not_le)
    moreover have "j < cap s" using p(3) F by auto
    then obtain q where "cfront s \<le> q" "q < seen_r s + cap s" "q mod cap s = j"
      using stores_at [OF g j] by blast
    ultimately show False using same_index [of p "cap s" q] F by auto
  qed
  moreover have "stored_at c j \<le> rknows c" if j: "j \<in> set (loads s)" for j
  proof (rule ccontr)
    assume n: "\<not> stored_at c j \<le> rknows c"
    obtain p where p: "rfront s \<le> p" "p < seen_c s" "p mod cap s = j" using loads_at [OF g j] by blast
    moreover have "j < cap s" using p(3) F by auto
    then obtain q where "seen_c s \<le> q" "q < seen_r s + cap s" "q mod cap s = j"
      using inv n by (auto simp: clock_inv_def stores_after_def not_le)
    ultimately show False using same_index [of p "cap s" q] F by auto
  qed
  ultimately show ?thesis by (simp add: ordered_def list_all_iff)
qed

lemma clocked_inv:
  assumes "clocked app ok ev ord s0 s c" and "good s0" "chist s0 = [x]" "rhist s0 = [y]"
    and ord: "synchronising ord"
  shows "good s \<and> clock_inv s c"
  using assms(1)
proof (induction rule: clocked.induct)
  case start
  then show ?case
    using assms(2-4) by (simp add: clock_inv_def new_clocks_def stores_after_def loads_after_def)
next
  case (step s c a t)
  then have g: "good s" "clock_inv s c" by auto
  have "clock_inv t (tick ord (ev a s) c)"
  proof (cases "ev a s")
    case (Writer js y)
    from writer_tick [OF g(2,1) step.hyps(2) Writer] ord show ?thesis by (simp add: synchronising_def)
  next
    case (Reader js y)
    from reader_tick [OF g(2,1) step.hyps(2) Reader] ord show ?thesis by (simp add: synchronising_def)
  qed
  then show ?case using good_step [OF g(1) step.hyps(2,3)] by simp
qed

text \<open>With the four accesses acquiring and releasing, no execution has a data race.\<close>

lemma no_race:
  assumes "clocked app ok ev ord s0 s c" and "good s0" "chist s0 = [x]" "rhist s0 = [y]"
    and "synchronising ord"
  shows "ordered (stores s) (loads s) c"
  using clocked_inv [OF assms] clock_inv_ordered by blast

end

end
