(* ===== verification/Fixed_Order.thy ===== *)
theory Fixed_Order
  imports Memory_Order Fixed_Sequential
begin

text \<open>
  The memory orders of the fixed ring. Every execution of the threads of \<open>Fixed_Concurrent\<close> is
  followed by the clocks of \<open>Memory_Order\<close>: with the orders the code uses, no two accesses of a
  frame byte race in the sense of the C++ memory model, and each of the four orders is needed.
\<close>

section \<open>The orders in the code\<close>

definition fixed_commit_store :: memory_order where
  "fixed_commit_store = mo_release"

definition fixed_read_load :: memory_order where
  "fixed_read_load = mo_acquire"

definition fixed_commit_load :: memory_order where
  "fixed_commit_load = mo_acquire"

definition fixed_read_store :: memory_order where
  "fixed_read_store = mo_seq_cst"

definition fixed_orders :: orders where
  "fixed_orders = \<lparr>commit_store = fixed_commit_store, commit_load = fixed_commit_load,
     read_store = fixed_read_store, read_load = fixed_read_load\<rparr>"

lemmas fixed_order_defs = fixed_orders_def fixed_commit_store_def fixed_commit_load_def
  fixed_read_store_def fixed_read_load_def

text \<open>What a step does to the frame bytes and to a position.\<close>

fun fixed_event :: "caction \<Rightarrow> cstate \<Rightarrow> event" where
  "fixed_event (call_write m) s = Writer [] no_sync"
| "fixed_event (run_producer r) s =
     Writer (fixed_stores s)
       (case ppc s of
          p_load m \<Rightarrow> load_of (store_index r (read_history s))
        | p_publish m \<Rightarrow> store_of
        | _ \<Rightarrow> no_sync)"
| "fixed_event (run_consumer c) s =
     Reader (fixed_loads s)
       (case cpc s of
          c_idle \<Rightarrow> load_of (store_index c (commit_history s))
        | c_advance buf \<Rightarrow> store_of
        | _ \<Rightarrow> no_sync)"

definition clow :: "cstate \<Rightarrow> bool" where
  "clow s \<longleftrightarrow> low (seg s)"


section \<open>The threads of the fixed ring are ring threads\<close>

lemma clow_bound: "clow s \<Longrightarrow> unat (wpos (seg s)) + item_of (seg s) < 2 ^ 64"
  using below_minus [of "wpos (seg s)" "u64_of_u32 (fixed_item_size (hdr (seg s)))"]
  by (simp add: clow_def low_def)

lemma fixed_capacity_same: "capply a s = Some t \<Longrightarrow> capacity_of (seg t) = capacity_of (seg s)"
  by (induction a s rule: capply.induct)
    (auto simp: reserved_segment_def poke_def split: if_splits ppc.splits cpc.splits)

lemma fixed_writer_law:
  assumes "capply a s = Some t" "fixed_event a s = Writer js y"
  shows "set js \<subseteq> set (fixed_stores s) \<and> seen_commit t = seen_commit s \<and> read_history t = read_history s \<and>
    commit_history t = commit_history s @ (if y = store_of then [cpos (seg t)] else []) \<and>
    seen_read s \<le> seen_read t \<and>
    (case y of load_of i \<Rightarrow> i < length (read_history s) \<and> seen_read t = read_history s ! i
     | _ \<Rightarrow> seen_read t = seen_read s)"
proof (cases a)
  case (run_producer r)
  with assms store_index_nth [of r "read_history s"] show ?thesis
    by (auto split: ppc.splits if_splits)
qed (use assms in \<open>auto split: if_splits\<close>)

lemma fixed_reader_law:
  assumes "capply a s = Some t" "fixed_event a s = Reader js y"
  shows "set js \<subseteq> set (fixed_loads s) \<and> seen_read t = seen_read s \<and> commit_history t = commit_history s \<and>
    read_history t = read_history s @ (if y = store_of then [rpos (seg t)] else []) \<and>
    seen_commit s \<le> seen_commit t \<and>
    (case y of load_of i \<Rightarrow> i < length (commit_history s) \<and> seen_commit t = commit_history s ! i
     | _ \<Rightarrow> seen_commit t = seen_commit s)"
proof (cases a)
  case (run_consumer c)
  with assms store_index_nth [of c "commit_history s"] show ?thesis
    by (auto split: cpc.splits if_splits)
qed (use assms in \<open>auto split: if_splits\<close>)

interpretation fixed_hb: ring_threads capply clow fixed_event conc_inv "\<lambda>s. capacity_of (seg s)"
  "\<lambda>s. unat (cpos (seg s))" "\<lambda>s. unat (rpos (seg s))" "\<lambda>s. unat (seen_commit s)" "\<lambda>s. unat (seen_read s)"
  "\<lambda>s. map unat (commit_history s)" "\<lambda>s. map unat (read_history s)" fixed_stores fixed_loads
proof
  fix s t :: cstate and a :: caction and js :: "nat list" and y :: sync
  assume inv: "conc_inv s"
  note D = conc_invD [OF inv]
  show "0 < capacity_of (seg s) \<and> unat (seen_read s) \<le> unat (rpos (seg s)) \<and>
      unat (seen_commit s) \<le> unat (cpos (seg s))"
    using D(4,5) fixed_geometryD(2) [OF fixed_invD(1) [OF D(1)]] by simp
  show "list_all (\<lambda>x. x \<le> unat (cpos (seg s))) (map unat (commit_history s)) \<and>
      list_all (\<lambda>x. x \<le> unat (rpos (seg s))) (map unat (read_history s))"
    using D(8,9) by (auto simp: list_all_iff)
  show "\<exists>p\<ge>unat (cpos (seg s)). p < unat (seen_read s) + capacity_of (seg s) \<and> p mod capacity_of (seg s) = j"
    if "j \<in> set (fixed_stores s)" for j using fixed_store_position [OF inv that] .
  show "\<exists>p\<ge>unat (rpos (seg s)). p < unat (seen_commit s) \<and> p mod capacity_of (seg s) = j"
    if "j \<in> set (fixed_loads s)" for j using fixed_load_position [OF inv that] .
  assume st: "capply a s = Some t"
  show "conc_inv t" if "clow t" using conc_inv_step [OF capply_cstep [OF st] inv clow_bound [OF that]] .
  show "capacity_of (seg t) = capacity_of (seg s)" using fixed_capacity_same [OF st] .
  show "set js \<subseteq> set (fixed_stores s) \<and> unat (seen_commit t) = unat (seen_commit s) \<and>
      map unat (read_history t) = map unat (read_history s) \<and>
      map unat (commit_history t) = map unat (commit_history s) @ (if y = store_of then [unat (cpos (seg t))] else []) \<and>
      unat (seen_read s) \<le> unat (seen_read t) \<and>
      (case y of load_of i \<Rightarrow> i < length (map unat (read_history s)) \<and> unat (seen_read t) = map unat (read_history s) ! i
       | _ \<Rightarrow> unat (seen_read t) = unat (seen_read s))" if "fixed_event a s = Writer js y"
    using fixed_writer_law [OF st that] by (cases y) (auto simp: word_le_nat_alt)
  show "set js \<subseteq> set (fixed_loads s) \<and> unat (seen_read t) = unat (seen_read s) \<and>
      map unat (commit_history t) = map unat (commit_history s) \<and>
      map unat (read_history t) = map unat (read_history s) @ (if y = store_of then [unat (rpos (seg t))] else []) \<and>
      unat (seen_commit s) \<le> unat (seen_commit t) \<and>
      (case y of load_of i \<Rightarrow> i < length (map unat (commit_history s)) \<and> unat (seen_commit t) = map unat (commit_history s) ! i
       | _ \<Rightarrow> unat (seen_commit t) = unat (seen_commit s))" if "fixed_event a s = Reader js y"
    using fixed_reader_law [OF st that] by (cases y) (auto simp: word_le_nat_alt)
qed


section \<open>Properties\<close>

text \<open>
  C3: The memory orders of the fixed ring are strong enough. In every execution of a producer and
  a consumer, whenever the producer is about to store a byte, every load of that byte by the consumer happens
  before the store, and whenever the consumer is about to load a byte, the last store of that byte
  happens before the load, by the acquire and release operations on the two positions alone.
\<close>

theorem fixed_happens_before:
  assumes "fixed_ring_open seg0 cap alignment item = Inr (Some (w, r, s))" "item \<noteq> 0"
    and "unat cap \<le> length (data_bytes seg0)"
    and "clocked capply clow fixed_event fixed_orders (new_cstate w s) t c"
  shows "ordered (fixed_stores t) (fixed_loads t) c"
  using assms(4) conc_inv_start [OF assms(1-3)]
  by (rule fixed_hb.no_race) (simp_all add: new_cstate_def fixed_order_defs synchronising_def)

text \<open>
  Schedules on a ring of two one-byte frames: one frame is published and the consumer has loaded
  \<open>commit_pos\<close>; or both frames are published, one is consumed and released, and the producer has
  loaded \<open>read_pos\<close>.
\<close>

definition fill_schedule :: "caction list" where
  "fill_schedule = call_write [5] # replicate 5 (run_producer 0) @ [run_consumer 1]"

definition reuse_schedule :: "caction list" where
  "reuse_schedule = call_write [5] # replicate 5 (run_producer 0) @ call_write [6] # replicate 5 (run_producer 0) @
     replicate 5 (run_consumer 1) @ [call_write [7], run_producer 1]"

definition fixed_example_run :: "orders \<Rightarrow> caction list \<Rightarrow> (cstate \<times> clocks) option" where
  "fixed_example_run ord acts =
     (case fixed_ring_open (fresh_segment 2) 2 1 1 of
        Inr (Some (w, r, s)) \<Rightarrow> clocked_run capply clow fixed_event ord acts (new_cstate w s, new_clocks)
      | _ \<Rightarrow> None)"

definition fixed_races :: "orders \<Rightarrow> caction list \<Rightarrow> bool" where
  "fixed_races ord acts =
     (case fixed_example_run ord acts of
        None \<Rightarrow> False
      | Some (t, c) \<Rightarrow> \<not> ordered (fixed_stores t) (fixed_loads t) c)"

lemma fixed_example_races:
  "fixed_races (strong_orders\<lparr>commit_store := mo_relaxed\<rparr>) fill_schedule"
  "fixed_races (strong_orders\<lparr>commit_load := mo_relaxed\<rparr>) fill_schedule"
  "fixed_races (strong_orders\<lparr>read_store := mo_relaxed\<rparr>) reuse_schedule"
  "fixed_races (strong_orders\<lparr>read_load := mo_relaxed\<rparr>) reuse_schedule"
  by code_simp+

lemma small_fixed_opens:
  obtains w r s where "fixed_ring_open (fresh_segment 2) 2 1 1 = Inr (Some (w, r, s))"
proof -
  have "is_valid_data_alignment 1" "(2 :: u64) mod u64_of_u32 1 = 0"
    by (simp_all add: is_valid_data_alignment_def u64_of_u32_def)
  with that show thesis by (simp add: fixed_ring_open_cases)
qed

theorem fixed_happens_before_witness:
  "\<exists>w r s t c. fixed_ring_open (fresh_segment 2) 2 1 1 = Inr (Some (w, r, s)) \<and>
    clocked capply clow fixed_event fixed_orders (new_cstate w s) t c \<and> fixed_stores t = [0] \<and>
    loaded_at c 0 = 2 \<and> 2 \<le> wknows c"
proof -
  obtain w r s where o: "fixed_ring_open (fresh_segment 2) 2 1 1 = Inr (Some (w, r, s))"
    by (rule small_fixed_opens)
  have "map_option (\<lambda>(t, c). (fixed_stores t, loaded_at c 0)) (fixed_example_run fixed_orders reuse_schedule) = Some ([0], 2)"
    by code_simp
  then obtain t c where t: "fixed_example_run fixed_orders reuse_schedule = Some (t, c)" "fixed_stores t = [0]" "loaded_at c 0 = 2"
    by auto
  then have c: "clocked capply clow fixed_event fixed_orders (new_cstate w s) t c"
    using clocked_run_clocked [OF _ clocked.start] o by (simp add: fixed_example_run_def)
  from fixed_happens_before [OF o _ _ c] t(2,3) have "2 \<le> wknows c" by (simp add: fresh_segment_def ordered_def)
  with o c t(2,3) show ?thesis by blast
qed

text \<open>Freedom from races of every execution of every ring, as a property of the orders.\<close>

definition fixed_race_free :: "orders \<Rightarrow> bool" where
  "fixed_race_free ord \<longleftrightarrow>
     (\<forall>seg0 cap alignment item w r s t c.
        fixed_ring_open seg0 cap alignment item = Inr (Some (w, r, s)) \<and> item \<noteq> 0 \<and>
        unat cap \<le> length (data_bytes seg0) \<and> clocked capply clow fixed_event ord (new_cstate w s) t c \<longrightarrow>
        ordered (fixed_stores t) (fixed_loads t) c)"

lemma fixed_race_free_iff: "fixed_race_free ord \<longleftrightarrow> synchronising ord"
proof
  assume "synchronising ord"
  then show "fixed_race_free ord"
    unfolding fixed_race_free_def using fixed_hb.no_race [OF _ conc_inv_start] by (auto simp: new_cstate_def)
next
  assume free: "fixed_race_free ord"
  obtain w r s where o: "fixed_ring_open (fresh_segment 2) 2 1 1 = Inr (Some (w, r, s))"
    by (rule small_fixed_opens)
  have "\<exists>acts t d. clocked_run capply clow fixed_event o2 acts (new_cstate w s, new_clocks) = Some (t, d) \<and>
      \<not> ordered (fixed_stores t) (fixed_loads t) d" if o2: "o2 \<in> set defective_orders" for o2
  proof -
    obtain acts where "fixed_races o2 acts"
      using fixed_example_races o2 by (auto simp: defective_orders_def)
    then obtain t d where "fixed_example_run o2 acts = Some (t, d)" "\<not> ordered (fixed_stores t) (fixed_loads t) d"
      by (auto simp: fixed_races_def split: option.splits)
    then show ?thesis using o by (auto simp: fixed_example_run_def)
  qed
  note R = missing_sync_races [OF this]
  have "unat (2 :: u64) \<le> length (data_bytes (fresh_segment 2))" by (simp add: fresh_segment_def)
  with free o R show "synchronising ord" unfolding fixed_race_free_def by (metis one_neq_zero)
qed

end
