(* ===== verification/Varlen_Order.thy ===== *)
theory Varlen_Order
  imports Fixed_Order Varlen_Concurrent
begin

text \<open>
  The memory orders of the variable-length ring, as in \<open>Fixed_Order\<close>: slot headers, padding headers
  and payloads are plain memory, and all of them are ordered by the two positions alone.
\<close>

section \<open>The orders in the code\<close>

definition varlen_commit_store :: memory_order where
  "varlen_commit_store = mo_release"

definition varlen_read_load :: memory_order where
  "varlen_read_load = mo_acquire"

definition varlen_commit_load :: memory_order where
  "varlen_commit_load = mo_acquire"

definition varlen_read_store :: memory_order where
  "varlen_read_store = mo_seq_cst"

definition varlen_orders :: orders where
  "varlen_orders = \<lparr>commit_store = varlen_commit_store, commit_load = varlen_commit_load,
     read_store = varlen_read_store, read_load = varlen_read_load\<rparr>"

lemmas varlen_order_defs = varlen_orders_def varlen_commit_store_def varlen_commit_load_def
  varlen_read_store_def varlen_read_load_def

text \<open>
  The accesses of a step. The padding and the slot are both published through \<open>commit_pos\<close>; the
  reader loads \<open>slot_size\<close> once more before it stores \<open>read_pos\<close>.
\<close>

fun varlen_event :: "vaction \<Rightarrow> vstate \<Rightarrow> event" where
  "varlen_event (v_call m) s = Writer [] no_sync"
| "varlen_event (v_writer r) s =
     Writer (writes_next s)
       (case vwpc s of
          vw_load m head \<Rightarrow> load_of (store_index r (vread_history s))
        | vw_pad_header m head k \<Rightarrow> if k < 32 then no_sync else store_of
        | vw_publish m head \<Rightarrow>
            if vpending (vwriter s) \<and> head = last_position (vwriter s) then store_of else no_sync
        | _ \<Rightarrow> no_sync)"
| "varlen_event v_read s = Reader [] no_sync"
| "varlen_event (v_reader c) s =
     Reader (reads_next s)
       (case vrpc s of
          vr_load \<Rightarrow> load_of (store_index c (vcommit_history s))
        | vr_advance m \<Rightarrow> store_of
        | _ \<Rightarrow> no_sync)"


section \<open>The threads of the variable-length ring are ring threads\<close>

lemma index_position:
  fixes b :: nat
  assumes "b mod n \<le> j" "j < n"
  shows "(b + (j - b mod n)) mod n = j"
proof -
  have "(b + (j - b mod n)) mod n = (b mod n + (j - b mod n)) mod n" by (simp add: mod_add_left_eq)
  then show ?thesis using assms by simp
qed

lemma varlen_store_position:
  assumes inv: "vconc_inv s" and j: "j \<in> set (writes_next s)" "j < capacity_of (vseg s)"
  shows "\<exists>p. unat (cpos (vseg s)) \<le> p \<and> p < unat (vseen_read s) + capacity_of (vseg s) \<and>
    p mod capacity_of (vseg s) = j"
proof -
  let ?C = "unat (cpos (vseg s))" and ?n = "capacity_of (vseg s)"
  note W = writes_in_span [OF inv j(1)] and V = vviews_invD [OF vconc_invD(2) [OF inv]]
  have "?C + (j - ?C mod ?n) < unat (vseen_read s) + ?n" using W(1,4,5) V(2) j(2) by linarith
  then show ?thesis
    using index_position [OF W(4) j(2)] by (intro exI [of _ "?C + (j - ?C mod ?n)"]) simp
qed

lemma varlen_load_position:
  assumes inv: "vconc_inv s" and j: "j \<in> set (reads_next s)"
  shows "\<exists>p. unat (rpos (vseg s)) \<le> p \<and> p < unat (vseen_commit s) \<and> p mod capacity_of (vseg s) = j"
proof -
  let ?R = "unat (rpos (vseg s))" and ?n = "capacity_of (vseg s)"
  obtain k where k: "?R mod ?n \<le> j" "j < ?R mod ?n + k" "?R mod ?n + k \<le> ?n" "?R + k \<le> unat (vseen_commit s)"
    by (rule reads_in_slot [OF inv j])
  have "?R + (j - ?R mod ?n) < unat (vseen_commit s)" using k by linarith
  moreover have "j < ?n" using k by linarith
  ultimately show ?thesis
    using index_position [OF k(1)] by (intro exI [of _ "?R + (j - ?R mod ?n)"]) simp
qed

lemma vconc_inv_apply: "vconc_inv s \<Longrightarrow> vapply a s = Some t \<Longrightarrow> vlow t \<Longrightarrow> vconc_inv t"
  by (cases a) (auto intro: conc_call conc_r_call conc_writer conc_reader)

lemma varlen_capacity_same:
  assumes "vapply a s = Some t"
  shows "capacity_of (vseg t) = capacity_of (vseg s)"
proof (cases a)
  case (v_call m)
  with assms show ?thesis by (auto simp: call_write_step_def split: if_splits)
next
  case (v_writer r)
  with assms show ?thesis
    by (cases "vwpc s") (auto simp: writer_step_def Let_def poke_def split: if_splits)
next
  case (v_reader c)
  with assms show ?thesis
    by (cases "vrpc s") (auto simp: reader_step_def Let_def split: if_splits)
qed (use assms in \<open>auto simp: call_read_step_def split: if_splits\<close>)

lemma varlen_writer_law:
  assumes "vapply a s = Some t" "varlen_event a s = Writer js y"
  shows "set js \<subseteq> set (writes_next s) \<and> vseen_commit t = vseen_commit s \<and> vread_history t = vread_history s \<and>
    vcommit_history t = vcommit_history s @ (if y = store_of then [cpos (vseg t)] else []) \<and>
    vseen_read s \<le> vseen_read t \<and>
    (case y of load_of i \<Rightarrow> i < length (vread_history s) \<and> vseen_read t = vread_history s ! i
     | _ \<Rightarrow> vseen_read t = vseen_read s)"
proof (cases a)
  case (v_call m)
  with assms show ?thesis by (auto simp: call_write_step_def split: if_splits)
next
  case (v_writer r)
  with assms store_index_nth [of r "vread_history s"] show ?thesis
    by (cases "vwpc s") (auto simp: writer_step_def Let_def split: if_splits)
qed (use assms in simp_all)

lemma varlen_reader_law:
  assumes "vapply a s = Some t" "varlen_event a s = Reader js y"
  shows "set js \<subseteq> set (reads_next s) \<and> vseen_read t = vseen_read s \<and> vcommit_history t = vcommit_history s \<and>
    vread_history t = vread_history s @ (if y = store_of then [rpos (vseg t)] else []) \<and>
    vseen_commit s \<le> vseen_commit t \<and>
    (case y of load_of i \<Rightarrow> i < length (vcommit_history s) \<and> vseen_commit t = vcommit_history s ! i
     | _ \<Rightarrow> vseen_commit t = vseen_commit s)"
proof (cases a)
  case (v_reader c)
  with assms store_index_nth [of c "vcommit_history s"] show ?thesis
    by (cases "vrpc s") (auto simp: reader_step_def Let_def split: if_splits)
qed (use assms in \<open>auto simp: call_read_step_def split: if_splits\<close>)

interpretation varlen_hb: ring_threads vapply vlow varlen_event vconc_inv "\<lambda>s. capacity_of (vseg s)"
  "\<lambda>s. unat (cpos (vseg s))" "\<lambda>s. unat (rpos (vseg s))" "\<lambda>s. unat (vseen_commit s)" "\<lambda>s. unat (vseen_read s)"
  "\<lambda>s. map unat (vcommit_history s)" "\<lambda>s. map unat (vread_history s)" writes_next reads_next
proof
  fix s t :: vstate and a :: vaction and js :: "nat list" and y :: sync
  assume inv: "vconc_inv s"
  note V = vviews_invD [OF vconc_invD(2) [OF inv]]
  show "0 < capacity_of (vseg s) \<and> unat (vseen_read s) \<le> unat (rpos (vseg s)) \<and>
      unat (vseen_commit s) \<le> unat (cpos (vseg s))"
    using V(3,4) varlen_geometryD(4) [OF vring_invD(1) [OF vconc_invD(1) [OF inv]]] by simp
  show "list_all (\<lambda>x. x \<le> unat (cpos (vseg s))) (map unat (vcommit_history s)) \<and>
      list_all (\<lambda>x. x \<le> unat (rpos (vseg s))) (map unat (vread_history s))"
    using V(6,7) by (auto simp: list_all_iff)
  show "\<exists>p\<ge>unat (cpos (vseg s)). p < unat (vseen_read s) + capacity_of (vseg s) \<and> p mod capacity_of (vseg s) = j"
    if "j \<in> set (writes_next s)" "j < capacity_of (vseg s)" for j using varlen_store_position [OF inv that] .
  show "\<exists>p\<ge>unat (rpos (vseg s)). p < unat (vseen_commit s) \<and> p mod capacity_of (vseg s) = j"
    if "j \<in> set (reads_next s)" for j using varlen_load_position [OF inv that] .
  assume st: "vapply a s = Some t"
  show "vconc_inv t" if "vlow t" using vconc_inv_apply [OF inv st that] .
  show "capacity_of (vseg t) = capacity_of (vseg s)" using varlen_capacity_same [OF st] .
  show "set js \<subseteq> set (writes_next s) \<and> unat (vseen_commit t) = unat (vseen_commit s) \<and>
      map unat (vread_history t) = map unat (vread_history s) \<and>
      map unat (vcommit_history t) = map unat (vcommit_history s) @ (if y = store_of then [unat (cpos (vseg t))] else []) \<and>
      unat (vseen_read s) \<le> unat (vseen_read t) \<and>
      (case y of load_of i \<Rightarrow> i < length (map unat (vread_history s)) \<and> unat (vseen_read t) = map unat (vread_history s) ! i
       | _ \<Rightarrow> unat (vseen_read t) = unat (vseen_read s))" if "varlen_event a s = Writer js y"
    using varlen_writer_law [OF st that] by (cases y) (auto simp: word_le_nat_alt)
  show "set js \<subseteq> set (reads_next s) \<and> unat (vseen_read t) = unat (vseen_read s) \<and>
      map unat (vcommit_history t) = map unat (vcommit_history s) \<and>
      map unat (vread_history t) = map unat (vread_history s) @ (if y = store_of then [unat (rpos (vseg t))] else []) \<and>
      unat (vseen_commit s) \<le> unat (vseen_commit t) \<and>
      (case y of load_of i \<Rightarrow> i < length (map unat (vcommit_history s)) \<and> unat (vseen_commit t) = map unat (vcommit_history s) ! i
       | _ \<Rightarrow> unat (vseen_commit t) = unat (vseen_commit s))" if "varlen_event a s = Reader js y"
    using varlen_reader_law [OF st that] by (cases y) (auto simp: word_le_nat_alt)
qed


section \<open>Properties\<close>

text \<open>
  C6: The memory orders of the variable-length ring are strong enough. In every execution of a
  writer and a reader, whenever the writer is about to store a byte of a header, of a padding or of a
  payload, every load of that byte by the reader happens before the store, and whenever the reader
  is about to load bytes, their last stores happen before the load, by the acquire and release
  operations on the two positions alone. The ring has alignment 8 or more and room for a padding
  header behind its data, and messages are not empty.
\<close>

theorem varlen_happens_before:
  assumes "varlen_ring_open seg0 cap alignment = Some (w, r, s)" "8 \<le> alignment"
    and "unat cap \<le> length (data_bytes seg0)"
    and "unat cap + 32 \<le> length (data_bytes seg0) + unat alignment"
    and "clocked vapply vlow varlen_event varlen_orders (new_vstate w s max_size) t c"
  shows "ordered (writes_next t) (reads_next t) c"
  using assms(5) vconc_inv_start [OF assms(1-4)]
  by (rule varlen_hb.no_race) (simp_all add: new_vstate_def varlen_order_defs synchronising_def)

text \<open>
  Schedules on a ring of 40 bytes, which one message fills: the message is published and the reader
  has loaded \<open>commit_pos\<close>; or it is also consumed and released, and the writer is about to store the
  next header over it.
\<close>

definition vfill_schedule :: "vaction list" where
  "vfill_schedule = v_call ([5], default_meta) # replicate 39 (v_writer 0) @ [v_read, v_reader 40]"

definition vreuse_schedule :: "vaction list" where
  "vreuse_schedule =
     v_call ([5], default_meta) # replicate 39 (v_writer 0) @
     v_read # replicate 8 (v_reader 40) @ [v_call ([6], default_meta), v_writer 40, v_writer 40]"

definition varlen_example_run :: "orders \<Rightarrow> vaction list \<Rightarrow> (vstate \<times> clocks) option" where
  "varlen_example_run ord acts =
     (case varlen_ring_open (fresh_segment 64) 40 8 of
        Some (w, r :: varlen_reader, s) \<Rightarrow>
          clocked_run vapply vlow varlen_event ord acts (new_vstate w s 16, new_clocks)
      | None \<Rightarrow> None)"

definition varlen_races :: "orders \<Rightarrow> vaction list \<Rightarrow> bool" where
  "varlen_races ord acts =
     (case varlen_example_run ord acts of
        None \<Rightarrow> False
      | Some (t, c) \<Rightarrow> \<not> ordered (writes_next t) (reads_next t) c)"

lemma small_varlen_opens:
  obtains w and r :: varlen_reader and s where "varlen_ring_open (fresh_segment 64) 40 8 = Some (w, r, s)"
proof -
  have "varlen_ring_open (fresh_segment 64) 40 8 \<noteq> None" by code_simp
  with that show thesis by auto
qed

lemma varlen_fill_races:
  "varlen_races (strong_orders\<lparr>commit_store := mo_relaxed\<rparr>) vfill_schedule"
  "varlen_races (strong_orders\<lparr>commit_load := mo_relaxed\<rparr>) vfill_schedule"
  by code_simp+

lemma varlen_reuse_races:
  "varlen_races (strong_orders\<lparr>read_store := mo_relaxed\<rparr>) vreuse_schedule"
  "varlen_races (strong_orders\<lparr>read_load := mo_relaxed\<rparr>) vreuse_schedule"
  by code_simp+

theorem varlen_happens_before_witness:
  "\<exists>w (r :: varlen_reader) s t c. varlen_ring_open (fresh_segment 64) 40 8 = Some (w, r, s) \<and>
    clocked vapply vlow varlen_event varlen_orders (new_vstate w s 16) t c \<and> writes_next t = [0] \<and>
    loaded_at c 0 = 8 \<and> 8 \<le> wknows c"
proof -
  obtain w and r :: varlen_reader and s where o: "varlen_ring_open (fresh_segment 64) 40 8 = Some (w, r, s)"
    by (rule small_varlen_opens)
  have "map_option (\<lambda>(t, c). (writes_next t, loaded_at c 0)) (varlen_example_run varlen_orders vreuse_schedule) = Some ([0], 8)"
    by code_simp
  then obtain t c where t: "varlen_example_run varlen_orders vreuse_schedule = Some (t, c)" "writes_next t = [0]" "loaded_at c 0 = 8"
    by auto
  then have c: "clocked vapply vlow varlen_event varlen_orders (new_vstate w s 16) t c"
    using clocked_run_clocked [OF _ clocked.start] o by (simp add: varlen_example_run_def)
  from varlen_happens_before [OF o _ _ _ c] t(2,3) have "8 \<le> wknows c" by (simp add: fresh_segment_def ordered_def)
  with o c t(2,3) show ?thesis by blast
qed

definition varlen_race_free :: "orders \<Rightarrow> bool" where
  "varlen_race_free ord \<longleftrightarrow>
     (\<forall>seg0 cap alignment w (r :: varlen_reader) s max_size t c.
        varlen_ring_open seg0 cap alignment = Some (w, r, s) \<and> 8 \<le> alignment \<and>
        unat cap \<le> length (data_bytes seg0) \<and> unat cap + 32 \<le> length (data_bytes seg0) + unat alignment \<and>
        clocked vapply vlow varlen_event ord (new_vstate w s max_size) t c \<longrightarrow>
        ordered (writes_next t) (reads_next t) c)"

lemma varlen_race_free_iff: "varlen_race_free ord \<longleftrightarrow> synchronising ord"
proof
  assume "synchronising ord"
  then show "varlen_race_free ord"
    unfolding varlen_race_free_def using varlen_hb.no_race [OF _ vconc_inv_start] by (auto simp: new_vstate_def)
next
  assume free: "varlen_race_free ord"
  obtain w and r :: varlen_reader and s where o: "varlen_ring_open (fresh_segment 64) 40 8 = Some (w, r, s)"
    by (rule small_varlen_opens)
  have "\<exists>acts t d. clocked_run vapply vlow varlen_event o2 acts (new_vstate w s 16, new_clocks) = Some (t, d) \<and>
      \<not> ordered (writes_next t) (reads_next t) d" if o2: "o2 \<in> set defective_orders" for o2
  proof -
    obtain acts where "varlen_races o2 acts"
      using varlen_fill_races varlen_reuse_races o2 by (auto simp: defective_orders_def)
    then obtain t d where "varlen_example_run o2 acts = Some (t, d)" "\<not> ordered (writes_next t) (reads_next t) d"
      by (auto simp: varlen_races_def split: option.splits)
    then show ?thesis using o by (auto simp: varlen_example_run_def)
  qed
  note R = missing_sync_races [OF this]
  have "(8 :: u32) \<le> 8" "unat (40 :: u64) \<le> length (data_bytes (fresh_segment 64))"
    "unat (40 :: u64) + 32 \<le> length (data_bytes (fresh_segment 64)) + unat (8 :: u32)"
    by (simp_all add: fresh_segment_def)
  with free o R show "synchronising ord" unfolding varlen_race_free_def by metis
qed

text \<open>
  C7: The memory orders are exactly right. For either ring, every execution of every ring is free of
  data races if and only if both positions are stored with at least release and loaded with at least
  acquire: the orders in the code satisfy this, and weakening any one of the four accesses to
  relaxed gives an execution in which two accesses to a byte race.
\<close>

theorem memory_orders_exact:
  "(fixed_race_free ord \<longleftrightarrow> synchronising ord) \<and> (varlen_race_free ord \<longleftrightarrow> synchronising ord) \<and>
    synchronising fixed_orders \<and> synchronising varlen_orders"
  using fixed_race_free_iff varlen_race_free_iff
  by (simp add: synchronising_def fixed_order_defs varlen_order_defs)

end
