(* ===== verification/Wait_Timeouts.thy ===== *)
theory Wait_Timeouts
  imports Atomic_Wait
begin

text \<open>
  The timed waits of all backends: how early a time-out may be reported, when a timed wait
  returns and when it does not. And how far from its deadline the sliced wait of the second
  Darwin tier can end.
\<close>

section \<open>The clock\<close>

lemma to_ms_le_zero_iff: "to_ms x \<le> 0 \<longleftrightarrow> x < ms_ns"
  by (auto simp: to_ms_def ms_ns_def pos_imp_zdiv_nonneg_iff)

lemma now_mono: "(\<And>k. now_at env k \<le> now_at env (k + 1)) \<Longrightarrow> k \<le> l \<Longrightarrow> now_at env k \<le> now_at env l"
  by (rule lift_Suc_mono_le [of "now_at env"]) auto

lemma tick_difference:
  assumes "now_at env i \<le> now_at env k"
  obtains d where "tick_at env k - tick_at env i = word_of_int d" "0 \<le> d"
    "d * ms_ns - ms_ns < now_at env k - now_at env i" "now_at env k - now_at env i < d * ms_ns + ms_ns"
proof
  let ?d = "now_at env k div ms_ns - now_at env i div ms_ns"
  show "tick_at env k - tick_at env i = word_of_int ?d" by (simp add: tick_at_def)
  show "0 \<le> ?d" using assms by (simp add: ms_ns_def zdiv_mono1)
  show "?d * ms_ns - ms_ns < now_at env k - now_at env i" "now_at env k - now_at env i < ?d * ms_ns + ms_ns"
    by (simp_all add: ms_ns_def)
qed

lemma sint_word_of_int: "0 \<le> d \<Longrightarrow> d < 2 ^ 31 \<Longrightarrow> sint (word_of_int d :: u32) = d"
  by (simp add: sint_sbintrunc' signed_take_bit_int_eq_self)

lemma sint_upper: "sint (w :: u32) < 2 ^ 31"
  using sint_less [of w] by simp


section \<open>Reporting a time-out\<close>

lemma portable_expired:
  "portable_wait_for_loop fuel env i old deadline = Some (Inr (False, j)) \<Longrightarrow>
   \<exists>k < j. i \<le> k \<and> deadline \<le> now_at env k"
proof (induction fuel arbitrary: i)
  case (Suc fuel)
  then consider "deadline \<le> now_at env (i + 1)" "j = i + 2"
    | j' where "atomic_poll fuel env (i + 2) old 0 = Some (Inr j')"
        "portable_wait_for_loop fuel env j' old deadline = Some (Inr (False, j))"
    by (auto split: if_splits option.splits sum.splits)
  then show ?case
  proof cases
    case 1
    then show ?thesis by (intro exI [of _ "i + 1"]) auto
  next
    case 2
    then obtain k where "k < j" "j' \<le> k" "deadline \<le> now_at env k" using Suc.IH by blast
    then show ?thesis using atomic_poll_changed [OF 2(1)] by (intro exI [of _ k]) auto
  qed
qed simp

lemma win32_polling_expired:
  "win32_polling_wait_for fuel tuning env i old indefinite t start = Some (False, j) \<Longrightarrow>
   \<exists>k < j. i \<le> k \<and> t \<le> sint (tick_at env k - start)"
proof (induction fuel arbitrary: i)
  case (Suc fuel)
  then consider "t \<le> sint (tick_at env (i + 1) - start)" "j = i + 2"
    | acts j' where "polling_wait fuel tuning env (i + 2) old 0 [] = Some (acts, j')"
        "win32_polling_wait_for fuel tuning env j' old indefinite t start = Some (False, j)"
    by (auto split: if_splits option.splits)
  then show ?case
  proof cases
    case 1
    then show ?thesis by (intro exI [of _ "i + 1"]) auto
  next
    case 2
    then obtain k where "k < j" "j' \<le> k" "t \<le> sint (tick_at env k - start)" using Suc.IH by blast
    then show ?thesis using polling_wait_changed [OF 2(1)] by (intro exI [of _ k]) auto
  qed
qed simp

lemma win32_native_expired:
  "win32_native_wait_for fuel env i old indefinite ms = Some (False, j) \<Longrightarrow>
   \<exists>k < j. i \<le> k \<and> call_at env k (WaitOnAddress old 4 ms) = Some k_timeout"
proof (induction fuel arbitrary: i)
  case (Suc fuel)
  then consider "call_at env (i + 1) (WaitOnAddress old 4 ms) = Some k_timeout" "j = i + 3"
    | "win32_native_wait_for fuel env (i + 2) old indefinite ms = Some (False, j)"
    by (auto split: if_splits option.splits)
  then show ?case
  proof cases
    case 1
    then show ?thesis by (intro exI [of _ "i + 1"]) auto
  next
    case 2
    then show ?thesis using Suc.IH [of "i + 2"] by auto
  qed
qed simp

lemma darwin_os_expired:
  assumes "darwin_os_wait_for fuel env i old deadline = Some (False, j)"
    and "kernel_law env" "\<And>k. now_at env k \<le> now_at env (k + 1)" "deadline - now_at env i < 2 ^ 64"
  shows "deadline \<le> now_at env j"
  using assms(1,4)
proof (induction fuel arbitrary: i)
  case (Suc fuel)
  note mono = now_mono [OF assms(3)]
  let ?r = "deadline - now_at env (i + 1)" and ?c = "os_wait_for old (word_of_int (deadline - now_at env (i + 1)))"
  have old: "val_at env i = old" using Suc.prems(1) by (auto split: if_splits)
  show ?case
  proof (cases "?r \<le> 0")
    case True
    then have "j = i + 2" using Suc.prems(1) old by (simp add: Let_def)
    then show ?thesis using True mono [of "i + 1" j] by simp
  next
    case False
    have "uint (word_of_int ?r :: u64) = ?r"
      unfolding uint_word_of_int_eq
      by (rule take_bit_int_eq_self) (use False Suc.prems(2) mono [of i "i + 1"] in auto)
    then have lim: "call_limit ?c = Some ?r" by (simp only: call_limit_simps)
    obtain r where r: "call_at env (i + 2) ?c = Some r" using kernel_limited [OF assms(2) lim] by blast
    show ?thesis
    proof (cases "r = k_timeout")
      case True
      then have "j = i + 3" using Suc.prems(1) old False r by (simp add: Let_def os_wait_timed_out_def)
      then show ?thesis
        using kernel_timeout [OF assms(2) _ lim] r True mono [of "i + 1" "i + 2"]
        by (fastforce simp: numeral_3_eq_3)
    next
      case no: False
      then have "darwin_os_wait_for fuel env (i + 3) old deadline = Some (False, j)"
        using Suc.prems(1) old False r by (simp add: Let_def os_wait_timed_out_def)
      then show ?thesis using Suc.IH [of "i + 3"] Suc.prems(2) mono [of i "i + 3"] by simp
    qed
  qed
qed simp

lemma darwin_ulock_expired:
  "darwin_ulock_wait_for fuel env i old deadline = Some (False, j) \<Longrightarrow>
   \<exists>k < j. i \<le> k \<and> deadline < now_at env k + ms_ns"
proof (induction fuel env i old deadline rule: darwin_ulock_wait_for.induct)
  case (2 fuel env i old deadline)
  show ?case
  proof (cases "to_ms (deadline - now_at env (i + 1)) \<le> 0")
    case True
    then show ?thesis using "2.prems"
      by (intro exI [of _ "i + 1"]) (auto simp: to_ms_le_zero_iff split: if_splits)
  next
    case False
    then show ?thesis using 2 by (fastforce split: if_splits option.splits)
  qed
qed simp

text \<open>No backend reports a time-out a millisecond or more before the deadline.\<close>

lemma timeout_not_early:
  assumes law: "kernel_law env" and step: "\<And>k. now_at env k \<le> now_at env (k + 1)"
    and t: "0 \<le> t" "t < 2 ^ 31" and r: "atomic_wait_for p fuel env i old t = Some (Inr (False, j))"
  shows "now_at env i + t * ms_ns < now_at env j + ms_ns"
proof (cases p)
  case linux
  let ?c = "futex_wait_call old (Some (futex_timespec t))"
  have "call_at env (i + 1) ?c = Some k_timeout" "j = i + 2"
    using r t linux by (auto simp: atomic_wait_for_def futex_wait_for_def split: if_splits option.splits)
  then show ?thesis using kernel_timeout [OF law, of "i + 1" ?c] step [of i] by (simp add: ms_ns_def)
next
  case (win32 native tuning)
  show ?thesis
  proof (cases native)
    case True
    then have "win32_native_wait_for fuel env i old (t < 0) (win32_wait_ms t) = Some (False, j)"
      using r win32 by (auto simp: atomic_wait_for_def win32_wait_for_def Let_def)
    then obtain k where k: "k < j" "i \<le> k" "call_at env k (WaitOnAddress old 4 (win32_wait_ms t)) = Some k_timeout"
      using win32_native_expired by blast
    then show ?thesis
      using kernel_timeout [OF law k(3) win32_limit [OF t]] now_mono [OF step k(2)]
        now_mono [OF step, of "k + 1" j] by (simp add: ms_ns_def)
  next
    case False
    then have "win32_polling_wait_for fuel tuning env (i + 1) old (t < 0) t (tick_at env i) = Some (False, j)"
      using r win32 by (auto simp: atomic_wait_for_def win32_wait_for_def Let_def)
    then obtain k where k: "k < j" "i + 1 \<le> k" "t \<le> sint (tick_at env k - tick_at env i)"
      using win32_polling_expired by blast
    obtain d where d: "tick_at env k - tick_at env i = word_of_int d" "0 \<le> d"
        "d * ms_ns - ms_ns < now_at env k - now_at env i"
      using tick_difference now_mono [OF step, of i k] k(2) by (metis add_leD1)
    have "t \<le> d" using k(3) d(1,2) t sint_word_of_int [of d] by (cases "d < 2 ^ 31") auto
    then have "t * ms_ns \<le> d * ms_ns" by (simp add: ms_ns_def)
    then show ?thesis using d(3) now_mono [OF step, of k j] k(1) by simp
  qed
next
  case (darwin tier)
  let ?d = "now_at env i + t * ms_ns"
  show ?thesis
  proof (cases "uses_os_sync tier")
    case True
    then have "darwin_os_wait_for fuel env (i + 1) old ?d = Some (False, j)"
      using r t darwin by (auto simp: atomic_wait_for_def darwin_wait_for_def Let_def)
    then show ?thesis
      using darwin_os_expired [OF _ law step] step [of i] t by (fastforce simp: ms_ns_def)
  next
    case False
    then have "darwin_ulock_wait_for fuel env (i + 1) old ?d = Some (False, j)"
      using r t darwin by (auto simp: atomic_wait_for_def darwin_wait_for_def Let_def)
    then obtain k where "k < j" "?d < now_at env k + ms_ns" using darwin_ulock_expired by blast
    then show ?thesis using now_mono [OF step, of k j] by simp
  qed
next
  case portable
  then have "portable_wait_for_loop fuel env (i + 1) old (now_at env i + t * ms_ns) = Some (Inr (False, j))"
    using r t by (simp add: atomic_wait_for_def portable_wait_for_def)
  then obtain k where "k < j" "now_at env i + t * ms_ns \<le> now_at env k" using portable_expired by blast
  then show ?thesis using now_mono [OF step, of k j] by (simp add: ms_ns_def)
qed

lemma timed_wait_sees_change:
  assumes "0 \<le> t" "atomic_wait_for p fuel env i old t = Some (Inr (True, j))" "p \<noteq> linux"
  shows "val_at env (j - 1) \<noteq> old"
proof -
  have "portable_wait_for_loop fuel env i old d = Some (Inr (True, j)) \<Longrightarrow> val_at env (j - 1) \<noteq> old" for i d
    by (induction fuel arbitrary: i) (auto split: if_splits option.splits sum.splits)
  moreover have "win32_polling_wait_for fuel tuning env i old b t s = Some (True, j) \<Longrightarrow> val_at env (j - 1) \<noteq> old"
    for tuning i b s
    by (induction fuel arbitrary: i) (auto split: if_splits option.splits)
  moreover have "win32_native_wait_for fuel env i old b ms = Some (True, j) \<Longrightarrow> val_at env (j - 1) \<noteq> old" for i b ms
    by (induction fuel arbitrary: i) (auto split: if_splits option.splits simp: numeral_3_eq_3)
  moreover have "darwin_os_wait_for fuel env i old d = Some (True, j) \<Longrightarrow> val_at env (j - 1) \<noteq> old" for i d
    by (induction fuel arbitrary: i) (auto simp: Let_def split: if_splits option.splits bool.splits)
  moreover have "darwin_ulock_wait_for fuel env i old d = Some (True, j) \<Longrightarrow> val_at env (j - 1) \<noteq> old" for i d
    by (induction fuel arbitrary: i) (auto split: if_splits option.splits)
  ultimately show ?thesis using assms
    by (cases p) (auto simp: atomic_wait_for_def win32_wait_for_def darwin_wait_for_def portable_wait_for_def
        Let_def split: if_splits)
qed


section \<open>Returning\<close>

text \<open>Every loop returns once the word stays different.\<close>

lemma portable_loop_live:
  "(\<And>k. n \<le> k \<Longrightarrow> val_at env k \<noteq> old) \<Longrightarrow> n - i < fuel \<Longrightarrow> n - i < 2 ^ 32 \<Longrightarrow>
   \<exists>b j. portable_wait_for_loop fuel env i old deadline = Some (Inr (b, j))"
proof (induction fuel arbitrary: i)
  case (Suc fuel)
  show ?case
  proof (cases "val_at env i = old \<and> now_at env (i + 1) < deadline")
    case True
    then have "i < n" using Suc.prems(1) [of i] by (cases "n \<le> i") auto
    then have n: "n - (i + 2) < fuel" "n - (i + 2) < 2 ^ 32" using Suc.prems(2,3) by auto
    obtain j where j: "atomic_poll fuel env (i + 2) old 0 = Some (Inr j)"
      using atomic_poll_live [OF Suc.prems(1) n(1), of 0] n(2) by auto
    moreover have "\<exists>b j'. portable_wait_for_loop fuel env j old deadline = Some (Inr (b, j'))"
      using atomic_poll_changed [OF j] n by (intro Suc.IH Suc.prems(1)) auto
    ultimately show ?thesis using True by auto
  qed auto
qed simp

lemma win32_polling_live:
  "(\<And>k. n \<le> k \<Longrightarrow> val_at env k \<noteq> old) \<Longrightarrow> n - i < fuel \<Longrightarrow>
   \<exists>b j. win32_polling_wait_for fuel tuning env i old indefinite t start = Some (b, j)"
proof (induction fuel arbitrary: i)
  case (Suc fuel)
  show ?case
  proof (cases "val_at env i = old \<and> (indefinite \<or> sint (tick_at env (i + 1) - start) < t)")
    case True
    then have "i < n" using Suc.prems(1) [of i] by (cases "n \<le> i") auto
    then have n: "n - (i + 2) < fuel" using Suc.prems(2) by auto
    obtain acts j where j: "polling_wait fuel tuning env (i + 2) old 0 [] = Some (acts, j)"
      using polling_wait_live [OF Suc.prems(1) n] by blast
    moreover have "\<exists>b j'. win32_polling_wait_for fuel tuning env j old indefinite t start = Some (b, j')"
      using polling_wait_changed [OF j] n by (intro Suc.IH Suc.prems(1)) auto
    ultimately show ?thesis using True by auto
  qed auto
qed simp

text \<open>The other loops return when from some step on either the word is different or the limit reached.\<close>

lemma win32_native_returns:
  assumes "kernel_law env" "call_limit (WaitOnAddress old 4 ms) = Some l"
    and "\<And>k. n \<le> k \<Longrightarrow> val_at env k \<noteq> old \<or> call_at env (k + 1) (WaitOnAddress old 4 ms) = Some k_timeout"
    and "n - i < fuel"
  shows "\<exists>b j. win32_native_wait_for fuel env i old False ms = Some (b, j)"
  using assms(4)
proof (induction fuel arbitrary: i)
  case (Suc fuel)
  obtain r where r: "call_at env (i + 1) (WaitOnAddress old 4 ms) = Some r"
    using kernel_limited [OF assms(1,2)] by blast
  show ?case
  proof (cases "val_at env i = old \<and> r \<noteq> k_timeout")
    case True
    then have "i < n" using assms(3) [of i] r by (cases "n \<le> i") auto
    then show ?thesis using True r Suc.IH [of "i + 2"] Suc.prems by auto
  qed (use r in auto)
qed simp

lemma darwin_os_returns:
  assumes "kernel_law env"
    and "\<And>k. n \<le> k \<Longrightarrow> val_at env k \<noteq> old \<or> deadline \<le> now_at env (k + 1)" "n - i < fuel"
  shows "\<exists>b j. darwin_os_wait_for fuel env i old deadline = Some (b, j)"
  using assms(3)
proof (induction fuel arbitrary: i)
  case (Suc fuel)
  show ?case
  proof (cases "val_at env i = old \<and> now_at env (i + 1) < deadline")
    case True
    then have "i < n" using assms(2) [of i] by (cases "n \<le> i") auto
    then have "\<exists>b j. darwin_os_wait_for fuel env (i + 3) old deadline = Some (b, j)"
      using Suc.prems by (intro Suc.IH) auto
    moreover obtain r where
      "call_at env (i + 2) (os_wait_for old (word_of_int (deadline - now_at env (i + 1)))) = Some r"
      using kernel_limited [OF assms(1) call_limit_simps(4)] by blast
    ultimately show ?thesis using True by (auto simp: Let_def os_wait_timed_out_def split: bool.splits)
  qed (auto simp: Let_def)
qed simp

lemma darwin_ulock_returns:
  assumes "kernel_law env"
    and "\<And>k. n \<le> k \<Longrightarrow> val_at env k \<noteq> old \<or> deadline \<le> now_at env (k + 1)" "n - i < fuel"
  shows "\<exists>b j. darwin_ulock_wait_for fuel env i old deadline = Some (b, j)"
  using assms(3)
proof (induction fuel arbitrary: i)
  case (Suc fuel)
  show ?case
  proof (cases "val_at env i = old \<and> \<not> to_ms (deadline - now_at env (i + 1)) \<le> 0")
    case True
    then have "i < n" using assms(2) [of i] by (cases "n \<le> i") (auto simp: to_ms_le_zero_iff ms_ns_def)
    then have "\<exists>b j. darwin_ulock_wait_for fuel env (i + 3) old deadline = Some (b, j)"
      using Suc.prems by (intro Suc.IH) auto
    moreover obtain r where "call_at env (i + 2) (ulock_wait (u64_of_u32 old) ulock_timeout_us) = Some r"
      using kernel_limited [OF assms(1) call_limit_simps(5)] by blast
    ultimately show ?thesis using True by auto
  qed auto
qed simp

lemma futex_wait_for_returns:
  "kernel_law env \<Longrightarrow> 0 \<le> t \<Longrightarrow> \<exists>b j. futex_wait_for env i old t = Some (b, j)"
  using kernel_limited [OF _ call_limit_simps(2), of env "i + 1" old t] by (auto simp: futex_wait_for_def)

lemma timed_wait_live:
  assumes law: "kernel_law env" and t: "0 \<le> t" "t < 2 ^ 31"
    and ch: "\<And>k. n \<le> k \<Longrightarrow> val_at env k \<noteq> old" and n: "n - i < fuel" "n - i < 2 ^ 32"
  shows "\<exists>b j. atomic_wait_for p fuel env i old t = Some (Inr (b, j))"
proof -
  have n1: "n - (i + 1) < fuel" "n - (i + 1) < 2 ^ 32" using n by auto
  note L = futex_wait_for_returns [OF law t(1), of i old] portable_loop_live [OF ch n1]
    win32_polling_live [OF ch n1(1)] win32_native_returns [OF law win32_limit [OF t] disjI1 [OF ch] n(1)]
    darwin_os_returns [OF law disjI1 [OF ch] n1(1)] darwin_ulock_returns [OF law disjI1 [OF ch] n1(1)]
  show ?thesis
  proof (cases p)
    case linux
    then show ?thesis using L(1) by (auto simp: atomic_wait_for_def)
  next
    case (win32 native tuning)
    then show ?thesis using L(3,4) t
      by (cases native) (fastforce simp: atomic_wait_for_def win32_wait_for_def Let_def)+
  next
    case (darwin tier)
    then show ?thesis using L(5,6) t
      by (cases "uses_os_sync tier") (fastforce simp: atomic_wait_for_def darwin_wait_for_def Let_def)+
  next
    case portable
    then show ?thesis using L(2) t by (auto simp: atomic_wait_for_def portable_wait_for_def)
  qed
qed

lemma timed_wait_expires:
  assumes law: "kernel_law env" and t: "0 \<le> t" "t < 2 ^ 31" and p: "honours_timeout p"
    and late: "\<And>k. n \<le> k \<Longrightarrow> now_at env i + t * ms_ns \<le> now_at env k"
    and sleep: "\<And>k. n \<le> k \<Longrightarrow> call_at env k (WaitOnAddress old 4 (win32_wait_ms t)) = Some k_timeout"
    and n: "n - i < fuel"
  shows "\<exists>b j. atomic_wait_for p fuel env i old t = Some (Inr (b, j))"
proof -
  have n1: "n - (i + 1) < fuel" using n by auto
  have late': "n \<le> k \<Longrightarrow> now_at env i + t * ms_ns \<le> now_at env (k + 1)" for k using late [of "k + 1"] by simp
  have sleep': "n \<le> k \<Longrightarrow> call_at env (k + 1) (WaitOnAddress old 4 (win32_wait_ms t)) = Some k_timeout" for k
    using sleep [of "k + 1"] by simp
  note L = futex_wait_for_returns [OF law t(1), of i old]
    win32_native_returns [OF law win32_limit [OF t] disjI2 [OF sleep'] n]
    darwin_os_returns [OF law disjI2 [OF late'] n1] darwin_ulock_returns [OF law disjI2 [OF late'] n1]
  show ?thesis
  proof (cases p)
    case linux
    then show ?thesis using L(1) by (auto simp: atomic_wait_for_def)
  next
    case (win32 native tuning)
    then show ?thesis using L(2) t p
      by (fastforce simp: honours_timeout_def atomic_wait_for_def win32_wait_for_def Let_def)
  next
    case (darwin tier)
    then show ?thesis using L(3,4) t
      by (cases "uses_os_sync tier") (fastforce simp: atomic_wait_for_def darwin_wait_for_def Let_def)+
  next
    case portable
    then show ?thesis using p by (simp add: honours_timeout_def)
  qed
qed


section \<open>Not returning\<close>

lemma atomic_poll_stuck:
  "(\<And>k. val_at env k = old) \<Longrightarrow> unat it + fuel < 2 ^ 32 \<Longrightarrow> atomic_poll fuel env i old it = None"
proof (induction fuel env i old it rule: atomic_poll.induct)
  case (2 fuel env i old it)
  have it: "unat (it + 1) = unat it + 1" using 2(3) by (simp add: unat_word_ariths)
  then have "it + 1 \<noteq> 0" by auto
  then obtain acts where a: "poll_round (it + 1) = Inr acts" using poll_round_ok by blast
  have "atomic_poll fuel env (i + 1) old (it + 1) = None"
    using 2(1) [OF _ a 2(2)] 2(2,3) it by simp
  with a 2(2) show ?case by simp
qed simp

lemma polling_wait_stuck:
  "(\<And>k. val_at env k = old) \<Longrightarrow> polling_wait fuel tuning env i old it acts = None"
  by (induction fuel tuning env i old it acts rule: polling_wait.induct) auto

text \<open>The polling fallbacks look at the clock once, before they poll for a change without a limit.\<close>

lemma timed_polling_stuck:
  assumes "\<And>k. val_at env k = old" "0 \<le> t" "t < 2 ^ 31" "\<not> honours_timeout p" "fuel < 2 ^ 32"
    and "now_at env i \<le> now_at env (i + 2)" "now_at env (i + 2) + ms_ns \<le> now_at env i + t * ms_ns"
  shows "atomic_wait_for p fuel env i old t = None"
proof (cases fuel)
  case 0
  then show ?thesis using assms(2,4)
    by (cases p) (auto simp: honours_timeout_def atomic_wait_for_def portable_wait_for_def win32_wait_for_def)
next
  case (Suc f)
  have a: "atomic_poll f env (i + 3) old 0 = None"
    using Suc assms(1,5) by (intro atomic_poll_stuck) auto
  have b: "polling_wait f tuning env (i + 3) old 0 [] = None" for tuning
    using assms(1) by (rule polling_wait_stuck)
  have c: "now_at env (i + 2) < now_at env i + t * ms_ns" using assms(7) by (simp add: ms_ns_def)
  obtain d where d: "tick_at env (i + 2) - tick_at env i = word_of_int d" "0 \<le> d"
      "d * ms_ns - ms_ns < now_at env (i + 2) - now_at env i"
    using tick_difference assms(6) by metis
  then have "d < t" using assms(7) by (simp add: ms_ns_def)
  then have e: "sint (tick_at env (i + 2) - tick_at env i) < t"
    using d(1,2) assms(3) sint_word_of_int [of d] by simp
  show ?thesis using assms(1,2,4) Suc a b c e
    by (cases p) (auto simp: honours_timeout_def atomic_wait_for_def portable_wait_for_def win32_wait_for_def
        Let_def numeral_3_eq_3)
qed


text \<open>A clock that runs five milliseconds per step, and sleeps that last as long.\<close>

definition sleeping :: wenv where
  "sleeping = \<lparr>val_at = (\<lambda>_. 7), now_at = (\<lambda>k. int k * 5000000),
     call_at = (\<lambda>_ c. Some (if c = WaitOnAddress 7 4 (win32_wait_ms 5) then k_timeout else k_woken))\<rparr>"

lemma sleeping_law: "kernel_law sleeping"
  by (simp add: kernel_law_def sleeping_def win32_limit [of 5, simplified] ms_ns_def)



section \<open>How precisely a sliced wait ends\<close>

lemma ulock_window:
  assumes "darwin_ulock_wait_for fuel env i old deadline = Some (False, j)"
    and "\<And>k. now_at env (k + 3) \<le> now_at env k + s" "now_at env (i + 1) \<le> deadline + s"
  shows "deadline - ms_ns < now_at env (j - 1) \<and> now_at env (j - 1) \<le> deadline + s"
  using assms(1,3)
proof (induction fuel arbitrary: i)
  case (Suc fuel)
  show ?case
  proof (cases "to_ms (deadline - now_at env (i + 1)) \<le> 0")
    case True
    then show ?thesis using Suc.prems by (auto simp: to_ms_le_zero_iff split: if_splits)
  next
    case False
    then have "darwin_ulock_wait_for fuel env (i + 3) old deadline = Some (False, j)"
      using Suc.prems(1) by (auto split: if_splits option.splits)
    moreover have "now_at env (i + 3 + 1) \<le> deadline + s"
      using False assms(2) [of "i + 1"] by (simp add: to_ms_le_zero_iff ms_ns_def add.commute add.left_commute)
    ultimately show ?thesis using Suc.IH by blast
  qed
qed simp

text \<open>
  When the second Darwin tier reports a timeout, the clock is later than one millisecond
  before the deadline (the remaining time is truncated to milliseconds, so it can be early by
  less than one) and at most one round late: if three consecutive steps of the loop take at most
  \<open>s\<close>, a 50 ms slice and its overhead, it is at most \<open>s\<close> past the deadline.
\<close>

theorem darwin_timeout_window:
  assumes "\<not> uses_os_sync tier" "0 \<le> timeout_ms"
    and "\<And>k d. d \<le> 3 \<Longrightarrow> now_at env (k + d) \<le> now_at env k + s"
    and "darwin_wait_for tier fuel env i old timeout_ms = Some (False, j)"
  shows "now_at env i + timeout_ms * ms_ns - ms_ns < now_at env (j - 1) \<and>
    now_at env (j - 1) \<le> now_at env i + timeout_ms * ms_ns + s"
proof (rule ulock_window)
  show "darwin_ulock_wait_for fuel env (i + 1) old (now_at env i + timeout_ms * ms_ns) = Some (False, j)"
    using assms(1,2,4) by (simp add: darwin_wait_for_def Let_def)
  show "now_at env (k + 3) \<le> now_at env k + s" for k using assms(3) [of 3 k] by simp
  have "0 \<le> timeout_ms * ms_ns" using assms(2) by (simp add: ms_ns_def)
  then show "now_at env (i + 1 + 1) \<le> now_at env i + timeout_ms * ms_ns + s"
    using assms(3) [of 2 i] by simp
qed

definition ticking :: wenv where
  "ticking = \<lparr>val_at = (\<lambda>_. 7), now_at = (\<lambda>k. int k * 20000000), call_at = (\<lambda>_ _. Some k_interrupted)\<rparr>"

theorem darwin_timeout_window_witness:
  "darwin_wait_for tier2 10 ticking 0 7 100 = Some (False, 6) \<and>
   now_at ticking 5 \<le> 100 * ms_ns + 60 * ms_ns"
proof -
  have r: "darwin_wait_for tier2 10 ticking 0 7 100 = Some (False, 6)" by code_simp
  have "now_at ticking (k + d) \<le> now_at ticking k + 60 * ms_ns" if "d \<le> 3" for k d :: nat
    using that by (simp add: ticking_def ms_ns_def)
  from darwin_timeout_window [OF _ _ this r] show ?thesis using r by (simp add: ticking_def)
qed


section \<open>Timeouts that start again\<close>

lemma win32_native_wait_for_stuck:
  "(\<And>k. val_at env k = old) \<Longrightarrow> (\<And>k c. call_at env k c \<noteq> Some k_timeout) \<Longrightarrow>
   win32_native_wait_for fuel env i old indefinite ms = None"
  by (induction fuel env i old indefinite ms rule: win32_native_wait_for.induct) (auto split: option.splits)

text \<open>
  Every round of the native timed wait passes the whole timeout to \<open>WaitOnAddress\<close> again and never
  looks at a clock: as long as its calls return early and the word is unchanged it goes on, far
  beyond its deadline.
\<close>

theorem win32_timed_wait_restarts:
  assumes "\<And>k. val_at env k = old" "\<And>k c. call_at env k c \<noteq> Some k_timeout"
  shows "atomic_wait_for (win32 True tuning) fuel env i old timeout_ms = None"
  using win32_native_wait_for_stuck [OF assms] by (simp add: atomic_wait_for_def win32_wait_for_def)

end
