(* ===== verification/Basic_Usage.thy ===== *)
theory Basic_Usage
  imports Fixed_Properties Varlen_Properties
begin

text \<open>
  \<open>examples/basic_usage.cpp\<close>: one message through a fixed and through a variable-length ring, both
  in one thread. What a demo prints is its result.
\<close>

datatype 'a demo_result = invalid_geometry | ring_full | no_message | received 'a

text \<open>The bytes of a string literal with its terminator, and what \<open>c_str\<close> shows of a buffer.\<close>

definition literal :: "string \<Rightarrow> u8 list" where
  "literal str = map (\<lambda>c. word_of_nat (of_char c)) str @ [0]"

definition c_str :: "u8 list \<Rightarrow> u8 list" where
  "c_str bs = takeWhile (\<lambda>b. b \<noteq> 0) bs"

definition kItemSize :: u32 where "kItemSize = 64"
definition kItemCount :: u32 where "kItemCount = 8"

definition fixed_ring_demo :: "u8 list \<Rightarrow> u8 list demo_result res" where
  "fixed_ring_demo sent =
     res_bind (fixed_ring_open (fresh_segment (unat (kItemSize * kItemCount)))
         (u64_of_u32 (kItemSize * kItemCount)) 64 kItemSize) (\<lambda>opened.
       case opened of
         None \<Rightarrow> Inr invalid_geometry
       | Some (writer, reader, s) \<Rightarrow>
           res_bind (fixed_write writer s sent kItemSize) (\<lambda>(ok, writer, s).
             if \<not> ok then Inr ring_full
             else
               res_bind (fixed_try_read reader s) (\<lambda>slot.
                 case slot of
                   None \<Rightarrow> Inr no_message
                 | Some (p, sz) \<Rightarrow>
                     res_bind (load_bytes s p (unat sz)) (\<lambda>bytes.
                       let s = fixed_read_advance s 1 in Inr (received (c_str bytes))))))"

definition kCapacity :: u32 where "kCapacity = 512"

definition varlen_ring_demo :: "u8 list \<Rightarrow> (u8 list \<times> u64) demo_result res" where
  "varlen_ring_demo sent =
     (case varlen_ring_open (fresh_segment (unat kCapacity)) (u64_of_u32 kCapacity) 8 of
        None \<Rightarrow> Inr invalid_geometry
      | Some (writer, reader, s) \<Rightarrow>
          (case varlen_write writer s (word_of_nat (length sent)) (Some sent) (default_meta\<lparr>user_data := 1\<rparr>) of
             None \<Rightarrow> Inl diverged
           | Some result \<Rightarrow>
               res_bind result (\<lambda>(ok, writer, s).
                 if \<not> ok then Inr ring_full
                 else
                   res_bind (varlen_read_copy reader s 128
                       \<lparr>out_buf = Some (replicate 128 0), out_size = Some 0, out_meta = Some default_meta\<rparr>)
                     (\<lambda>(ok, out, s).
                       if \<not> ok then Inr no_message
                       else Inr (received (take (unat (the (out_size out))) (the (out_buf out)),
                                           user_data (the (out_meta out))))))))"

lemma demo_ring_opens:
  obtains w and r :: fixed_reader and s
  where "fixed_ring_open (fresh_segment (unat (kItemSize * kItemCount)))
      (u64_of_u32 (kItemSize * kItemCount)) 64 kItemSize = Inr (Some (w, r, s))"
    and "fixed_inv 1 w s" "\<not> pending w" "data_ptr r = sizeof_control_block"
    and "wpos s = 0" "rpos s = 0" "capacity_of s = 512" "item_of s = 64" "fixed_item_size (hdr s) = 64"
proof -
  let ?o = "fixed_ring_open (fresh_segment (unat (kItemSize * kItemCount)))
      (u64_of_u32 (kItemSize * kItemCount)) 64 kItemSize"
  have "is_valid_data_alignment 64" "(512 :: u64) mod u64_of_u32 64 = 0" "u64_of_u32 512 = 512"
    by (simp_all add: is_valid_data_alignment_def u64_of_u32_def)
  then obtain w r s where o: "?o = Inr (Some (w, r, s))"
    by (auto simp: fixed_ring_open_cases kItemSize_def kItemCount_def Let_def)
  have sz: "unat (u64_of_u32 (kItemSize * kItemCount)) = 512" "unat kItemSize = 64" "kItemSize \<noteq> 0"
    "unat (kItemSize * kItemCount) = 512"
    by (simp_all add: kItemSize_def kItemCount_def)
  obtain w' r' s' where D: "(w, r, s) = (w', r', s')" "\<not> pending w'" "data_ptr r' = sizeof_control_block"
    "rpos s' = 0" "wpos s' = 0" "capacity_of s' = 512" "item_of s' = 64"
    using fixed_ring_openD [OF o sz(3)] sz by metis
  have "fixed_chan_inv 64 8 1 (w, r, s)"
    using fixed_ring_open_inv(1) [OF o sz(3), of 1] sz by (simp add: fresh_segment_def)
  then have "fixed_inv 1 w s" by (simp add: fixed_chan_inv_def)
  moreover have "fixed_item_size (hdr s) = 64" using D by (simp add: word_unat_eq_iff)
  ultimately show thesis using that [OF o] D by simp
qed

text \<open>
  C36: The demos of \<open>basic_usage.cpp\<close>. The fixed-ring demo writes 64 bytes from its source: from a
  source of at least 64 bytes it prints the text up to the first zero byte, a shorter source it
  reads past its end, and the literal it ships with is 26 bytes long. The variable-length demo
  delivers its text and its user data.
\<close>

theorem basic_usage_outcomes:
  "fixed_ring_demo sent =
     (if length sent < 64 then Inl out_of_bounds else Inr (received (c_str (take 64 sent)))) \<and>
   fixed_ring_demo (literal ''hello from the fixed ring'') = Inl out_of_bounds \<and>
   varlen_ring_demo (butlast (literal ''hello from the varlen ring'')) =
     Inr (received (butlast (literal ''hello from the varlen ring''), 1))"
proof (intro conjI)
  obtain w and r :: fixed_reader and s where o: "fixed_ring_open (fresh_segment (unat (kItemSize * kItemCount)))
      (u64_of_u32 (kItemSize * kItemCount)) 64 kItemSize = Inr (Some (w, r, s))"
    and D: "fixed_inv 1 w s" "\<not> pending w" "data_ptr r = sizeof_control_block"
      "wpos s = 0" "rpos s = 0" "capacity_of s = 512" "item_of s = 64" "fixed_item_size (hdr s) = 64"
    by (rule demo_ring_opens)
  have sz: "unat kItemSize = 64" "0 < kItemSize" by (simp_all add: kItemSize_def)
  show "fixed_ring_demo sent =
     (if length sent < 64 then Inl out_of_bounds else Inr (received (c_str (take 64 sent))))"
  proof (cases "length sent < 64")
    case True
    moreover have "data_capacity (hdr s) \<noteq> 0" using D(6) by auto
    ultimately show ?thesis
      using D(2,4,5)
      by (simp add: fixed_ring_demo_def o fixed_write_def fixed_try_reserve_def memcpy_in_short_source
          mod_u64_def Let_def sz)
  next
    case False
    let ?s = "written_segment w s (take 64 sent)"
    have ne: "unat (wpos s) \<noteq> unat (rpos s) + capacity_of s" using D by simp
    have W: "fixed_write w s sent kItemSize = Inr (True, (reserved_writer w s)\<lparr>pending := False\<rparr>, ?s)"
      using fixed_write_eq [of 0 w s kItemSize sent] D(1,2,7) ne False sz by simp
    have K: "fixed_inv 0 ((reserved_writer w s)\<lparr>pending := False\<rparr>) ?s"
      "fixed_contents ?s = fixed_contents s @ [take 64 sent @ drop (length (take 64 sent))
        (mem_read (data_bytes s) (unat (wpos s) mod capacity_of s) (item_of s))]"
      using written_keeps [of 0 w s "take 64 sent"] D(1,2,7) ne by simp_all
    have "fixed_contents s = []"
      using fixed_invD(7) [OF D(1)] D(2,4,5) by (simp add: fixed_contents_def)
    then have C: "fixed_contents ?s = [take 64 sent]"
      using K(2) False D(7) by (simp add: mem_read_def)
    have T: "fixed_try_read r ?s = Inr (Some
        (sizeof_control_block + unat (rpos ?s) mod capacity_of ?s, fixed_item_size (hdr ?s)))"
      using fixed_try_read_ready [OF K(1) _ D(3)] C by simp
    have L: "load_bytes ?s (sizeof_control_block + unat (rpos ?s) mod capacity_of ?s) 64 =
        Inr (take 64 sent)"
      using fixed_view_load [OF K(1)] C D(7) by simp
    show ?thesis
      using False T L D(7) by (simp add: fixed_ring_demo_def o W Let_def)
  qed
qed (code_simp, code_simp)

end
