(* ===== verification/Blocking.thy ===== *)
theory Blocking
  imports Notify_Protocol
begin

text \<open>
  Two threads that share a ring and block on its notify words: the consumer on \<open>commit_seq\<close>, the
  producer on \<open>read_wake_seq\<close> (\<open>wait_on_notify_word\<close> of \<open>include/spscring/notify_word.hpp\<close>, called
  between two calls of the ring). The ring is a parameter: what a waiting thread observes of it, and
  the steps of its two threads. The predicate of a wait loads the front the other thread moves
  with an acquire load, so it may see an older value; only the atomic update of the notify word
  makes sure that everything stored before the last bump is seen.
\<close>

section \<open>What a waiting thread observes\<close>

datatype role = consumer | producer

fun other :: "role \<Rightarrow> role" where
  "other consumer = producer"
| "other producer = consumer"

lemma other_other [simp]: "other (other r) = r"
  by (cases r) simp_all

lemma other_neq [simp]: "other r \<noteq> r" "r \<noteq> other r"
  by (cases r; simp)+

lemma role_cases: "q = r \<or> q = other r"
  by (cases q; cases r) simp_all

text \<open>
  For the thread that waits: the position the other thread publishes, the notify word, every value
  the position has held, the newest one this thread has loaded, whether the other thread has
  stored the position and not yet bumped the word, and for which positions the wait is over.
\<close>

record view =
  front :: u64
  seq :: u32
  hist :: "u64 list"
  seen :: u64
  storing :: bool
  enough :: "u64 \<Rightarrow> bool"

definition wf_view :: "view \<Rightarrow> bool" where
  "wf_view v \<longleftrightarrow>
     front v \<in> set (hist v) \<and> list_all (\<lambda>c. c \<le> front v) (hist v) \<and> seen v \<le> front v"

text \<open>What a step of the other thread does to the view: nothing, a store, or a bump.\<close>

inductive notifies :: "view \<Rightarrow> view \<Rightarrow> bool" where
  same: "notifies v v"
| store: "\<not> storing v \<Longrightarrow> front v \<le> c \<Longrightarrow>
    notifies v (v\<lparr>front := c, hist := hist v @ [c], storing := True\<rparr>)"
| bump: "storing v \<Longrightarrow> notifies v (v\<lparr>seq := seq v + 1, storing := False\<rparr>)"

inductive_cases notifiesE: "notifies v w"

lemma notifiesI:
  "w = v \<Longrightarrow> notifies v w"
  "\<not> storing v \<Longrightarrow> front v \<le> front w \<Longrightarrow>
   w = v\<lparr>front := front w, hist := hist v @ [front w], storing := True\<rparr> \<Longrightarrow> notifies v w"
  "storing v \<Longrightarrow> w = v\<lparr>seq := seq v + 1, storing := False\<rparr> \<Longrightarrow> notifies v w"
  using notifies.intros by metis+

lemma notifies_hist: "notifies v w \<Longrightarrow> front v \<in> set (hist v) \<Longrightarrow> front w \<in> set (hist w)"
  by (auto elim: notifiesE)

record 's side =
  observe :: "'s \<Rightarrow> view"
  set_seq :: "u32 \<Rightarrow> 's \<Rightarrow> 's"
  set_seen :: "u64 \<Rightarrow> 's \<Rightarrow> 's"


section \<open>A thread that can wait\<close>

text \<open>
  The wait in progress, if any; the result of the last one; whether the other thread has seen the
  waiter flag and is about to issue the wake; and the front at the last bump, which the next
  update of the word acquires.
\<close>

record port =
  pwaiter :: "waiter option"
  presult :: "bool option"
  pwaking :: bool
  psynced :: u64

definition blocked :: "port \<Rightarrow> bool" where
  "blocked p = (case pwaiter p of None \<Rightarrow> False
     | Some x \<Rightarrow> (case wpc x of w_blocked _ \<Rightarrow> True | _ \<Rightarrow> False))"

definition advance_wait :: "waiter \<Rightarrow> port \<Rightarrow> port" where
  "advance_wait y p =
     (case wpc y of
        w_done result \<Rightarrow> p\<lparr>pwaiter := None, presult := Some result\<rparr>
      | _ \<Rightarrow> p\<lparr>pwaiter := Some y\<rparr>)"

text \<open>The newest front this thread has seen after a step of its wait that loaded \<open>c\<close>.\<close>

definition seen_after :: "waiter \<Rightarrow> u64 \<Rightarrow> u64 \<Rightarrow> u64 \<Rightarrow> u64" where
  "seen_after x synced old c =
     (case wpc x of
        w_mark \<Rightarrow> max old synced
      | w_check1 \<Rightarrow> if wkind x = until_published then c else old
      | w_check2 _ \<Rightarrow> if wkind x = until_published then c else old
      | _ \<Rightarrow> old)"

definition port_wait :: "'s side \<Rightarrow> bool \<Rightarrow> u64 \<Rightarrow> port \<Rightarrow> 's \<Rightarrow> (port \<times> 's) option" where
  "port_wait S expired c p s =
     (let v = observe S s
      in case pwaiter p of
           None \<Rightarrow> None
         | Some x \<Rightarrow>
             if c \<in> set (hist v) \<and> seen v \<le> c
             then (case waiter_step expired (enough v c) (seq v) x of
                     None \<Rightarrow> None
                   | Some (y, wd) \<Rightarrow>
                       Some (advance_wait y p,
                             set_seen S (seen_after x (psynced p) (seen v) c) (set_seq S wd s)))
             else None)"

definition port_start :: "wpred \<Rightarrow> int \<Rightarrow> port \<Rightarrow> port" where
  "port_start k timeout_ms p = p\<lparr>pwaiter := Some (start_wait_for k timeout_ms)\<rparr>"

definition port_release :: "port \<Rightarrow> port" where
  "port_release p = p\<lparr>pwaiter := map_option release (pwaiter p)\<rparr>"

text \<open>The effect of a step of the other thread: only a bump concerns the wait.\<close>

definition port_bump :: "view \<Rightarrow> view \<Rightarrow> port \<Rightarrow> port" where
  "port_bump v w p =
     (if seq w = seq v then p
      else p\<lparr>pwaiter := map_option (\<lambda>x. x\<lparr>age := age x + 1\<rparr>) (pwaiter p),
             pwaking := fst (bump_notify_word (seq v)), psynced := front w\<rparr>)"


section \<open>The system\<close>

record ('s, 'a) shared_ring =
  side :: "role \<Rightarrow> 's side"
  thread_act :: "role \<Rightarrow> 'a \<Rightarrow> 's \<Rightarrow> 's option"
  between_calls :: "role \<Rightarrow> 's \<Rightarrow> bool"

record 's duplex =
  ring :: 's
  ports :: "role \<Rightarrow> port"

text \<open>A thread runs its ring code when it neither waits nor is about to issue a wake.\<close>

definition running :: "'s duplex \<Rightarrow> role \<Rightarrow> bool" where
  "running d r \<longleftrightarrow> pwaiter (ports d r) = None \<and> \<not> pwaking (ports d (other r))"

datatype 'a daction =
    ring_act role 'a
  | begin_wait role wpred int
  | wait_act role bool u64
  | spurious role
  | deliver_wake role

definition view_of :: "('s, 'a) shared_ring \<Rightarrow> role \<Rightarrow> 's duplex \<Rightarrow> view" where
  "view_of R r d = observe (side R r) (ring d)"

fun dapply :: "('s, 'a) shared_ring \<Rightarrow> 'a daction \<Rightarrow> 's duplex \<Rightarrow> 's duplex option" where
  "dapply R (ring_act r a) d =
     (if running d r then
        (case thread_act R r a (ring d) of
           None \<Rightarrow> None
         | Some t \<Rightarrow>
             Some (d\<lparr>ring := t, ports := (ports d)(other r :=
               port_bump (observe (side R (other r)) (ring d)) (observe (side R (other r)) t)
                 (ports d (other r)))\<rparr>))
      else None)"
| "dapply R (begin_wait r k timeout_ms) d =
     (if running d r \<and> between_calls R r (ring d)
      then Some (d\<lparr>ports := (ports d)(r := port_start k timeout_ms (ports d r))\<rparr>) else None)"
| "dapply R (wait_act r expired c) d =
     (case port_wait (side R r) expired c (ports d r) (ring d) of
        None \<Rightarrow> None
      | Some (p, s) \<Rightarrow> Some (d\<lparr>ring := s, ports := (ports d)(r := p)\<rparr>))"
| "dapply R (spurious r) d = Some (d\<lparr>ports := (ports d)(r := port_release (ports d r))\<rparr>)"
| "dapply R (deliver_wake r) d =
     (if pwaking (ports d r)
      then Some (d\<lparr>ports := (ports d)(r := port_release (ports d r\<lparr>pwaking := False\<rparr>))\<rparr>) else None)"

definition ages_below :: "nat \<Rightarrow> 's duplex \<Rightarrow> bool" where
  "ages_below n d \<longleftrightarrow> (\<forall>r. case pwaiter (ports d r) of None \<Rightarrow> True | Some x \<Rightarrow> age x < n)"

abbreviation young :: "'s duplex \<Rightarrow> bool" where
  "young d \<equiv> ages_below (2 ^ 31) d"

text \<open>
  Reachable states, as long as no wait in progress has been overtaken by \<open>2 ^ 31\<close> bumps of its
  word (the sequence would have come round).
\<close>

inductive dreach :: "('s, 'a) shared_ring \<Rightarrow> 's duplex \<Rightarrow> 's duplex \<Rightarrow> bool" for R d0 where
  start: "dreach R d0 d0"
| step: "dreach R d0 d \<Longrightarrow> dapply R a d = Some e \<Longrightarrow> young e \<Longrightarrow> dreach R d0 e"

definition new_port :: "view \<Rightarrow> port" where
  "new_port v = \<lparr>pwaiter = None, presult = None, pwaking = False, psynced = front v\<rparr>"

definition new_duplex :: "('s, 'a) shared_ring \<Rightarrow> 's \<Rightarrow> 's duplex" where
  "new_duplex R s = \<lparr>ring = s, ports = (\<lambda>r. new_port (observe (side R r) s))\<rparr>"

text \<open>A schedule of the whole system.\<close>

fun drun :: "('s, 'a) shared_ring \<Rightarrow> 'a daction list \<Rightarrow> 's duplex \<Rightarrow> 's duplex option" where
  "drun R [] d = Some d"
| "drun R (a # as) d = (case dapply R a d of None \<Rightarrow> None | Some e \<Rightarrow> drun R as e)"

lemma waiter_step_age: "waiter_step expired b wd x = Some (y, wd') \<Longrightarrow> age y \<le> age x"
  by (auto simp: waiter_step_def split: wpc.splits)

lemma ages_below_mono: "ages_below n d \<Longrightarrow> n \<le> m \<Longrightarrow> ages_below m d"
  by (fastforce simp: ages_below_def split: option.splits)

lemma dapply_age:
  assumes "dapply R a d = Some e" "ages_below n d"
  shows "ages_below (Suc n) e"
proof -
  have old: "case pwaiter (ports d r) of None \<Rightarrow> True | Some x \<Rightarrow> age x < n" for r
    using assms(2) by (simp add: ages_below_def)
  have older: "case pwaiter (ports d r) of None \<Rightarrow> True | Some x \<Rightarrow> age x < Suc n" for r
    using ages_below_mono [OF assms(2), of "Suc n"] by (simp add: ages_below_def)
  have "case pwaiter (ports e r) of None \<Rightarrow> True | Some x \<Rightarrow> age x < Suc n" for r
    using assms(1) old [of r] older [of r]
    by (cases a) (auto simp: port_bump_def port_start_def port_release_def release_def port_wait_def
        advance_wait_def Let_def dest!: waiter_step_age
        split: option.splits if_splits wpc.splits)
  then show ?thesis by (simp add: ages_below_def)
qed

lemma drun_dreach:
  "drun R as d = Some e \<Longrightarrow> dreach R d0 d \<Longrightarrow> ages_below n d \<Longrightarrow> n + length as \<le> 2 ^ 31 \<Longrightarrow> dreach R d0 e"
proof (induction as arbitrary: d n)
  case (Cons a as)
  then obtain u where u: "dapply R a d = Some u" "drun R as u = Some e" by (auto split: option.splits)
  have A: "ages_below (Suc n) u" by (rule dapply_age [OF u(1) Cons.prems(3)])
  then have "young u" by (rule ages_below_mono) (use Cons.prems(4) in simp)
  with Cons.prems(2) u(1) have "dreach R d0 u" by (rule dreach.step)
  from Cons.IH [OF u(2) this A] Cons.prems(4) show ?case by simp
qed simp

text \<open>A run of one thread's wait alone, with the outcomes of the clock and the values loaded.\<close>

fun wait_run :: "('s, 'a) shared_ring \<Rightarrow> role \<Rightarrow> (bool \<times> u64) list \<Rightarrow> 's duplex \<Rightarrow> 's duplex option" where
  "wait_run R r [] d = Some d"
| "wait_run R r ((expired, c) # cs) d =
     (if pwaiter (ports d r) = None then Some d
      else case dapply R (wait_act r expired c) d of None \<Rightarrow> None | Some e \<Rightarrow> wait_run R r cs e)"


text \<open>An untimed wait for the other side's progress that has gone to sleep.\<close>

definition asleep :: waiter where
  "asleep = \<lparr>wkind = until_published, timed = False, wpc = w_blocked notify_waiter_bit,
     registered_by_us = True, age = 0\<rparr>"


section \<open>The invariant of a wait\<close>

definition wait_inv :: "view \<Rightarrow> port \<Rightarrow> waiter \<Rightarrow> bool" where
  "wait_inv v p x =
     (let ahead = (waiting (wkind x) (enough v (front v)) (seq v) \<or> storing v)
      in case wpc x of
           w_check2 m \<Rightarrow> seq v = set_waiter m + word_of_nat (age x) \<and> (age x = 0 \<longrightarrow> psynced p \<le> seen v)
         | w_deadline m \<Rightarrow> timed x \<and> seq v = set_waiter m + word_of_nat (age x) \<and> (age x = 0 \<longrightarrow> ahead)
         | w_wait m \<Rightarrow> seq v = set_waiter m + word_of_nat (age x) \<and> (age x = 0 \<longrightarrow> ahead)
         | w_blocked m \<Rightarrow> has_waiter m \<and> (pwaking p \<or> seq v = m \<and> ahead)
         | w_exit result \<Rightarrow> result \<or> timed x
         | w_done result \<Rightarrow> False
         | _ \<Rightarrow> True)"

definition port_inv :: "view \<Rightarrow> port \<Rightarrow> bool" where
  "port_inv v p \<longleftrightarrow>
     psynced p \<in> set (hist v) \<and> (\<not> storing v \<longrightarrow> psynced p = front v) \<and>
     (case pwaiter p of None \<Rightarrow> True | Some x \<Rightarrow> wait_inv v p x)"

lemma wait_inv_pwaiter [simp]: "wait_inv v (p\<lparr>pwaiter := y\<rparr>) x = wait_inv v p x"
  by (simp add: wait_inv_def cong: wpc.case_cong)

lemma advance_wait_frame [simp]:
  "psynced (advance_wait y p) = psynced p" "pwaking (advance_wait y p) = pwaking p"
  by (simp_all add: advance_wait_def split: wpc.splits)

lemma port_invD:
  assumes "port_inv v p"
  shows "psynced p \<in> set (hist v)" "\<not> storing v \<Longrightarrow> psynced p = front v"
    and "pwaiter p = Some x \<Longrightarrow> wait_inv v p x"
  using assms by (auto simp: port_inv_def)

lemma wf_viewD:
  assumes "wf_view v"
  shows "front v \<in> set (hist v)" "c \<in> set (hist v) \<Longrightarrow> c \<le> front v" "seen v \<le> front v"
  using assms by (auto simp: wf_view_def list_all_iff)

text \<open>A load after the registration sees everything up to the last bump.\<close>

lemma fresh_load:
  assumes "wf_view v" "port_inv v p" "psynced p \<le> seen v" "c \<in> set (hist v)" "seen v \<le> c"
  shows "storing v \<or> c = front v"
  using wf_viewD [OF assms(1)] port_invD [OF assms(2)] assms(3-5) by (metis order.antisym order.trans)

lemma wait_inv_step:
  assumes v: "wf_view v" "port_inv v p" and x: "pwaiter p = Some x" "age x < 2 ^ 31"
    and c: "c \<in> set (hist v)" "seen v \<le> c"
    and st: "waiter_step expired (enough v c) (seq v) x = Some (y, wd)"
    and y: "\<forall>b. wpc y \<noteq> w_done b"
  shows "wait_inv (v\<lparr>seq := wd, seen := seen_after x (psynced p) (seen v) c\<rparr>) p y"
proof (cases "wpc x")
  case (w_check2 m)
  have i: "seq v = set_waiter m + word_of_nat (age x)" "age x = 0 \<longrightarrow> psynced p \<le> seen v"
    using port_invD(3) [OF v(2) x(1)] w_check2 by (simp_all add: wait_inv_def)
  then have "age x = 0 \<longrightarrow> storing v \<or> c = front v" using fresh_load [OF v _ c] by blast
  then show ?thesis
    using st w_check2 i by (auto simp: waiter_step_def wait_inv_def split: if_splits)
next
  case (w_wait m)
  have i: "seq v = set_waiter m + word_of_nat (age x)"
    "age x = 0 \<longrightarrow> waiting (wkind x) (enough v (front v)) (seq v) \<or> storing v"
    using port_invD(3) [OF v(2) x(1)] w_wait by (auto simp: wait_inv_def)
  then show ?thesis
    using st w_wait expected_word_unbumped [of m "age x"] x(2)
    by (auto simp: waiter_step_def wait_inv_def split: if_splits)
next
  case (w_deadline m)
  then show ?thesis
    using port_invD(3) [OF v(2) x(1)] st
    by (auto simp: waiter_step_def wait_inv_def split: if_splits)
qed (use st y in \<open>auto simp: waiter_step_def wait_inv_def seen_after_def\<close>)

lemma port_inv_wait:
  assumes v: "wf_view v" "port_inv v p" and x: "pwaiter p = Some x" "age x < 2 ^ 31"
    and c: "c \<in> set (hist v)" "seen v \<le> c"
    and st: "waiter_step expired (enough v c) (seq v) x = Some (y, wd)"
  shows "port_inv (v\<lparr>seq := wd, seen := seen_after x (psynced p) (seen v) c\<rparr>)
    (advance_wait y p)"
  using port_invD(1,2) [OF v(2)] wait_inv_step [OF assms]
  by (cases "wpc y") (auto simp: port_inv_def advance_wait_def)

lemma wait_inv_release:
  "wait_inv v p x \<Longrightarrow> wait_inv v (p\<lparr>pwaking := b\<rparr>) (release x)"
  by (cases "wpc x") (auto simp: wait_inv_def release_def)

lemma port_inv_release:
  "port_inv v p \<Longrightarrow> port_inv v (port_release p)"
  "port_inv v p \<Longrightarrow> port_inv v (port_release (p\<lparr>pwaking := False\<rparr>))"
  using wait_inv_release [of v p _ "pwaking p"] wait_inv_release [of v p _ False]
  by (auto simp: port_inv_def port_release_def split: option.splits)

lemma port_inv_start: "port_inv v p \<Longrightarrow> port_inv v (port_start k ms p)"
  by (simp add: port_inv_def port_start_def wait_inv_def)

text \<open>What the other thread does keeps the invariant of the wait.\<close>

lemma wait_inv_bump:
  assumes "wait_inv v p x" "\<not> pwaking p" "storing v"
  shows "wait_inv (v\<lparr>seq := seq v + 1, storing := False\<rparr>)
    (p\<lparr>pwaiter := y, pwaking := fst (bump_notify_word (seq v)), psynced := c\<rparr>) (x\<lparr>age := age x + 1\<rparr>)"
  using assms by (cases "wpc x") (auto simp: wait_inv_def Let_def bump_notify_word_def algebra_simps)

lemma wait_inv_store:
  assumes "wait_inv v p x" "psynced p \<le> front v"
  shows "wait_inv (v\<lparr>front := c, hist := h, storing := True\<rparr>) p x"
  using assms by (cases "wpc x") (auto simp: wait_inv_def Let_def)

lemma port_inv_notifies:
  assumes n: "notifies v w" and v: "wf_view v" "port_inv v p" "\<not> pwaking p"
  shows "port_inv w (port_bump v w p)"
  using n
proof cases
  case same
  with v show ?thesis by (simp add: port_bump_def)
next
  case (store c)
  then show ?thesis
    using port_invD [OF v(2)] wf_viewD [OF v(1)] wait_inv_store
    by (auto simp: port_bump_def port_inv_def split: option.splits)
next
  case bump
  then show ?thesis
    using port_invD(1,3) [OF v(2)] wf_viewD(1) [OF v(1)] wait_inv_bump [OF _ v(3)]
    by (auto simp: port_bump_def port_inv_def split: option.splits)
qed

lemma port_bump_waits [simp]: "pwaiter (port_bump v w p) = None \<longleftrightarrow> pwaiter p = None"
  by (simp add: port_bump_def)


section \<open>How far a wait is from returning\<close>

text \<open>
  Once the wait is over and the other thread is quiet, every step of the waiting thread comes
  closer to its return. Only a registration that was overtaken by a bump has to go round again.
\<close>

definition wait_rank :: "waiter \<Rightarrow> nat" where
  "wait_rank x =
     (case wpc x of
        w_check2 _ \<Rightarrow> if age x = 0 then 2 else 7
      | w_deadline _ \<Rightarrow> 6
      | w_wait _ \<Rightarrow> 5
      | w_check1 \<Rightarrow> 4
      | w_mark \<Rightarrow> 3
      | w_exit _ \<Rightarrow> 1
      | _ \<Rightarrow> 0)"

definition wait_over :: "view \<Rightarrow> waiter \<Rightarrow> bool" where
  "wait_over v x \<longleftrightarrow> \<not> waiting (wkind x) (enough v (front v)) (seq v)"

lemma wait_rank_bound: "wait_rank x \<le> 7"
  by (simp add: wait_rank_def split: wpc.splits)

lemma wait_step_progress:
  assumes v: "wf_view v" "port_inv v p" "\<not> storing v" "\<not> pwaking p"
    and x: "pwaiter p = Some x" "age x < 2 ^ 31" "wait_over v x"
    and c: "c \<in> set (hist v)" "seen v \<le> c"
  obtains y wd where "waiter_step expired (enough v c) (seq v) x = Some (y, wd)"
    and "wait_rank y < wait_rank x" "timed y = timed x" "wkind y = wkind x" "age y \<le> age x"
    and "notify_seq_value wd = notify_seq_value (seq v)" "\<And>b. wpc y = w_done b \<Longrightarrow> timed x \<or> b"
proof -
  note I = port_invD(3) [OF v(2) x(1)]
  have "\<exists>y wd. waiter_step expired (enough v c) (seq v) x = Some (y, wd) \<and>
    wait_rank y < wait_rank x \<and> timed y = timed x \<and> wkind y = wkind x \<and> age y \<le> age x \<and>
    notify_seq_value wd = notify_seq_value (seq v) \<and> (\<forall>b. wpc y = w_done b \<longrightarrow> timed x \<or> b)"
  proof (cases "wpc x")
    case (w_check2 m)
    then have "age x = 0 \<longrightarrow> psynced p \<le> seen v" using I by (simp add: wait_inv_def)
    then have "age x = 0 \<longrightarrow> c = front v" using fresh_load [OF v(1,2) _ c] v(3) by blast
    then show ?thesis using w_check2 x(3) by (auto simp: waiter_step_def wait_rank_def wait_over_def)
  next
    case (w_wait m)
    then have "seq v = set_waiter m + word_of_nat (age x)" "age x \<noteq> 0"
      using I x(3) v(3) by (auto simp: wait_inv_def wait_over_def)
    then have "seq v \<noteq> m" using expected_word_unbumped [of m "age x"] x(2) by auto
    then show ?thesis using w_wait by (simp add: waiter_step_def wait_rank_def)
  qed (use I x(3) v(3,4) in \<open>auto simp: waiter_step_def wait_rank_def wait_inv_def wait_over_def\<close>)
  then show thesis using that by blast
qed


section \<open>A ring two threads can block on\<close>

text \<open>A thread that waits is between two calls of the ring and has no wake of its own to issue.\<close>

definition duplex_inv :: "('s, 'a) shared_ring \<Rightarrow> ('s \<Rightarrow> bool) \<Rightarrow> 's duplex \<Rightarrow> bool" where
  "duplex_inv R invar d \<longleftrightarrow>
     invar (ring d) \<and>
     (\<forall>r. port_inv (view_of R r d) (ports d r) \<and>
          (pwaiter (ports d r) \<noteq> None \<longrightarrow> between_calls R r (ring d) \<and> \<not> pwaking (ports d (other r))))"

text \<open>
  The interface: a thread's own steps leave the position it waits for and the word alone, the
  other thread's steps store the position and then bump the word, and the two words and the two
  views do not interfere. At least one thread has something to do.
\<close>

locale two_sided =
  fixes R :: "('s, 'a) shared_ring" and invar :: "'s \<Rightarrow> bool"
  assumes wf: "invar s \<Longrightarrow> wf_view (observe (side R r) s)"
    and thread_inv: "invar s \<Longrightarrow> thread_act R r a s = Some t \<Longrightarrow> invar t"
    and thread_own: "invar s \<Longrightarrow> thread_act R r a s = Some t \<Longrightarrow>
      front (observe (side R r) t) = front (observe (side R r) s) \<and>
      seq (observe (side R r) t) = seq (observe (side R r) s) \<and>
      hist (observe (side R r) t) = hist (observe (side R r) s) \<and>
      storing (observe (side R r) t) = storing (observe (side R r) s)"
    and thread_peer: "invar s \<Longrightarrow> thread_act R r a s = Some t \<Longrightarrow>
      notifies (observe (side R (other r)) s) (observe (side R (other r)) t)"
    and thread_calls: "invar s \<Longrightarrow> thread_act R r a s = Some t \<Longrightarrow>
      between_calls R (other r) t = between_calls R (other r) s"
    and set_seq_inv: "invar s \<Longrightarrow> invar (set_seq (side R r) w s)"
    and set_seq_own: "observe (side R r) (set_seq (side R r) w s) = (observe (side R r) s)\<lparr>seq := w\<rparr>"
    and set_seq_other: "observe (side R (other r)) (set_seq (side R r) w s) = observe (side R (other r)) s"
    and set_seq_calls: "between_calls R q (set_seq (side R r) w s) = between_calls R q s"
    and set_seen_inv: "invar s \<Longrightarrow> seen (observe (side R r) s) \<le> c \<Longrightarrow>
      c \<in> set (hist (observe (side R r) s)) \<or> c = seen (observe (side R r) s) \<Longrightarrow>
      invar (set_seen (side R r) c s)"
    and set_seen_own: "observe (side R r) (set_seen (side R r) c s) = (observe (side R r) s)\<lparr>seen := c\<rparr>"
    and set_seen_other: "observe (side R (other r)) (set_seen (side R r) c s) = observe (side R (other r)) s"
    and set_seen_calls: "between_calls R q (set_seen (side R r) c s) = between_calls R q s"
    and calls_done: "between_calls R r s \<Longrightarrow> \<not> storing (observe (side R (other r)) s)"
    and something_to_do: "invar s \<Longrightarrow> between_calls R consumer s \<Longrightarrow> between_calls R producer s \<Longrightarrow>
      \<exists>r. enough (observe (side R r) s) (front (observe (side R r) s))"
begin

lemma duplex_invD:
  assumes "duplex_inv R invar d"
  shows "invar (ring d)" "wf_view (observe (side R r) (ring d))"
    and "port_inv (observe (side R r) (ring d)) (ports d r)"
    and "pwaiter (ports d r) \<noteq> None \<Longrightarrow> between_calls R r (ring d)"
    and "pwaiter (ports d r) \<noteq> None \<Longrightarrow> \<not> pwaking (ports d (other r))"
  using assms wf by (auto simp: duplex_inv_def view_of_def)

lemma duplex_invI:
  assumes "invar (ring d)"
    and "port_inv (observe (side R r) (ring d)) (ports d r)"
    and "port_inv (observe (side R (other r)) (ring d)) (ports d (other r))"
    and "pwaiter (ports d r) \<noteq> None \<Longrightarrow> between_calls R r (ring d) \<and> \<not> pwaking (ports d (other r))"
    and "pwaiter (ports d (other r)) \<noteq> None \<Longrightarrow> between_calls R (other r) (ring d) \<and> \<not> pwaking (ports d r)"
  shows "duplex_inv R invar d"
proof -
  have "port_inv (observe (side R q) (ring d)) (ports d q) \<and>
    (pwaiter (ports d q) \<noteq> None \<longrightarrow> between_calls R q (ring d) \<and> \<not> pwaking (ports d (other q)))" for q
    using role_cases [of q r] assms by auto
  with assms(1) show ?thesis by (simp add: duplex_inv_def view_of_def)
qed

lemma inv_ring_act:
  assumes I: "duplex_inv R invar d" and e: "dapply R (ring_act r a) d = Some e"
  shows "duplex_inv R invar e"
proof -
  obtain t where run: "running d r" and t: "thread_act R r a (ring d) = Some t"
    and ed: "e = d\<lparr>ring := t, ports := (ports d)(other r :=
       port_bump (observe (side R (other r)) (ring d)) (observe (side R (other r)) t) (ports d (other r)))\<rparr>"
    using e by (auto split: if_splits option.splits)
  note D = duplex_invD [OF I]
  have free: "pwaiter (ports d r) = None" "\<not> pwaking (ports d (other r))"
    using run by (auto simp: running_def)
  show ?thesis
  proof (rule duplex_invI [of _ r])
    show "invar (ring e)" using thread_inv [OF D(1) t] ed by simp
    show "port_inv (observe (side R r) (ring e)) (ports e r)"
      using D(3) [of r] thread_own [OF D(1) t] free ed by (simp add: port_inv_def)
    show "port_inv (observe (side R (other r)) (ring e)) (ports e (other r))"
      using port_inv_notifies [OF thread_peer [OF D(1) t] D(2,3) free(2)] ed by simp
    show "between_calls R (other r) (ring e) \<and> \<not> pwaking (ports e r)"
      if "pwaiter (ports e (other r)) \<noteq> None"
      using that ed D(4,5) [of "other r"] thread_calls [OF D(1) t] by auto
  qed (use ed free in simp)
qed

lemma inv_begin_wait:
  assumes I: "duplex_inv R invar d" and e: "dapply R (begin_wait r k ms) d = Some e"
  shows "duplex_inv R invar e"
proof -
  note D = duplex_invD [OF I]
  from e have "running d r" "between_calls R r (ring d)"
    and ed: "e = d\<lparr>ports := (ports d)(r := port_start k ms (ports d r))\<rparr>"
    by (auto split: if_splits)
  then show ?thesis
    using D(1,3) D(4,5) [of "other r"] port_inv_start
    by (intro duplex_invI [of _ r]) (auto simp: running_def port_start_def)
qed

lemma seen_after_hist:
  assumes "wf_view v" "port_inv v p" "c \<in> set (hist v)" "seen v \<le> c"
  shows "seen v \<le> seen_after x (psynced p) (seen v) c"
    and "seen_after x (psynced p) (seen v) c \<in> set (hist v) \<or> seen_after x (psynced p) (seen v) c = seen v"
  using assms(3,4) port_invD(1) [OF assms(2)]
  by (auto simp: seen_after_def max_def split: wpc.splits)

lemma inv_wait_act:
  assumes I: "duplex_inv R invar d" and e: "dapply R (wait_act r expired c) d = Some e" and yg: "young d"
  shows "duplex_inv R invar e"
proof -
  note D = duplex_invD [OF I]
  let ?v = "observe (side R r) (ring d)" and ?p = "ports d r"
  obtain x y wd where x: "pwaiter ?p = Some x" and c: "c \<in> set (hist ?v)" "seen ?v \<le> c"
    and st: "waiter_step expired (enough ?v c) (seq ?v) x = Some (y, wd)"
    and ed: "e = d\<lparr>ring := set_seen (side R r) (seen_after x (psynced ?p) (seen ?v) c)
        (set_seq (side R r) wd (ring d)),
      ports := (ports d)(r := advance_wait y ?p)\<rparr>"
    using e by (auto simp: port_wait_def Let_def split: option.splits if_splits)
  have ag: "age x < 2 ^ 31" using yg x by (auto simp: ages_below_def split: option.splits)
  note S = seen_after_hist [OF D(2,3) c, of x]
  show ?thesis
  proof (rule duplex_invI [of _ r])
    show "invar (ring e)"
      using set_seen_inv [OF set_seq_inv [OF D(1)]] S ed by (simp add: set_seq_own)
    show "port_inv (observe (side R r) (ring e)) (ports e r)"
      using port_inv_wait [OF D(2,3) x ag c st] ed by (simp add: set_seq_own set_seen_own)
    show "port_inv (observe (side R (other r)) (ring e)) (ports e (other r))"
      using D(3) [of "other r"] ed by (simp add: set_seq_other set_seen_other)
  qed (use D(4,5) [of r] D(4,5) [of "other r"] x ed in \<open>auto simp: set_seq_calls set_seen_calls\<close>)
qed

lemma inv_release:
  assumes I: "duplex_inv R invar d" and e: "dapply R (spurious r) d = Some e \<or> dapply R (deliver_wake r) d = Some e"
  shows "duplex_inv R invar e"
proof -
  note D = duplex_invD [OF I]
  show ?thesis
    using e D(1,3) D(4,5) [of r] D(4,5) [of "other r"] port_inv_release
    by (intro duplex_invI [of _ r]) (auto simp: port_release_def split: if_splits)
qed

lemma dreach_inv:
  assumes "dreach R d0 d" "duplex_inv R invar d0" "young d0"
  shows "duplex_inv R invar d \<and> young d"
  using assms(1)
proof induction
  case (step d a e)
  then show ?case
    using inv_ring_act inv_begin_wait inv_wait_act inv_release by (cases a) blast+
qed (use assms(2,3) in blast)

lemma new_duplex_inv: "invar s \<Longrightarrow> duplex_inv R invar (new_duplex R s) \<and> young (new_duplex R s)"
  using wf by (auto simp: duplex_inv_def new_duplex_def view_of_def new_port_def port_inv_def ages_below_def wf_view_def)

text \<open>A thread that sleeps although its wait is over is about to be woken.\<close>

lemma no_lost_wakeup:
  assumes "duplex_inv R invar d" "pwaiter (ports d r) = Some x" "wpc x = w_blocked m"
    and "\<not> waiting (wkind x) (enough (view_of R r d) (front (view_of R r d))) (seq (view_of R r d))"
  shows "pwaking (ports d r) \<or>
    (storing (view_of R r d) \<and> fst (bump_notify_word (seq (view_of R r d))))"
  using port_invD(3) [OF duplex_invD(3) [OF assms(1)] assms(2)] assms(3,4)
  by (auto simp: wait_inv_def view_of_def bump_notify_word_def)

text \<open>Two threads waiting for each other's progress never sleep at the same time.\<close>

lemma never_both_asleep:
  assumes I: "duplex_inv R invar d"
    and x: "\<And>r. pwaiter (ports d r) = Some (x r)" "\<And>r. wkind (x r) = until_published"
  shows "\<not> (blocked (ports d consumer) \<and> blocked (ports d producer))"
proof
  assume b: "blocked (ports d consumer) \<and> blocked (ports d producer)"
  note D = duplex_invD [OF I]
  have calls: "between_calls R r (ring d)" and quiet: "\<not> pwaking (ports d (other r))" for r
    using D(4,5) [of r] x(1) by auto
  obtain r where r: "enough (view_of R r d) (front (view_of R r d))"
    using something_to_do [OF D(1) calls calls] by (auto simp: view_of_def)
  obtain m where m: "wpc (x r) = w_blocked m"
    using b x(1) by (cases r) (auto simp: blocked_def split: wpc.splits)
  have "\<not> storing (view_of R r d)" using calls_done [OF calls, of "other r"] by (simp add: view_of_def)
  moreover have "\<not> pwaking (ports d r)" using quiet [of "other r"] by simp
  ultimately show False
    using no_lost_wakeup [OF I x(1) m] r x(2) by (simp add: waiting_def)
qed

lemma not_both_asleep:
  assumes "duplex_inv R invar d" "pwaiter (ports d consumer) = Some x" "pwaiter (ports d producer) = Some y"
    and "wkind x = until_published" "wkind y = until_published"
  shows "\<not> (blocked (ports d consumer) \<and> blocked (ports d producer))"
proof (rule never_both_asleep [OF assms(1)])
  show "pwaiter (ports d r) = Some (if r = consumer then x else y)" for r using assms(2,3) by (cases r) simp_all
qed (use assms(4,5) in simp)

lemma wait_act_progress:
  assumes I: "duplex_inv R invar d" "young d" and x: "pwaiter (ports d r) = Some x"
    and q: "\<not> storing (view_of R r d)" "\<not> pwaking (ports d r)" "wait_over (view_of R r d) x"
    and c: "c \<in> set (hist (view_of R r d))" "seen (view_of R r d) \<le> c"
  obtains e where "dapply R (wait_act r expired c) d = Some e" "duplex_inv R invar e" "young e"
    and "(\<exists>b. pwaiter (ports e r) = None \<and> presult (ports e r) = Some b \<and> (timed x \<or> b)) \<or>
      (\<exists>y. pwaiter (ports e r) = Some y \<and> wait_rank y < wait_rank x \<and> timed y = timed x \<and>
        \<not> storing (view_of R r e) \<and> \<not> pwaking (ports e r) \<and> wait_over (view_of R r e) y)"
proof -
  let ?v = "observe (side R r) (ring d)"
  note D = duplex_invD [OF I(1)]
  have ag: "age x < 2 ^ 31" using I(2) x by (auto simp: ages_below_def split: option.splits)
  obtain y wd where st: "waiter_step expired (enough ?v c) (seq ?v) x = Some (y, wd)"
    and y: "wait_rank y < wait_rank x" "timed y = timed x" "wkind y = wkind x" "age y \<le> age x"
      "notify_seq_value wd = notify_seq_value (seq ?v)" "\<And>b. wpc y = w_done b \<Longrightarrow> timed x \<or> b"
    using wait_step_progress [OF D(2,3) _ q(2) x ag, of c] q c by (auto simp: view_of_def)
  let ?s = "set_seen (side R r) (seen_after x (psynced (ports d r)) (seen ?v) c) (set_seq (side R r) wd (ring d))"
  let ?e = "d\<lparr>ring := ?s, ports := (ports d)(r := advance_wait y (ports d r))\<rparr>"
  have e: "dapply R (wait_act r expired c) d = Some ?e"
    using c st x by (simp add: port_wait_def view_of_def)
  have "young ?e"
    using I(2) y(4) ag by (auto simp: ages_below_def advance_wait_def split: wpc.splits option.splits)
  moreover have "wait_over (view_of R r ?e) y"
    using q(3) y(3,5) by (simp add: wait_over_def waiting_def view_of_def set_seq_own set_seen_own split: wpred.splits)
  ultimately show thesis
    using that [OF e inv_wait_act [OF I(1) e I(2)]] y q
    by (cases "wpc y") (auto simp: advance_wait_def view_of_def set_seq_own set_seen_own)
qed

lemma wait_run_done: "pwaiter (ports d r) = None \<Longrightarrow> wait_run R r cs d = Some d"
  by (cases cs) auto

lemma wait_rank_pos:
  assumes "duplex_inv R invar d" "young d" "pwaiter (ports d r) = Some x"
    and "\<not> storing (view_of R r d)" "\<not> pwaking (ports d r)" "wait_over (view_of R r d) x"
  shows "0 < wait_rank x"
proof -
  note D = duplex_invD(2,3) [OF assms(1), of r]
  have "age x < 2 ^ 31" using assms(2,3) by (auto simp: ages_below_def split: option.splits)
  then show ?thesis
    using wait_step_progress [OF D _ assms(5,3) _ _ wf_viewD(1,3) [OF D(1)]] assms(4,6)
    unfolding view_of_def by (metis less_zeroE neq0_conv)
qed

text \<open>Whatever values its loads return, the thread is back after at most seven of its own steps.\<close>

lemma wait_returns:
  assumes "duplex_inv R invar d" "young d" "pwaiter (ports d r) = Some x"
    and "\<not> storing (view_of R r d)" "\<not> pwaking (ports d r)" "wait_over (view_of R r d) x"
    and "wait_rank x \<le> length cs" "wait_run R r cs d = Some e"
  shows "pwaiter (ports e r) = None \<and> (\<exists>b. presult (ports e r) = Some b \<and> (timed x \<or> b))"
  using assms
proof (induction cs arbitrary: d x)
  case Nil
  then show ?case using wait_rank_pos [OF Nil(1-6)] by simp
next
  case (Cons a cs)
  obtain expired c where a: "a = (expired, c)" by (cases a)
  obtain d' where d': "dapply R (wait_act r expired c) d = Some d'" "wait_run R r cs d' = Some e"
    using Cons.prems(3,8) a by (auto split: option.splits)
  then have c: "c \<in> set (hist (view_of R r d))" "seen (view_of R r d) \<le> c"
    by (auto simp: port_wait_def view_of_def Let_def split: option.splits if_splits)
  obtain d'' where n: "dapply R (wait_act r expired c) d = Some d''" "duplex_inv R invar d''" "young d''"
    "(\<exists>b. pwaiter (ports d'' r) = None \<and> presult (ports d'' r) = Some b \<and> (timed x \<or> b)) \<or>
      (\<exists>y. pwaiter (ports d'' r) = Some y \<and> wait_rank y < wait_rank x \<and> timed y = timed x \<and>
        \<not> storing (view_of R r d'') \<and> \<not> pwaking (ports d'' r) \<and> wait_over (view_of R r d'') y)"
    using wait_act_progress [OF Cons.prems(1-6) c, of expired] by blast
  then have "d'' = d'" using d'(1) by simp
  show ?case
  proof (cases "pwaiter (ports d' r)")
    case None
    then show ?thesis using n(4) wait_run_done [of d' r cs] d'(2) \<open>d'' = d'\<close> by auto
  next
    case (Some y)
    then have "wait_rank y < wait_rank x" "timed y = timed x" "\<not> storing (view_of R r d')"
      "\<not> pwaking (ports d' r)" "wait_over (view_of R r d') y"
      using n(4) \<open>d'' = d'\<close> by simp_all
    then show ?thesis
      using Cons.IH [of d' y] Some n(2,3) Cons.prems(7) d'(2) \<open>d'' = d'\<close> by simp
  qed
qed

text \<open>And there always is a value to load.\<close>

lemma wait_can_step:
  assumes "duplex_inv R invar d" "young d" "pwaiter (ports d r) = Some x"
    and "\<not> storing (view_of R r d)" "\<not> pwaking (ports d r)" "wait_over (view_of R r d) x"
  shows "dapply R (wait_act r expired (front (view_of R r d))) d \<noteq> None"
  using wait_act_progress [OF assms, of "front (view_of R r d)" expired]
    wf_viewD(1,3) [OF duplex_invD(2) [OF assms(1)], of r]
  by (auto simp: view_of_def)

end

end
