(* ===== verification/Fixed_Blocking.thy ===== *)
theory Fixed_Blocking
  imports Blocking Fixed_Sequential
begin

text \<open>
  The fixed ring with threads that block: the consumer waits on \<open>commit_seq\<close> while nothing is
  published, the producer on \<open>read_wake_seq\<close> while the ring is full. The threads are those of
  \<open>Fixed_Concurrent\<close>, the waits those of \<open>Notify_Protocol\<close>.
\<close>

definition fixed_consumer_side :: "cstate side" where
  "fixed_consumer_side =
     \<lparr>observe = (\<lambda>s.
        \<lparr>front = cpos (seg s), seq = cseq (seg s), hist = commit_history s, seen = seen_commit s,
         storing = (ppc s = p_signal), enough = (\<lambda>c. rpos (seg s) < c)\<rparr>),
      set_seq = (\<lambda>w s. s\<lparr>seg := update_meta (\<lambda>m. m\<lparr>commit_seq := w\<rparr>) (seg s)\<rparr>),
      set_seen = (\<lambda>c s. s\<lparr>seen_commit := c\<rparr>)\<rparr>"

text \<open>The producer waits while the test of \<open>try_reserve\<close> finds the ring full.\<close>

definition fixed_producer_side :: "cstate side" where
  "fixed_producer_side =
     \<lparr>observe = (\<lambda>s.
        \<lparr>front = rpos (seg s), seq = rwseq (seg s), hist = read_history s, seen = seen_read s,
         storing = (cpc s = c_signal),
         enough = (\<lambda>r. \<not> (wpos (seg s) mod data_capacity (hdr (seg s)) =
           r mod data_capacity (hdr (seg s)) \<and> wpos (seg s) > r))\<rparr>),
      set_seq = (\<lambda>w s. s\<lparr>seg := update_meta (\<lambda>m. m\<lparr>read_wake_seq := w\<rparr>) (seg s)\<rparr>),
      set_seen = (\<lambda>c s. s\<lparr>seen_read := c\<rparr>)\<rparr>"

definition low_only :: "cstate option \<Rightarrow> cstate option" where
  "low_only x = (case x of None \<Rightarrow> None | Some t \<Rightarrow> if low (seg t) then Some t else None)"

fun fixed_thread :: "role \<Rightarrow> caction \<Rightarrow> cstate \<Rightarrow> cstate option" where
  "fixed_thread producer (call_write m) s = low_only (capply (call_write m) s)"
| "fixed_thread producer (run_producer r) s = low_only (capply (run_producer r) s)"
| "fixed_thread consumer (run_consumer c) s = low_only (capply (run_consumer c) s)"
| "fixed_thread _ _ s = None"

definition fixed_shared :: "(cstate, caction) shared_ring" where
  "fixed_shared =
     \<lparr>side = (\<lambda>r. case r of consumer \<Rightarrow> fixed_consumer_side | producer \<Rightarrow> fixed_producer_side),
      thread_act = fixed_thread,
      between_calls = (\<lambda>r s. case r of consumer \<Rightarrow> cpc s = c_idle | producer \<Rightarrow> ppc s = p_idle)\<rparr>"

definition shared_inv :: "cstate \<Rightarrow> bool" where
  "shared_inv s \<longleftrightarrow>
     conc_inv s \<and> cpos (seg s) \<in> set (commit_history s) \<and> rpos (seg s) \<in> set (read_history s)"

lemmas fixed_side_defs = fixed_shared_def fixed_consumer_side_def fixed_producer_side_def

lemma fixed_shared_sel [simp]:
  "side fixed_shared consumer = fixed_consumer_side" "side fixed_shared producer = fixed_producer_side"
  "thread_act fixed_shared = fixed_thread"
  "between_calls fixed_shared consumer s = (cpc s = c_idle)"
  "between_calls fixed_shared producer s = (ppc s = p_idle)"
  by (simp_all add: fixed_shared_def)

lemma fixed_thread_cases:
  assumes "fixed_thread r a s = Some t"
  shows "cstep s t" "unat (wpos (seg t)) + item_of (seg t) < 2 ^ 64"
proof -
  have "capply a s = Some t \<and> low (seg t)"
    using assms by (cases r; cases a) (auto simp: low_only_def split: option.splits if_splits)
  then show "cstep s t" "unat (wpos (seg t)) + item_of (seg t) < 2 ^ 64"
    using capply_cstep below_minus [of "wpos (seg t)" "u64_of_u32 (fixed_item_size (hdr (seg t)))"]
    by (auto simp: low_def)
qed

text \<open>The steps of the two threads, by what the other one observes.\<close>

lemma reserved_end_ahead:
  assumes "conc_inv s" "ppc s = p_publish m"
  shows "cpos (seg s) \<le> reserved_end (writer s)"
  using fixed_invD(7,9) [OF conc_invD(1) [OF assms(1)]] conc_invD(2) [OF assms(1)] assms(2)
  by (simp add: producer_inv_def word_le_nat_alt)

lemma fixed_producer_notifies:
  assumes inv: "conc_inv s" and st: "fixed_thread producer a s = Some t"
  shows "notifies (observe fixed_consumer_side s) (observe fixed_consumer_side t)"
proof -
  from st have c: "capply a s = Some t" and a: "\<And>c. a \<noteq> run_consumer c"
    by (cases a; auto simp: low_only_def split: option.splits if_splits)+
  show ?thesis
  proof (cases "ppc s")
    case (p_publish m)
    with c a reserved_end_ahead [OF inv p_publish] show ?thesis
      by (cases a) (auto simp: fixed_consumer_side_def intro: notifiesI(2))
  next
    case p_signal
    with c a show ?thesis
      by (cases a) (auto simp: fixed_consumer_side_def signal_commit_effect intro: notifiesI(3))
  qed (use c a in \<open>cases a; auto simp: fixed_consumer_side_def reserved_segment_def poke_def
      split: if_splits intro: notifiesI(1)\<close>)+
qed

lemma fixed_producer_frame:
  assumes "fixed_thread producer a s = Some t"
  shows "cpc t = cpc s" "rpos (seg t) = rpos (seg s)" "rwseq (seg t) = rwseq (seg s)"
    and "read_history t = read_history s"
  using assms
  by (cases a; cases "ppc s"; auto simp: low_only_def reserved_segment_def poke_def split: option.splits if_splits)+

lemma read_pos_ahead:
  assumes inv: "conc_inv s" and pc: "cpc s = c_advance buf"
  shows "rpos (seg s) \<le> rpos (seg s) + u64_of_u32 (fixed_item_size (hdr (seg s)))"
proof -
  note D = fixed_invD [OF conc_invD(1) [OF inv]]
  have "unat (rpos (seg s)) \<le> unat (wpos (seg s))" using D(6,7) by simp
  then have "unat (rpos (seg s)) + item_of (seg s) < 2 ^ 64" using D(10) by simp
  then show ?thesis by (simp add: word_le_nat_alt unat_simps)
qed

lemma fixed_consumer_notifies:
  assumes inv: "conc_inv s" and st: "fixed_thread consumer a s = Some t"
  shows "notifies (observe fixed_producer_side s) (observe fixed_producer_side t)"
proof -
  from st obtain c where a: "a = run_consumer c" and c: "capply (run_consumer c) s = Some t"
    by (cases a) (auto simp: low_only_def split: option.splits if_splits)
  show ?thesis
  proof (cases "cpc s")
    case (c_advance buf)
    with c read_pos_ahead [OF inv c_advance] show ?thesis
      by (auto simp: fixed_producer_side_def intro: notifiesI(2))
  next
    case c_signal
    with c show ?thesis
      by (auto simp: fixed_producer_side_def signal_read_effect intro: notifiesI(3))
  qed (use c in \<open>auto simp: fixed_producer_side_def split: if_splits intro: notifiesI(1)\<close>)
qed

lemma fixed_consumer_frame:
  assumes "fixed_thread consumer a s = Some t"
  shows "ppc t = ppc s" "cpos (seg t) = cpos (seg s)" "cseq (seg t) = cseq (seg s)"
    and "commit_history t = commit_history s"
  using assms
  by (cases a; cases "cpc s"; auto simp: low_only_def split: option.splits if_splits)+

section \<open>The interface\<close>

lemma word_transparent:
  assumes "\<And>m. write_pos (f m) = write_pos m" "\<And>m. read_pos (f m) = read_pos m"
    and "\<And>m. commit_pos (f m) = commit_pos m"
  shows "conc_inv (s\<lparr>seg := update_meta f (seg s)\<rparr>) = conc_inv s"
proof -
  have "fixed_contents (update_meta f (seg s)) = fixed_contents (seg s)"
    "fixed_inv 1 w (update_meta f (seg s)) = fixed_inv 1 w (seg s)" for w
    using assms by (simp_all add: fixed_contents_def fixed_inv_def fixed_geometry_def)
  with assms show ?thesis
    by (simp add: conc_inv_def producer_inv_def consumer_inv_def cong: ppc.case_cong cpc.case_cong)
qed

lemma seen_commit_keeps:
  assumes "conc_inv s" "seen_commit s \<le> c" "c \<in> set (commit_history s) \<or> c = seen_commit s"
  shows "conc_inv (s\<lparr>seen_commit := c\<rparr>)"
  using assms conc_invD(9) [OF assms(1), of c]
  by (auto simp: conc_inv_def producer_inv_def consumer_inv_def word_le_nat_alt
      cong: ppc.case_cong split: cpc.splits)

lemma seen_read_keeps:
  assumes "conc_inv s" "seen_read s \<le> r" "r \<in> set (read_history s) \<or> r = seen_read s"
  shows "conc_inv (s\<lparr>seen_read := r\<rparr>)"
  using assms conc_invD(8) [OF assms(1), of r]
  by (auto simp: conc_inv_def producer_inv_def consumer_inv_def word_le_nat_alt
      cong: ppc.case_cong cpc.case_cong)

lemma shared_inv_thread:
  assumes "shared_inv s" "fixed_thread r a s = Some t"
  shows "shared_inv t"
proof -
  have I: "conc_inv s" "cpos (seg s) \<in> set (commit_history s)" "rpos (seg s) \<in> set (read_history s)"
    using assms(1) by (auto simp: shared_inv_def)
  have "conc_inv t" using conc_inv_step [OF fixed_thread_cases(1) [OF assms(2)] I(1)] fixed_thread_cases(2) [OF assms(2)] .
  moreover have "cpos (seg t) \<in> set (commit_history t) \<and> rpos (seg t) \<in> set (read_history t)"
  proof (cases r)
    case consumer
    have "rpos (seg t) \<in> set (read_history t)"
      using notifies_hist [OF fixed_consumer_notifies [OF I(1)]] assms(2) I(3) consumer
      by (simp add: fixed_producer_side_def)
    then show ?thesis using fixed_consumer_frame assms(2) I(2) consumer by simp
  next
    case producer
    have "cpos (seg t) \<in> set (commit_history t)"
      using notifies_hist [OF fixed_producer_notifies [OF I(1)]] assms(2) I(2) producer
      by (simp add: fixed_consumer_side_def)
    then show ?thesis using fixed_producer_frame assms(2) I(3) producer by simp
  qed
  ultimately show ?thesis by (simp add: shared_inv_def)
qed

lemma shared_wf: "shared_inv s \<Longrightarrow> wf_view (observe (side fixed_shared r) s)"
  by (cases r) (auto simp: shared_inv_def wf_view_def fixed_consumer_side_def fixed_producer_side_def
    conc_inv_def list_all_iff word_le_nat_alt)

interpretation fixed_duplex: two_sided fixed_shared shared_inv
proof
  fix s t r a w c q assume I: "shared_inv s"
  show "wf_view (observe (side fixed_shared r) s)" using I by (rule shared_wf)
  {
    assume st: "thread_act fixed_shared r a s = Some t"
    show "shared_inv t" using shared_inv_thread [OF I] st by simp
    show "front (observe (side fixed_shared r) t) = front (observe (side fixed_shared r) s) \<and>
      seq (observe (side fixed_shared r) t) = seq (observe (side fixed_shared r) s) \<and>
      hist (observe (side fixed_shared r) t) = hist (observe (side fixed_shared r) s) \<and>
      storing (observe (side fixed_shared r) t) = storing (observe (side fixed_shared r) s)"
      using st fixed_consumer_frame [of a s t] fixed_producer_frame [of a s t]
      by (cases r) (auto simp: fixed_consumer_side_def fixed_producer_side_def)
    show "notifies (observe (side fixed_shared (other r)) s) (observe (side fixed_shared (other r)) t)"
      using I st fixed_consumer_notifies [of s a t] fixed_producer_notifies [of s a t]
      by (cases r) (auto simp: shared_inv_def)
    show "between_calls fixed_shared (other r) t = between_calls fixed_shared (other r) s"
      using st fixed_consumer_frame [of a s t] fixed_producer_frame [of a s t] by (cases r) auto
  }
  show "shared_inv (set_seq (side fixed_shared r) w s)"
    using I by (cases r) (auto simp: shared_inv_def fixed_consumer_side_def fixed_producer_side_def word_transparent)
  show "shared_inv (set_seen (side fixed_shared r) c s)"
    if "seen (observe (side fixed_shared r) s) \<le> c"
      "c \<in> set (hist (observe (side fixed_shared r) s)) \<or> c = seen (observe (side fixed_shared r) s)"
    using I that seen_commit_keeps [of s c] seen_read_keeps [of s c]
    by (cases r) (auto simp: shared_inv_def fixed_consumer_side_def fixed_producer_side_def)
  show "\<exists>r. enough (observe (side fixed_shared r) s) (front (observe (side fixed_shared r) s))"
    if "between_calls fixed_shared consumer s" "between_calls fixed_shared producer s"
  proof (cases "rpos (seg s) < cpos (seg s)")
    case True
    then show ?thesis by (intro exI [of _ consumer]) (simp add: fixed_consumer_side_def)
  next
    case False
    have "\<not> pending (writer s)"
      using conc_invD(2) [of s] I that by (simp add: shared_inv_def producer_inv_def)
    then have "wpos (seg s) = cpos (seg s)"
      using fixed_invD(7) [OF conc_invD(1)] I by (simp add: shared_inv_def word_unat_eq_iff)
    with False show ?thesis by (intro exI [of _ producer]) (simp add: fixed_producer_side_def)
  qed
next
  fix s r w c q
  show "observe (side fixed_shared r) (set_seq (side fixed_shared r) w s) =
      (observe (side fixed_shared r) s)\<lparr>seq := w\<rparr>"
    "observe (side fixed_shared (other r)) (set_seq (side fixed_shared r) w s) =
      observe (side fixed_shared (other r)) s"
    "between_calls fixed_shared q (set_seq (side fixed_shared r) w s) = between_calls fixed_shared q s"
    "observe (side fixed_shared r) (set_seen (side fixed_shared r) c s) =
      (observe (side fixed_shared r) s)\<lparr>seen := c\<rparr>"
    "observe (side fixed_shared (other r)) (set_seen (side fixed_shared r) c s) =
      observe (side fixed_shared (other r)) s"
    "between_calls fixed_shared q (set_seen (side fixed_shared r) c s) = between_calls fixed_shared q s"
    by (cases r; cases q; simp add: fixed_consumer_side_def fixed_producer_side_def)+
  show "between_calls fixed_shared r s \<Longrightarrow> \<not> storing (observe (side fixed_shared (other r)) s)"
    by (cases r) (simp_all add: fixed_consumer_side_def fixed_producer_side_def)
qed


section \<open>Blocking threads on a fixed ring\<close>

lemma fixed_duplex_start:
  assumes "fixed_ring_open seg0 cap alignment item = Inr (Some (w, r, s))" "item \<noteq> 0"
    and "unat cap \<le> length (data_bytes seg0)"
  shows "duplex_inv fixed_shared shared_inv (new_duplex fixed_shared (new_cstate w s))"
    and "young (new_duplex fixed_shared (new_cstate w s))"
proof -
  have "shared_inv (new_cstate w s)"
    using conc_inv_start [OF assms] by (simp add: shared_inv_def new_cstate_def)
  from fixed_duplex.new_duplex_inv [OF this]
  show "duplex_inv fixed_shared shared_inv (new_duplex fixed_shared (new_cstate w s))"
    "young (new_duplex fixed_shared (new_cstate w s))" by blast+
qed

lemma fixed_duplex_reach:
  assumes "fixed_ring_open seg0 cap alignment item = Inr (Some (w, r, s))" "item \<noteq> 0"
    and "unat cap \<le> length (data_bytes seg0)"
    and "dreach fixed_shared (new_duplex fixed_shared (new_cstate w s)) d"
  shows "duplex_inv fixed_shared shared_inv d" "young d"
  using fixed_duplex.dreach_inv [OF assms(4) fixed_duplex_start [OF assms(1-3)]] by blast+

text \<open>
  C8: A producer and a consumer that block on the fixed ring. In every
  interleaving of their memory accesses, waits, spurious returns and wakes, with predicates that
  load stale positions, and whether or not a thread sleeps, no frame is lost, duplicated or reordered.
  A thread that sleeps although its wait is over (for the other side's progress or for a change of
  the sequence) is about to be woken: the other thread has still to bump the word and will find the
  waiter flag, or it is about to issue the wake. And two threads that wait for each other's progress
  never both sleep; two waits for a change of the sequence may, nothing being there to change it.
\<close>

theorem fixed_blocking_wakeup:
  assumes "fixed_ring_open seg0 cap alignment item = Inr (Some (w, r, s))" "item \<noteq> 0"
    and "unat cap \<le> length (data_bytes seg0)"
    and "dreach fixed_shared (new_duplex fixed_shared (new_cstate w s)) d"
  shows "sent (ring d) = received (ring d) @ fixed_contents (seg (ring d)) \<and>
    (\<forall>q x m. pwaiter (ports d q) = Some x \<and> wpc x = w_blocked m \<and> wait_over (view_of fixed_shared q d) x \<longrightarrow>
       pwaking (ports d q) \<or>
       (storing (view_of fixed_shared q d) \<and> fst (bump_notify_word (seq (view_of fixed_shared q d))))) \<and>
    (\<forall>x y. pwaiter (ports d consumer) = Some x \<and> pwaiter (ports d producer) = Some y \<and>
       wkind x = until_published \<and> wkind y = until_published \<longrightarrow>
       \<not> (blocked (ports d consumer) \<and> blocked (ports d producer)))"
proof (intro conjI allI impI)
  note I = fixed_duplex_reach(1) [OF assms(1-4)]
  show "sent (ring d) = received (ring d) @ fixed_contents (seg (ring d))"
    using fixed_duplex.duplex_invD(1) [OF I] conc_invD(10) by (simp add: shared_inv_def)
  show "pwaking (ports d q) \<or> (storing (view_of fixed_shared q d) \<and> fst (bump_notify_word (seq (view_of fixed_shared q d))))"
    if "pwaiter (ports d q) = Some x \<and> wpc x = w_blocked m \<and> wait_over (view_of fixed_shared q d) x" for q x m
    using fixed_duplex.no_lost_wakeup [OF I, of q x m] that by (simp add: wait_over_def)
  show "\<not> (blocked (ports d consumer) \<and> blocked (ports d producer))"
    if "pwaiter (ports d consumer) = Some x \<and> pwaiter (ports d producer) = Some y \<and>
      wkind x = until_published \<and> wkind y = until_published" for x y
    using fixed_duplex.not_both_asleep [OF I, of x y] that by blast
qed

text \<open>A ring of two one-byte frames, and a schedule run on it.\<close>

definition small_run :: "caction daction list \<Rightarrow> cstate duplex option" where
  "small_run acts =
     (case fixed_ring_open (fresh_segment 2) 2 1 1 of
        Inr (Some (w, r, s)) \<Rightarrow> drun fixed_shared acts (new_duplex fixed_shared (new_cstate w s))
      | _ \<Rightarrow> None)"

lemma small_run_reach:
  assumes "small_run acts = Some d" "length acts < 100"
  obtains w and r :: fixed_reader and s where "fixed_ring_open (fresh_segment 2) 2 1 1 = Inr (Some (w, r, s))"
    and "dreach fixed_shared (new_duplex fixed_shared (new_cstate w s)) d"
proof -
  obtain w and r :: fixed_reader and s where o: "fixed_ring_open (fresh_segment 2) 2 1 1 = Inr (Some (w, r, s))"
    and d: "drun fixed_shared acts (new_duplex fixed_shared (new_cstate w s)) = Some d"
    using assms(1) by (auto simp: small_run_def split: sum.splits option.splits)
  have "ages_below 1 (new_duplex fixed_shared (new_cstate w s))"
    by (simp add: ages_below_def new_duplex_def new_port_def)
  from drun_dreach [OF d dreach.start this] assms(2) o show thesis using that by simp
qed

text \<open>A consumer that has gone to sleep on an empty ring, and a producer about to bump the word.\<close>

definition asleep_schedule :: "caction daction list" where
  "asleep_schedule =
     begin_wait consumer until_published (- 1) # replicate 8 (wait_act consumer False 0) @
     ring_act producer (call_write [5]) # replicate 4 (ring_act producer (run_producer 0))"

lemma asleep_run:
  "map_option (\<lambda>d. (pwaiter (ports d consumer), cpos (seg (ring d)), rpos (seg (ring d)),
      pwaking (ports d consumer))) (small_run asleep_schedule) = Some (Some asleep, 1, 0, False)"
  by code_simp

theorem fixed_blocking_wakeup_witness:
  "\<exists>d. small_run asleep_schedule = Some d \<and> pwaiter (ports d consumer) = Some asleep \<and>
    cpos (seg (ring d)) = 1 \<and> rpos (seg (ring d)) = 0 \<and>
    sent (ring d) = received (ring d) @ fixed_contents (seg (ring d)) \<and>
    fst (bump_notify_word (seq (view_of fixed_shared consumer d)))"
proof -
  obtain d where d: "small_run asleep_schedule = Some d" "pwaiter (ports d consumer) = Some asleep"
    "cpos (seg (ring d)) = 1" "rpos (seg (ring d)) = 0" "\<not> pwaking (ports d consumer)"
    using asleep_run by auto
  have "length asleep_schedule < 100" by (simp add: asleep_schedule_def)
  then obtain w and r :: fixed_reader and s where
    o: "fixed_ring_open (fresh_segment 2) 2 1 1 = Inr (Some (w, r, s))"
    "dreach fixed_shared (new_duplex fixed_shared (new_cstate w s)) d"
    by (rule small_run_reach [OF d(1)])
  have "wait_over (view_of fixed_shared consumer d) asleep"
    using d(3,4) by (simp add: wait_over_def waiting_def view_of_def fixed_consumer_side_def asleep_def)
  moreover have "wpc asleep = w_blocked notify_waiter_bit" by (simp add: asleep_def)
  moreover note fixed_blocking_wakeup [OF o(1) _ _ o(2), simplified]
  ultimately show ?thesis using d by (fastforce simp: fresh_segment_def)
qed

text \<open>
  C19: A blocked thread of the fixed ring comes back. Once the other side has made the progress it
  waits for, and has bumped the word and delivered its wake, the waiting thread returns from its
  wait within seven of its own steps, whatever stale positions its loads return, and an untimed
  wait returns true; it is never stuck, since the current position can always be loaded.
\<close>

theorem fixed_blocking_returns:
  assumes "fixed_ring_open seg0 cap alignment item = Inr (Some (w, r, s))" "item \<noteq> 0"
    and "unat cap \<le> length (data_bytes seg0)"
    and "dreach fixed_shared (new_duplex fixed_shared (new_cstate w s)) d"
    and "pwaiter (ports d q) = Some x" "wait_over (view_of fixed_shared q d) x"
    and "\<not> storing (view_of fixed_shared q d)" "\<not> pwaking (ports d q)"
  shows "dapply fixed_shared (wait_act q expired (front (view_of fixed_shared q d))) d \<noteq> None \<and>
    (7 \<le> length cs \<and> wait_run fixed_shared q cs d = Some e \<longrightarrow>
       pwaiter (ports e q) = None \<and> (\<exists>b. presult (ports e q) = Some b \<and> (timed x \<or> b)))"
proof (intro conjI impI)
  note I = fixed_duplex_reach [OF assms(1-4)]
  show "dapply fixed_shared (wait_act q expired (front (view_of fixed_shared q d))) d \<noteq> None"
    by (rule fixed_duplex.wait_can_step [OF I assms(5,7,8,6)])
  assume "7 \<le> length cs \<and> wait_run fixed_shared q cs d = Some e"
  then show "pwaiter (ports e q) = None" "\<exists>b. presult (ports e q) = Some b \<and> (timed x \<or> b)"
    using fixed_duplex.wait_returns [OF I assms(5,7,8,6), of cs e] wait_rank_bound [of x] by auto
qed

text \<open>The consumer has been woken; its first load is stale.\<close>

definition woken_schedule :: "caction daction list" where
  "woken_schedule = asleep_schedule @ [ring_act producer (run_producer 0), deliver_wake consumer]"

definition stale_loads :: "(bool \<times> u64) list" where
  "stale_loads = [(False, 0), (False, 0), (False, 1), (False, 1), (False, 1), (False, 1), (False, 1)]"

lemma woken_run:
  "map_option (\<lambda>d. (pwaiter (ports d consumer), ppc (ring d), cpos (seg (ring d)), rpos (seg (ring d)),
      pwaking (ports d consumer), wait_run fixed_shared consumer stale_loads d = None))
      (small_run woken_schedule) =
    Some (Some (asleep\<lparr>wpc := w_check1, age := 1\<rparr>), p_idle, 1, 0, False, False)"
  by code_simp

theorem fixed_blocking_returns_witness:
  "\<exists>d e. small_run woken_schedule = Some d \<and> wait_run fixed_shared consumer stale_loads d = Some e \<and>
    pwaiter (ports e consumer) = None \<and> presult (ports e consumer) = Some True"
proof -
  obtain d e where d: "small_run woken_schedule = Some d"
    "pwaiter (ports d consumer) = Some (asleep\<lparr>wpc := w_check1, age := 1\<rparr>)" "ppc (ring d) = p_idle"
    "cpos (seg (ring d)) = 1" "rpos (seg (ring d)) = 0" "\<not> pwaking (ports d consumer)"
    and e: "wait_run fixed_shared consumer stale_loads d = Some e"
    using woken_run by auto
  have "length woken_schedule < 100" by (simp add: woken_schedule_def asleep_schedule_def)
  then obtain w and r :: fixed_reader and s where
    o: "fixed_ring_open (fresh_segment 2) 2 1 1 = Inr (Some (w, r, s))"
    "dreach fixed_shared (new_duplex fixed_shared (new_cstate w s)) d"
    by (rule small_run_reach [OF d(1)])
  have v: "wait_over (view_of fixed_shared consumer d) (asleep\<lparr>wpc := w_check1, age := 1\<rparr>)"
    "\<not> storing (view_of fixed_shared consumer d)"
    using d(3-5) by (simp_all add: wait_over_def waiting_def view_of_def fixed_consumer_side_def asleep_def)
  have "7 \<le> length stale_loads" by (simp add: stale_loads_def)
  with fixed_blocking_returns [OF o(1) _ _ o(2) d(2) v d(6), of False stale_loads e] e d(1)
  show ?thesis by (auto simp: fresh_segment_def asleep_def)
qed

end
