(* ===== verification/Varlen_Blocking.thy ===== *)
theory Varlen_Blocking
  imports Blocking Varlen_Concurrent
begin

text \<open>
  The variable-length ring with threads that block: the consumer waits on \<open>commit_seq\<close> while
  nothing is published, the producer on \<open>read_wake_seq\<close> while fewer than \<open>n\<close> bytes are free. The
  threads are those of \<open>Varlen_Threads\<close>, the waits those of \<open>Notify_Protocol\<close>.
\<close>

definition commit_stored :: "vwpc \<Rightarrow> bool" where
  "commit_stored pc = (case pc of vw_pad_signal _ _ \<Rightarrow> True | vw_signal \<Rightarrow> True | _ \<Rightarrow> False)"

definition read_stored :: "vrpc \<Rightarrow> bool" where
  "read_stored pc = (case pc of vr_signal _ \<Rightarrow> True | _ \<Rightarrow> False)"

definition varlen_consumer_side :: "vstate side" where
  "varlen_consumer_side =
     \<lparr>observe = (\<lambda>s.
        \<lparr>front = cpos (vseg s), seq = cseq (vseg s), hist = vcommit_history s, seen = vseen_commit s,
         storing = commit_stored (vwpc s), enough = (\<lambda>c. rpos (vseg s) < c)\<rparr>),
      set_seq = (\<lambda>w s. s\<lparr>vseg := update_meta (\<lambda>m. m\<lparr>commit_seq := w\<rparr>) (vseg s)\<rparr>),
      set_seen = (\<lambda>c s. s\<lparr>vseen_commit := c\<rparr>)\<rparr>"

text \<open>The producer waits while the test of \<open>try_reserve\<close> finds no room for \<open>n\<close> bytes.\<close>

definition varlen_producer_side :: "u32 \<Rightarrow> vstate side" where
  "varlen_producer_side n =
     \<lparr>observe = (\<lambda>s.
        \<lparr>front = rpos (vseg s), seq = rwseq (vseg s), hist = vread_history s, seen = vseen_read s,
         storing = read_stored (vrpc s),
         enough = (\<lambda>r. \<not> wpos (vseg s) - r + u64_of_u32 n > data_capacity (hdr (vseg s)))\<rparr>),
      set_seq = (\<lambda>w s. s\<lparr>vseg := update_meta (\<lambda>m. m\<lparr>read_wake_seq := w\<rparr>) (vseg s)\<rparr>),
      set_seen = (\<lambda>c s. s\<lparr>vseen_read := c\<rparr>)\<rparr>"

fun varlen_thread :: "role \<Rightarrow> vaction \<Rightarrow> vstate \<Rightarrow> vstate option" where
  "varlen_thread producer (v_reader c) s = None"
| "varlen_thread producer v_read s = None"
| "varlen_thread consumer v_read s =
     (case vapply v_read s of None \<Rightarrow> None | Some t \<Rightarrow> if vlow t then Some t else None)"
| "varlen_thread consumer (v_reader c) s =
     (case vapply (v_reader c) s of None \<Rightarrow> None | Some t \<Rightarrow> if vlow t then Some t else None)"
| "varlen_thread producer a s =
     (case vapply a s of None \<Rightarrow> None | Some t \<Rightarrow> if vlow t then Some t else None)"
| "varlen_thread consumer _ s = None"

definition varlen_shared :: "u32 \<Rightarrow> (vstate, vaction) shared_ring" where
  "varlen_shared n =
     \<lparr>side = (\<lambda>r. case r of consumer \<Rightarrow> varlen_consumer_side | producer \<Rightarrow> varlen_producer_side n),
      thread_act = varlen_thread,
      between_calls = (\<lambda>r s. case r of consumer \<Rightarrow> vrpc s = vr_idle | producer \<Rightarrow> vwpc s = vw_idle)\<rparr>"

definition vshared_inv :: "u32 \<Rightarrow> vstate \<Rightarrow> bool" where
  "vshared_inv n s \<longleftrightarrow>
     vconc_inv s \<and> cpos (vseg s) \<in> set (vcommit_history s) \<and> rpos (vseg s) \<in> set (vread_history s) \<and>
     u64_of_u32 n \<le> data_capacity (hdr (vseg s))"

lemma varlen_shared_sel [simp]:
  "side (varlen_shared n) consumer = varlen_consumer_side"
  "side (varlen_shared n) producer = varlen_producer_side n"
  "thread_act (varlen_shared n) = varlen_thread"
  "between_calls (varlen_shared n) consumer s = (vrpc s = vr_idle)"
  "between_calls (varlen_shared n) producer s = (vwpc s = vw_idle)"
  by (simp_all add: varlen_shared_def)

lemma varlen_threadD:
  assumes "varlen_thread r a s = Some t"
  shows "vapply a s = Some t" "vlow t" "r = consumer \<longleftrightarrow> (a = v_read \<or> (\<exists>c. a = v_reader c))"
  using assms by (cases r; cases a; auto split: option.splits if_splits)+

lemma varlen_thread_inv:
  assumes "vconc_inv s" "varlen_thread r a s = Some t"
  shows "vconc_inv t"
  using varlen_threadD [OF assms(2)] conc_call [OF assms(1)] conc_r_call [OF assms(1)] conc_writer [OF assms(1)] conc_reader [OF assms(1)]
  by (cases a) auto

text \<open>A thread moves its own front only, and every value stays in the history.\<close>

lemma varlen_writer_moves:
  assumes "varlen_thread producer a s = Some t"
  shows "rpos (vseg t) = rpos (vseg s)" "rwseq (vseg t) = rwseq (vseg s)" "vread_history t = vread_history s"
    and "vrpc t = vrpc s" "vseen_commit t = vseen_commit s"
    and "data_capacity (hdr (vseg t)) = data_capacity (hdr (vseg s))"
    and "(cpos (vseg t) = cpos (vseg s) \<and> cseq (vseg t) = cseq (vseg s) \<and>
          vcommit_history t = vcommit_history s \<and> commit_stored (vwpc t) = commit_stored (vwpc s)) \<or>
      (\<not> commit_stored (vwpc s) \<and> commit_stored (vwpc t) \<and> cseq (vseg t) = cseq (vseg s) \<and>
       vcommit_history t = vcommit_history s @ [cpos (vseg t)]) \<or>
      (commit_stored (vwpc s) \<and> \<not> commit_stored (vwpc t) \<and> cpos (vseg t) = cpos (vseg s) \<and>
       cseq (vseg t) = cseq (vseg s) + 1 \<and> vcommit_history t = vcommit_history s)"
  using varlen_threadD [OF assms]
  by (cases a; cases "vwpc s"; auto simp: call_write_step_def writer_step_def Let_def poke_def
      commit_stored_def signal_commit_effect split: if_splits)+

lemma varlen_reader_moves:
  assumes "varlen_thread consumer a s = Some t"
  shows "cpos (vseg t) = cpos (vseg s)" "wpos (vseg t) = wpos (vseg s)" "cseq (vseg t) = cseq (vseg s)"
    and "vcommit_history t = vcommit_history s" "vwpc t = vwpc s" "vseen_read t = vseen_read s"
    and "data_capacity (hdr (vseg t)) = data_capacity (hdr (vseg s))"
    and "(rpos (vseg t) = rpos (vseg s) \<and> rwseq (vseg t) = rwseq (vseg s) \<and>
          vread_history t = vread_history s \<and> read_stored (vrpc t) = read_stored (vrpc s)) \<or>
      (\<not> read_stored (vrpc s) \<and> read_stored (vrpc t) \<and> rwseq (vseg t) = rwseq (vseg s) \<and>
       vread_history t = vread_history s @ [rpos (vseg t)]) \<or>
      (read_stored (vrpc s) \<and> \<not> read_stored (vrpc t) \<and> rpos (vseg t) = rpos (vseg s) \<and>
       rwseq (vseg t) = rwseq (vseg s) + 1 \<and> vread_history t = vread_history s)"
  using varlen_threadD [OF assms]
  by (cases a; cases "vrpc s"; auto simp: call_read_step_def reader_step_def Let_def read_stored_def signal_read_effect split: if_splits)+

text \<open>A position that stays in the history never moves back.\<close>

lemma commit_front_mono:
  assumes "vconc_inv t" "c \<in> set (vcommit_history t)"
  shows "c \<le> cpos (vseg t)"
  using vviews_invD(7) [OF vconc_invD(2) [OF assms(1)] assms(2)] by (simp add: word_le_nat_alt)

lemma read_front_mono:
  assumes "vconc_inv t" "r \<in> set (vread_history t)"
  shows "r \<le> rpos (vseg t)"
  using vviews_invD(6) [OF vconc_invD(2) [OF assms(1)] assms(2)] by (simp add: word_le_nat_alt)

lemma varlen_writer_notifies:
  assumes I: "vconc_inv s" "cpos (vseg s) \<in> set (vcommit_history s)" and st: "varlen_thread producer a s = Some t"
  shows "notifies (observe varlen_consumer_side s) (observe varlen_consumer_side t)"
  using varlen_writer_moves(7) [OF st]
proof (elim disjE)
  assume a: "\<not> commit_stored (vwpc s) \<and> commit_stored (vwpc t) \<and> cseq (vseg t) = cseq (vseg s) \<and>
    vcommit_history t = vcommit_history s @ [cpos (vseg t)]"
  then have "cpos (vseg s) \<le> cpos (vseg t)"
    using commit_front_mono [OF varlen_thread_inv [OF I(1) st]] I(2) by simp
  with a show ?thesis
    using varlen_writer_moves(1-6) [OF st] by (intro notifiesI(2)) (simp_all add: varlen_consumer_side_def)
next
  assume "commit_stored (vwpc s) \<and> \<not> commit_stored (vwpc t) \<and> cpos (vseg t) = cpos (vseg s) \<and>
    cseq (vseg t) = cseq (vseg s) + 1 \<and> vcommit_history t = vcommit_history s"
  then show ?thesis
    using varlen_writer_moves(1-6) [OF st] by (intro notifiesI(3)) (simp_all add: varlen_consumer_side_def)
qed (use varlen_writer_moves(1-6) [OF st] in \<open>intro notifiesI(1); simp add: varlen_consumer_side_def\<close>)

lemma varlen_reader_notifies:
  assumes I: "vconc_inv s" "rpos (vseg s) \<in> set (vread_history s)" and st: "varlen_thread consumer a s = Some t"
  shows "notifies (observe (varlen_producer_side n) s) (observe (varlen_producer_side n) t)"
  using varlen_reader_moves(8) [OF st]
proof (elim disjE)
  assume a: "\<not> read_stored (vrpc s) \<and> read_stored (vrpc t) \<and> rwseq (vseg t) = rwseq (vseg s) \<and>
    vread_history t = vread_history s @ [rpos (vseg t)]"
  then have "rpos (vseg s) \<le> rpos (vseg t)"
    using read_front_mono [OF varlen_thread_inv [OF I(1) st]] I(2) by simp
  with a show ?thesis
    using varlen_reader_moves(1-7) [OF st] by (intro notifiesI(2)) (simp_all add: varlen_producer_side_def)
next
  assume "read_stored (vrpc s) \<and> \<not> read_stored (vrpc t) \<and> rpos (vseg t) = rpos (vseg s) \<and>
    rwseq (vseg t) = rwseq (vseg s) + 1 \<and> vread_history t = vread_history s"
  then show ?thesis
    using varlen_reader_moves(1-7) [OF st] by (intro notifiesI(3)) (simp_all add: varlen_producer_side_def)
qed (use varlen_reader_moves(1-7) [OF st] in \<open>intro notifiesI(1); simp add: varlen_producer_side_def\<close>)


section \<open>The interface\<close>

lemma vword_transparent:
  assumes inv: "vconc_inv s"
    and f: "\<And>m. write_pos (f m) = write_pos m" "\<And>m. read_pos (f m) = read_pos m" "\<And>m. commit_pos (f m) = commit_pos m"
  shows "vconc_inv (s\<lparr>vseg := update_meta f (vseg s)\<rparr>)"
proof (rule writer_local [OF inv, where g = "update_meta f (vseg s)" and w = "vwriter s" and pc = "vwpc s"])
  show "same_fronts (vseg s) (update_meta f (vseg s))" using f by (simp add: same_fronts_def)
  show "vwriter_inv (s\<lparr>vseg := update_meta f (vseg s)\<rparr>)"
    using vconc_invD(4) [OF inv] f by (subst vwriter_inv_frame [of _ s]) simp_all
qed (use f in simp_all)

lemma vseen_commit_keeps:
  assumes inv: "vconc_inv s" and c: "vseen_commit s \<le> c" "c \<in> set (vcommit_history s) \<or> c = vseen_commit s"
  shows "vconc_inv (s\<lparr>vseen_commit := c\<rparr>)"
proof -
  let ?t = "s\<lparr>vseen_commit := c\<rparr>"
  have le: "unat (vseen_commit s) \<le> unat c" using c(1) by (simp add: word_le_nat_alt)
  have "vviews_inv ?t"
    using vconc_invD(2) [OF inv] vviews_invD(7) [OF vconc_invD(2) [OF inv], of c] c(2) by (auto simp: vviews_inv_def)
  moreover have "slot_seen s v \<Longrightarrow> slot_seen ?t v" for v using le by (auto simp: slot_seen_def)
  then have "vreader_inv ?t"
    using vconc_invD(5) [OF inv] le by (fastforce simp: vreader_inv_def split: vrpc.splits option.splits)
  moreover have "vwriter_inv ?t"
    using vconc_invD(4) [OF inv] by (subst vwriter_inv_frame [of _ s]) simp_all
  ultimately show ?thesis using inv by (simp add: vconc_inv_def vlow_def)
qed

lemma room_seen_later:
  "room_seen s m head \<Longrightarrow> unat (vseen_read s) \<le> unat r \<Longrightarrow> room_seen (s\<lparr>vseen_read := r\<rparr>) m head"
  by (simp add: room_seen_def writer_idle_def)

lemma vseen_read_keeps:
  assumes inv: "vconc_inv s" and r: "vseen_read s \<le> r" "r \<in> set (vread_history s) \<or> r = vseen_read s"
  shows "vconc_inv (s\<lparr>vseen_read := r\<rparr>)"
proof -
  let ?t = "s\<lparr>vseen_read := r\<rparr>"
  have le: "unat (vseen_read s) \<le> unat r" using r(1) by (simp add: word_le_nat_alt)
  have "vviews_inv ?t"
    using vconc_invD(2) [OF inv] vviews_invD(6) [OF vconc_invD(2) [OF inv], of r] r(2) le by (auto simp: vviews_inv_def)
  moreover have "vreader_inv ?t"
    by (rule vreader_inv_frame [where s = s and us = "[]"]) (use vconc_invD(5) [OF inv] in simp_all)
  moreover have "vwriter_inv ?t"
    using vconc_invD(4) [OF inv] room_seen_later [OF _ le]
    by (cases "vwpc s") (simp_all add: vwriter_inv_def writer_idle_def slot_taken_def header_stored_def Let_def)
  ultimately show ?thesis using inv by (simp add: vconc_inv_def vlow_def)
qed

lemma vshared_inv_thread:
  assumes "vshared_inv n s" "varlen_thread r a s = Some t"
  shows "vshared_inv n t"
proof -
  have I: "vconc_inv s" "cpos (vseg s) \<in> set (vcommit_history s)" "rpos (vseg s) \<in> set (vread_history s)"
    "u64_of_u32 n \<le> data_capacity (hdr (vseg s))"
    using assms(1) by (auto simp: vshared_inv_def)
  have "cpos (vseg t) \<in> set (vcommit_history t) \<and> rpos (vseg t) \<in> set (vread_history t) \<and>
    data_capacity (hdr (vseg t)) = data_capacity (hdr (vseg s))"
  proof (cases r)
    case consumer
    then have st: "varlen_thread consumer a s = Some t" using assms(2) by simp
    have "rpos (vseg t) \<in> set (vread_history t)"
      using notifies_hist [OF varlen_reader_notifies [OF I(1,3) st, of n]] I(3) by (simp add: varlen_producer_side_def)
    then show ?thesis using varlen_reader_moves(1,4,7) [OF st] I(2) by simp
  next
    case producer
    then have st: "varlen_thread producer a s = Some t" using assms(2) by simp
    have "cpos (vseg t) \<in> set (vcommit_history t)"
      using notifies_hist [OF varlen_writer_notifies [OF I(1,2) st]] I(2) by (simp add: varlen_consumer_side_def)
    then show ?thesis using varlen_writer_moves(1,3,6) [OF st] I(3) by simp
  qed
  with varlen_thread_inv [OF I(1) assms(2)] I(4) show ?thesis by (simp add: vshared_inv_def)
qed

lemma vshared_wf: "vshared_inv n s \<Longrightarrow> wf_view (observe (side (varlen_shared n) r) s)"
  by (cases r) (auto simp: vshared_inv_def wf_view_def varlen_consumer_side_def varlen_producer_side_def
    vconc_inv_def vviews_inv_def list_all_iff word_le_nat_alt)

interpretation varlen_duplex: two_sided "varlen_shared n" "vshared_inv n" for n
proof
  fix s t r a w c q assume I: "vshared_inv n s"
  then have C: "vconc_inv s" "cpos (vseg s) \<in> set (vcommit_history s)" "rpos (vseg s) \<in> set (vread_history s)"
    by (auto simp: vshared_inv_def)
  show "wf_view (observe (side (varlen_shared n) r) s)" using I by (rule vshared_wf)
  {
    assume st: "thread_act (varlen_shared n) r a s = Some t"
    show "vshared_inv n t" using vshared_inv_thread [OF I] st by simp
    show "front (observe (side (varlen_shared n) r) t) = front (observe (side (varlen_shared n) r) s) \<and>
      seq (observe (side (varlen_shared n) r) t) = seq (observe (side (varlen_shared n) r) s) \<and>
      hist (observe (side (varlen_shared n) r) t) = hist (observe (side (varlen_shared n) r) s) \<and>
      storing (observe (side (varlen_shared n) r) t) = storing (observe (side (varlen_shared n) r) s)"
      using st varlen_reader_moves(1,3,4,5) [of a s t] varlen_writer_moves(1-4) [of a s t]
      by (cases r) (simp_all add: varlen_consumer_side_def varlen_producer_side_def)
    show "notifies (observe (side (varlen_shared n) (other r)) s) (observe (side (varlen_shared n) (other r)) t)"
      using st varlen_reader_notifies [OF C(1,3), of a t n] varlen_writer_notifies [OF C(1,2), of a t]
      by (cases r) simp_all
    show "between_calls (varlen_shared n) (other r) t = between_calls (varlen_shared n) (other r) s"
      using st varlen_reader_moves(5) [of a s t] varlen_writer_moves(4) [of a s t] by (cases r) simp_all
  }
  show "vshared_inv n (set_seq (side (varlen_shared n) r) w s)"
    using I vword_transparent [OF C(1)]
    by (cases r) (simp_all add: vshared_inv_def varlen_consumer_side_def varlen_producer_side_def)
  show "vshared_inv n (set_seen (side (varlen_shared n) r) c s)"
    if "seen (observe (side (varlen_shared n) r) s) \<le> c"
      "c \<in> set (hist (observe (side (varlen_shared n) r) s)) \<or> c = seen (observe (side (varlen_shared n) r) s)"
    using I that vseen_commit_keeps [OF C(1), of c] vseen_read_keeps [OF C(1), of c]
    by (cases r) (simp_all add: vshared_inv_def varlen_consumer_side_def varlen_producer_side_def)
  show "\<exists>r. enough (observe (side (varlen_shared n) r) s) (front (observe (side (varlen_shared n) r) s))"
    if "between_calls (varlen_shared n) consumer s" "between_calls (varlen_shared n) producer s"
  proof (cases "rpos (vseg s) < cpos (vseg s)")
    case True
    then show ?thesis by (intro exI [of _ consumer]) (simp add: varlen_consumer_side_def)
  next
    case False
    have "wpos (vseg s) = cpos (vseg s)"
      using vconc_invD(4) [OF C(1)] that by (simp add: vwriter_inv_def writer_idle_def Let_def)
    moreover have "rpos (vseg s) = cpos (vseg s)"
      using False vring_invD(6) [OF vconc_invD(1) [OF C(1)]] by (simp add: word_less_nat_alt word_unat_eq_iff)
    ultimately show ?thesis
      using I by (intro exI [of _ producer]) (simp add: varlen_producer_side_def vshared_inv_def not_less)
  qed
next
  fix s r w c q
  show "observe (side (varlen_shared n) r) (set_seq (side (varlen_shared n) r) w s) =
      (observe (side (varlen_shared n) r) s)\<lparr>seq := w\<rparr>"
    "observe (side (varlen_shared n) (other r)) (set_seq (side (varlen_shared n) r) w s) =
      observe (side (varlen_shared n) (other r)) s"
    "between_calls (varlen_shared n) q (set_seq (side (varlen_shared n) r) w s) = between_calls (varlen_shared n) q s"
    "observe (side (varlen_shared n) r) (set_seen (side (varlen_shared n) r) c s) =
      (observe (side (varlen_shared n) r) s)\<lparr>seen := c\<rparr>"
    "observe (side (varlen_shared n) (other r)) (set_seen (side (varlen_shared n) r) c s) =
      observe (side (varlen_shared n) (other r)) s"
    "between_calls (varlen_shared n) q (set_seen (side (varlen_shared n) r) c s) = between_calls (varlen_shared n) q s"
    by (cases r; cases q; simp add: varlen_consumer_side_def varlen_producer_side_def)+
  show "between_calls (varlen_shared n) r s \<Longrightarrow> \<not> storing (observe (side (varlen_shared n) (other r)) s)"
    by (cases r) (simp_all add: varlen_consumer_side_def varlen_producer_side_def commit_stored_def read_stored_def)
qed


section \<open>Blocking threads on a variable-length ring\<close>

lemma varlen_duplex_reach:
  assumes op: "varlen_ring_open seg0 cap alignment = Some (w, r, s)" "8 \<le> alignment"
    and len: "unat cap \<le> length (data_bytes seg0)"
      "unat cap + 32 \<le> length (data_bytes seg0) + unat alignment"
    and n: "u64_of_u32 n \<le> cap"
    and reach: "dreach (varlen_shared n) (new_duplex (varlen_shared n) (new_vstate w s max_size)) d"
  shows "duplex_inv (varlen_shared n) (vshared_inv n) d" "young d"
proof -
  have "data_capacity (hdr s) = cap"
    using op(1) by (auto simp: varlen_ring_open_def init_control_block_def Let_def split: if_splits)
  then have "vshared_inv n (new_vstate w s max_size)"
    using vconc_inv_start [OF op len] n by (simp add: vshared_inv_def new_vstate_def)
  from varlen_duplex.dreach_inv [OF reach] varlen_duplex.new_duplex_inv [OF this]
  show "duplex_inv (varlen_shared n) (vshared_inv n) d" "young d" by blast+
qed

text \<open>
  C9: A producer and a consumer that block on the variable-length ring, the producer until \<open>n\<close>
  bytes are free. In every
  interleaving of their memory accesses, waits, spurious returns and wakes, with predicates that
  load stale positions, and whether or not a thread sleeps, no message is lost, duplicated, altered or reordered.
  A thread that sleeps although its wait is over (for the other side's progress or for a change of
  the sequence) is about to be woken: the other thread has still to bump the word and will find the
  waiter flag, or it is about to issue the wake. And two threads that wait for each other's progress
  never both sleep; two waits for a change of the sequence may, nothing being there to change it. The ring has alignment 8 or more
  and room for a padding header, and messages are not empty.
\<close>

theorem varlen_blocking_wakeup:
  assumes "varlen_ring_open seg0 cap alignment = Some (w, r, s)" "8 \<le> alignment"
    and "unat cap \<le> length (data_bytes seg0)"
    and "unat cap + 32 \<le> length (data_bytes seg0) + unat alignment"
    and "u64_of_u32 n \<le> cap"
    and "dreach (varlen_shared n) (new_duplex (varlen_shared n) (new_vstate w s max_size)) d"
  shows "vsent (ring d) = vreceived (ring d) @ varlen_contents (vseg (ring d)) \<and>
    (\<forall>q x m. pwaiter (ports d q) = Some x \<and> wpc x = w_blocked m \<and> wait_over (view_of (varlen_shared n) q d) x \<longrightarrow>
       pwaking (ports d q) \<or>
       (storing (view_of (varlen_shared n) q d) \<and> fst (bump_notify_word (seq (view_of (varlen_shared n) q d))))) \<and>
    (\<forall>x y. pwaiter (ports d consumer) = Some x \<and> pwaiter (ports d producer) = Some y \<and>
       wkind x = until_published \<and> wkind y = until_published \<longrightarrow>
       \<not> (blocked (ports d consumer) \<and> blocked (ports d producer)))"
proof (intro conjI allI impI)
  note I = varlen_duplex_reach(1) [OF assms(1-6)]
  show "vsent (ring d) = vreceived (ring d) @ varlen_contents (vseg (ring d))"
    using varlen_duplex.duplex_invD(1) [OF I] vconc_invD(6) by (simp add: vshared_inv_def)
  show "pwaking (ports d q) \<or> (storing (view_of (varlen_shared n) q d) \<and> fst (bump_notify_word (seq (view_of (varlen_shared n) q d))))"
    if "pwaiter (ports d q) = Some x \<and> wpc x = w_blocked m \<and> wait_over (view_of (varlen_shared n) q d) x" for q x m
    using varlen_duplex.no_lost_wakeup [OF I, of q x m] that by (simp add: wait_over_def)
  show "\<not> (blocked (ports d consumer) \<and> blocked (ports d producer))"
    if "pwaiter (ports d consumer) = Some x \<and> pwaiter (ports d producer) = Some y \<and>
      wkind x = until_published \<and> wkind y = until_published" for x y
    using varlen_duplex.not_both_asleep [OF I, of x y] that by blast
qed

text \<open>
  C20: A blocked thread of the variable-length ring comes back. Once the other side has made the
  progress it waits for, and has bumped the word and delivered its wake, the waiting thread
  returns within seven of its own steps, whatever stale positions its loads return, and an
  untimed wait returns true; it is never stuck, since the current position can be loaded. The ring
  has alignment 8 or more and room for a padding header, and messages are not empty.
\<close>

theorem varlen_blocking_returns:
  assumes "varlen_ring_open seg0 cap alignment = Some (w, r, s)" "8 \<le> alignment"
    and "unat cap \<le> length (data_bytes seg0)"
    and "unat cap + 32 \<le> length (data_bytes seg0) + unat alignment"
    and "u64_of_u32 n \<le> cap"
    and "dreach (varlen_shared n) (new_duplex (varlen_shared n) (new_vstate w s max_size)) d"
    and "pwaiter (ports d q) = Some x" "wait_over (view_of (varlen_shared n) q d) x"
    and "\<not> storing (view_of (varlen_shared n) q d)" "\<not> pwaking (ports d q)"
  shows "dapply (varlen_shared n) (wait_act q expired (front (view_of (varlen_shared n) q d))) d \<noteq> None \<and>
    (7 \<le> length cs \<and> wait_run (varlen_shared n) q cs d = Some e \<longrightarrow>
       pwaiter (ports e q) = None \<and> (\<exists>b. presult (ports e q) = Some b \<and> (timed x \<or> b)))"
proof (intro conjI impI)
  note I = varlen_duplex_reach [OF assms(1-6)]
  show "dapply (varlen_shared n) (wait_act q expired (front (view_of (varlen_shared n) q d))) d \<noteq> None"
    by (rule varlen_duplex.wait_can_step [OF I assms(7,9,10,8)])
  assume "7 \<le> length cs \<and> wait_run (varlen_shared n) q cs d = Some e"
  then show "pwaiter (ports e q) = None" "\<exists>b. presult (ports e q) = Some b \<and> (timed x \<or> b)"
    using varlen_duplex.wait_returns [OF I assms(7,9,10,8), of cs e] wait_rank_bound [of x] by auto
qed

text \<open>A ring of 128 bytes whose consumer has gone to sleep while the producer writes one message.\<close>

definition vsmall_run :: "vaction daction list \<Rightarrow> vstate duplex option" where
  "vsmall_run acts =
     (case varlen_ring_open (fresh_segment 128) 128 32 of
        Some (w, r, s) \<Rightarrow>
          drun (varlen_shared 64) acts (new_duplex (varlen_shared 64) (new_vstate w s 16))
      | None \<Rightarrow> None)"

lemma vsmall_run_reach:
  assumes "vsmall_run acts = Some d" "length acts < 100"
  obtains w and r :: varlen_reader and s where "varlen_ring_open (fresh_segment 128) 128 32 = Some (w, r, s)"
    and "dreach (varlen_shared 64) (new_duplex (varlen_shared 64) (new_vstate w s 16)) d"
proof -
  obtain w and r :: varlen_reader and s where o: "varlen_ring_open (fresh_segment 128) 128 32 = Some (w, r, s)"
    and d: "drun (varlen_shared 64) acts (new_duplex (varlen_shared 64) (new_vstate w s 16)) = Some d"
    using assms(1) by (auto simp: vsmall_run_def split: option.splits)
  have "ages_below 1 (new_duplex (varlen_shared 64) (new_vstate w s 16))"
    by (simp add: ages_below_def new_duplex_def new_port_def)
  from drun_dreach [OF d dreach.start this] assms(2) o show thesis using that by simp
qed

definition vasleep_schedule :: "vaction daction list" where
  "vasleep_schedule =
     begin_wait consumer until_published (- 1) # replicate 8 (wait_act consumer False 0) @
     ring_act producer (v_call ([5], default_meta)) # replicate 38 (ring_act producer (v_writer 0))"

definition vwoken_schedule :: "vaction daction list" where
  "vwoken_schedule = vasleep_schedule @ [ring_act producer (v_writer 0), deliver_wake consumer]"

definition vstale_loads :: "(bool \<times> u64) list" where
  "vstale_loads = [(False, 0), (False, 0), (False, 64), (False, 64), (False, 64), (False, 64), (False, 64)]"

lemma vasleep_run:
  "map_option (\<lambda>d. (pwaiter (ports d consumer), cpos (vseg (ring d)), rpos (vseg (ring d)),
      pwaking (ports d consumer))) (vsmall_run vasleep_schedule) = Some (Some asleep, 64, 0, False)"
  by code_simp

lemma vwoken_run:
  "map_option (\<lambda>d. (pwaiter (ports d consumer), vwpc (ring d), cpos (vseg (ring d)), rpos (vseg (ring d)),
      pwaking (ports d consumer), wait_run (varlen_shared 64) consumer vstale_loads d = None))
      (vsmall_run vwoken_schedule) =
    Some (Some (asleep\<lparr>wpc := w_check1, age := 1\<rparr>), vw_idle, 64, 0, False, False)"
  by code_simp

theorem varlen_blocking_wakeup_witness:
  "\<exists>d. vsmall_run vasleep_schedule = Some d \<and> pwaiter (ports d consumer) = Some asleep \<and>
    cpos (vseg (ring d)) = 64 \<and> rpos (vseg (ring d)) = 0 \<and>
    vsent (ring d) = vreceived (ring d) @ varlen_contents (vseg (ring d)) \<and>
    fst (bump_notify_word (seq (view_of (varlen_shared 64) consumer d)))"
proof -
  obtain d where d: "vsmall_run vasleep_schedule = Some d" "pwaiter (ports d consumer) = Some asleep"
    "cpos (vseg (ring d)) = 64" "rpos (vseg (ring d)) = 0" "\<not> pwaking (ports d consumer)"
    using vasleep_run by auto
  have "length vasleep_schedule < 100" by (simp add: vasleep_schedule_def)
  then obtain w and r :: varlen_reader and s where
    o: "varlen_ring_open (fresh_segment 128) 128 32 = Some (w, r, s)"
    "dreach (varlen_shared 64) (new_duplex (varlen_shared 64) (new_vstate w s 16)) d"
    by (rule vsmall_run_reach [OF d(1)])
  have v: "wait_over (view_of (varlen_shared 64) consumer d) asleep"
    using d(3,4) by (simp add: wait_over_def waiting_def view_of_def varlen_consumer_side_def asleep_def)
  have g: "u64_of_u32 64 \<le> (128 :: u64)" by (simp add: u64_of_u32_def)
  have "wpc asleep = w_blocked notify_waiter_bit" by (simp add: asleep_def)
  with varlen_blocking_wakeup [OF o(1) _ _ _ g o(2), simplified] v d show ?thesis
    by (fastforce simp: fresh_segment_def)
qed

theorem varlen_blocking_returns_witness:
  "\<exists>d e. vsmall_run vwoken_schedule = Some d \<and>
    wait_run (varlen_shared 64) consumer vstale_loads d = Some e \<and>
    pwaiter (ports e consumer) = None \<and> presult (ports e consumer) = Some True"
proof -
  obtain d e where d: "vsmall_run vwoken_schedule = Some d"
    "pwaiter (ports d consumer) = Some (asleep\<lparr>wpc := w_check1, age := 1\<rparr>)" "vwpc (ring d) = vw_idle"
    "cpos (vseg (ring d)) = 64" "rpos (vseg (ring d)) = 0" "\<not> pwaking (ports d consumer)"
    and e: "wait_run (varlen_shared 64) consumer vstale_loads d = Some e"
    using vwoken_run by auto
  have "length vwoken_schedule < 100" by (simp add: vwoken_schedule_def vasleep_schedule_def)
  then obtain w and r :: varlen_reader and s where
    o: "varlen_ring_open (fresh_segment 128) 128 32 = Some (w, r, s)"
    "dreach (varlen_shared 64) (new_duplex (varlen_shared 64) (new_vstate w s 16)) d"
    by (rule vsmall_run_reach [OF d(1)])
  have v: "wait_over (view_of (varlen_shared 64) consumer d) (asleep\<lparr>wpc := w_check1, age := 1\<rparr>)"
    "\<not> storing (view_of (varlen_shared 64) consumer d)"
    using d(3-5) by (simp_all add: wait_over_def waiting_def view_of_def varlen_consumer_side_def
        asleep_def commit_stored_def)
  have g: "u64_of_u32 64 \<le> (128 :: u64)" by (simp add: u64_of_u32_def)
  have "7 \<le> length vstale_loads" by (simp add: vstale_loads_def)
  with varlen_blocking_returns [OF o(1) _ _ _ g o(2) d(2) v d(6), of False vstale_loads e] e d(1)
  show ?thesis by (auto simp: fresh_segment_def asleep_def)
qed

end
