(* ===== verification/Spec2Isabelle.thy ===== *)
theory Spec2Isabelle
  imports Fixed_Properties Varlen_Limits Notify_Protocol Fixed_Concurrent Atomic_Wait
    Varlen_Termination Abi_Layout Platform_Config Fill_Ratio Fixed_Sequential Fixed_Stream Varlen_Stream
    Varlen_Sequential Varlen_Order Wait_Timeouts Basic_Usage Fixed_Blocking Varlen_Blocking
begin

text \<open>
  \<^bold>\<open>spscring\<close> is a header-only C++17 library of two single-producer single-consumer rings that live
  in memory two processes can share: a control block, then the data bytes. This development models
  the library under \<open>src/include/spscring\<close> and the programs under \<open>src/examples\<close>.

  \<^bold>\<open>The program.\<close> \<open>control_block.hpp\<close> declares the shared header: the geometry of the ring, three
  64-bit positions (\<open>write_pos\<close>, \<open>commit_pos\<close>, \<open>read_pos\<close>, which only grow and are reduced modulo the
  capacity) and two 32-bit notify words. \<open>ring_view.hpp\<close> holds the queries both rings inherit.
  \<open>fixed_writer.hpp\<close> and \<open>fixed_reader.hpp\<close> move frames of one size; \<open>varlen_writer.hpp\<close> and
  \<open>varlen_reader.hpp\<close> move messages with metadata, each behind a 32-byte slot header
  (\<open>internal/varlen_header.hpp\<close>, \<open>message_meta.hpp\<close>, \<open>reserve_result.hpp\<close>). A publication stores the
  position and then bumps a notify word (\<open>notify_word.hpp\<close>); when the bump finds the waiter flag it
  calls \<open>atomic_notify_all\<close>. \<open>atomic_wait.hpp\<close> dispatches the blocking calls to the backends
  \<open>internal/atomic_wait_futex.hpp\<close>, \<open>internal/atomic_wait_win32.hpp\<close>, \<open>internal/atomic_wait_darwin.hpp\<close>
  or to polling; \<open>atomic_backoff.hpp\<close> spins and yields; \<open>internal/platform.hpp\<close> selects by macro.

  \<^bold>\<open>Conventions\<close> (\<open>Ring_Prelude\<close>). \<open>uint32_t\<close> and \<open>uint64_t\<close> are words and wrap as in C++. An
  evaluation that C++ leaves undefined, an access outside the mapped bytes and \<open>std::abort\<close> are
  \<open>Inl\<close> values of the result type \<open>res\<close>; freedom from undefined behaviour is always part of what is
  proved. Memory is a list of bytes; members of slot headers are stored and loaded little-endian.
  A loop that may not end is a \<open>partial_function\<close> in the option type or carries fuel, and its
  termination is a theorem of its own.

  \<^bold>\<open>Data and whole operations.\<close>
  \<^item> \<open>Control_Block\<close>: the records \<open>meta\<close>, \<open>control_block\<close>, the mapped \<open>segment\<close>, \<open>init_control_block\<close>
    and the validators. \<open>Abi_Layout\<close>: the C++ layout rules and the offsets the static assertions
    pin. \<open>Ring_View\<close>, \<open>Fill_Ratio\<close>: the queries; the rounding of
    the floating-point division is a parameter.
  \<^item> \<open>Notify_Word\<close>: flag and sequence of a notify word. \<open>Atomic_Backoff\<close>: the escalation.
  \<^item> \<open>Fixed_Ring\<close>, \<open>Fixed_Properties\<close>: every operation of \<open>fixed_writer\<close> and \<open>fixed_reader\<close>, the
    invariant \<open>fixed_inv\<close>, the frames it represents, the outcome of each operation.
  \<^item> \<open>Slot_Header\<close>, \<open>Varlen_Slots\<close>, \<open>Varlen_Ring\<close>, \<open>Varlen_Channel\<close>, \<open>Varlen_Delivery\<close>,
    \<open>Varlen_Properties\<close>: slot headers as bytes, the slots between two positions as a parsed list,
    every operation of \<open>varlen_writer\<close> and \<open>varlen_reader\<close>, the invariant \<open>varlen_inv\<close> and the
    messages it represents. \<open>Varlen_Termination\<close>: the reservation loop returns from every header.
    \<open>Varlen_Limits\<close>: where the ring leaves the safe envelope.
  \<^item> \<open>Channel\<close>: the interface \<open>spsc_channel\<close>, a queue with a send that may be refused; both rings
    interpret it, and first-in-first-out delivery is proved once there.

  \<^bold>\<open>Threads.\<close>
  \<^item> \<open>Fixed_Concurrent\<close>, \<open>Varlen_Threads\<close>, \<open>Varlen_Concurrent\<close>: \<open>write\<close> and \<open>read\<close> of each ring cut
    into single accesses of shared memory and interleaved in every way. An acquire load of the
    other thread's position returns any value it has held that is not older than one this thread
    has already loaded. Delivery in order and byte for byte, no store and load of the same byte,
    all accesses in bounds. A thread's call is a step of its own, and a thread between calls takes
    no other; a call of the variable-length \<open>read\<close> goes on after skipping padding. The fixed-ring threads move
    frames of exactly the item size; the variable-length writer is called with non-empty payloads
    whose slot size does not wrap.
    \<open>Fixed_Sequential\<close>, \<open>Varlen_Sequential\<close>: a thread that calls and runs on
    uninterrupted does what the whole operation does, on every branch.
  \<^item> \<open>Memory_Order\<close>: happens-before by clocks, and the interface \<open>ring_threads\<close>, threads that publish
    and consume through two positions; absence of data races is proved once there.
    \<open>Fixed_Order\<close> and \<open>Varlen_Order\<close> interpret it with the threads above: the acquire and release
    orders in the code suffice, and none of them can be weakened to relaxed.
  \<^item> \<open>Notify_Protocol\<close>: \<open>wait_on_notify_word\<close> and its variants at the granularity of atomic
    operations, against a bumper and a kernel that may return spuriously.
  \<^item> \<open>Blocking\<close>: the interface \<open>two_sided\<close>, a ring with one thread on each side that may block, with
    predicates that load stale positions; no lost wakeup, no common sleep and the return of a
    wait are proved once there. \<open>Fixed_Blocking\<close> and \<open>Varlen_Blocking\<close> interpret it with the threads
    of the two rings.
  \<^item> \<open>Stream_Client\<close>, \<open>Fixed_Stream\<close>, \<open>Varlen_Stream\<close>: the two programs of
    \<open>examples/thread_channel.cpp\<close>, one library call per step, under every schedule and on every
    platform: whether the timed wait of a thread returns is decided by the platform (\<open>wait_returns\<close>).
    The interface
    \<open>stream_refinement\<close> gives order; its extension \<open>stream_fair\<close> asks for a helpful thread in every
    unfinished state, whose steps make progress the other cannot undo, and gives that every fair
    schedule finishes. Both programs interpret both, the second on platforms that honour time-outs; on the
    others the fixed-ring program has a schedule that hangs.
    \<open>Basic_Usage\<close>: \<open>examples/basic_usage.cpp\<close>.

  \<^bold>\<open>Waiting.\<close> \<open>Wait_Calls\<close>: the system calls with the arguments the backends build, and what the kernel
  makes of them: when a wait blocks, for how long at most, which wakes reach it. \<open>Atomic_Wait\<close>: the wait
  loops of all backends as seen by the waiting thread, whose loads, clock and system calls are
  observations of an environment, in which a blocking call may never return; the hypothesis
  \<open>kernel_law\<close> names what is relied on of the kernel. When the untimed wait returns, and where it
  needs to be woken. \<open>Wait_Timeouts\<close>: when the timed waits report a time-out, when they return and
  when they do not. \<open>Win32_Config\<close>: environment
  variables and loading of the API. \<open>Platform_Config\<close>: the preprocessor's decisions.

  \<^bold>\<open>Bounds and fuel.\<close> Positions are 64-bit and the order of two positions is only meaningful before
  they wrap; the sequential results carry the number of operations still possible, the concurrent
  ones stop before \<open>write_pos\<close> is within one frame (or one capacity) of \<open>2 ^ 64\<close>, which at a
  gigabyte per second takes five hundred years. A wait is followed for fewer than \<open>2 ^ 31\<close> bumps,
  after which the sequence repeats. Fuel bounds the observations of one wait; theorems on waits
  say for which fuel they return, or that no fuel makes them return. The variable-length results
  that promise memory safety ask for alignments of at least 8 (the header is an 8-byte aligned
  object) and for room for a padding header behind the data region, which alignments below 32 need
  (\<open>Varlen_Limits\<close> and \<open>Varlen_Stream\<close> show what happens without it).

  \<^bold>\<open>Not modelled.\<close> The kernel and the operating system's calls, which are the environment; a handler of
  \<open>varlen_reader::read\<close> that writes into the ring through the pointer it is given; memory
  models without coherence of single variables, or with out-of-thin-air values; process crashes; what
  the examples print; the benchmarks (timing loops around the same calls), the tests and the build
  files. Benchmarks need a third-party harness and add no operation of the library.
\<close>

end
